(* ===== verification/Prelude.thy ===== *)
theory Prelude
  imports Main "HOL-Library.Word" "HOL-Library.Char_ord" "HOL-Library.List_Lexorder"
    "HOL-Library.Sublist"
begin

text \<open>
  Shared vocabulary of the development: bytes and NUL-terminated strings, the character
  classification of the C locale, the markers for undefined behaviour, and the lemmas on
  prefixes, scans and in-place writes that the components use.
\<close>

unbundle bit_operations_syntax

section \<open>Lemma collections\<close>

named_theorems cstr_simps \<open>reading a NUL-terminated buffer at a position\<close>
named_theorems char_facts \<open>which characters a classifier accepts\<close>

section \<open>Machine types and undefined behaviour\<close>

type_synonym u8 = "8 word"
type_synonym u32 = "32 word"

text \<open>
  Where the C++ code has undefined behaviour (or aborts), the model returns a marker in the
  left summand instead of some value.
\<close>

datatype ub = Out_of_bounds | Uninitialised | Null_deref | Bad_cast

section \<open>Bytes and C strings\<close>

abbreviation NUL :: char where "NUL \<equiv> CHR 0x00"
abbreviation CR :: char where "CR \<equiv> CHR 0x0D"
abbreviation LF :: char where "LF \<equiv> CHR 0x0A"

text \<open>
  A \<open>char\<close> is one byte of a \<open>std::string\<close>.  \<open>rd s i\<close> is \<open>s[i]\<close>, where
  \<open>s[s.size()]\<close> is the terminator; \<open>cstr s\<close> is what \<open>std::string(s.data())\<close> copies.
\<close>

definition rd :: "string \<Rightarrow> nat \<Rightarrow> char" where
  "rd s i = (if i < length s then s ! i else NUL)"

definition cstr :: "string \<Rightarrow> string" where
  "cstr s = takeWhile (\<lambda>c. c \<noteq> NUL) s"

text \<open>
  The loop \<open>for (len = 0; s[len] != stop; len++) if (s[len] == 0) break;\<close>: the number of
  characters before the first stop character or the terminator.
\<close>

definition scan :: "(char \<Rightarrow> bool) \<Rightarrow> string \<Rightarrow> nat" where
  "scan stop s = length (takeWhile (\<lambda>c. \<not> stop c \<and> c \<noteq> NUL) s)"

text \<open>\<open>strncmp(s + i, lit, strlen(lit)) == 0\<close> for a literal without NUL.\<close>

fun strncmp_eq :: "string \<Rightarrow> nat \<Rightarrow> string \<Rightarrow> bool" where
  "strncmp_eq s i [] = True"
| "strncmp_eq s i (x # xs) = (rd s i = x \<and> strncmp_eq s (Suc i) xs)"

text \<open>Storing one byte back into a \<open>char\<close>.\<close>

definition byte_char :: "u8 \<Rightarrow> char" where
  "byte_char v = char_of (unat v)"

section \<open>Character classification in the C locale\<close>

definition is_digit :: "char \<Rightarrow> bool" where
  "is_digit c \<longleftrightarrow> CHR ''0'' \<le> c \<and> c \<le> CHR ''9''"

definition is_xdigit :: "char \<Rightarrow> bool" where
  "is_xdigit c \<longleftrightarrow> is_digit c \<or> (CHR ''A'' \<le> c \<and> c \<le> CHR ''F'')
     \<or> (CHR ''a'' \<le> c \<and> c \<le> CHR ''f'')"

definition is_space :: "char \<Rightarrow> bool" where
  "is_space c \<longleftrightarrow> c = CHR '' '' \<or> (CHR 0x09 \<le> c \<and> c \<le> CHR 0x0D)"

definition to_lower :: "char \<Rightarrow> char" where
  "to_lower c = (if CHR ''A'' \<le> c \<and> c \<le> CHR ''Z'' then char_of (of_char c + 32 :: nat) else c)"

definition to_upper :: "char \<Rightarrow> char" where
  "to_upper c = (if CHR ''a'' \<le> c \<and> c \<le> CHR ''z'' then char_of (of_char c - 32 :: nat) else c)"

text \<open>Case folding on the bits of a character, for evaluation.\<close>

lemma to_lower_bits [code]:
  "to_lower (Char b0 b1 b2 b3 b4 b5 b6 b7) =
     (if \<not> b7 \<and> b6 \<and> \<not> b5 \<and> (b0 \<or> b1 \<or> b2 \<or> b3 \<or> b4) \<and> \<not> (b4 \<and> b3 \<and> (b2 \<or> b1 \<and> b0))
      then Char b0 b1 b2 b3 b4 True b6 b7 else Char b0 b1 b2 b3 b4 b5 b6 b7)"
  by (cases b0; cases b1; cases b2; cases b3; cases b4; cases b5; cases b6; cases b7;
      simp add: to_lower_def less_eq_char_def char_of_eq_iff)

lemma to_lower_idem [simp]: "to_lower (to_lower c) = to_lower c"
  by (simp add: to_lower_def less_eq_char_def)

lemma to_upper_idem [simp]: "to_upper (to_upper c) = to_upper c"
proof -
  have "(of_char c - 32) mod 256 = of_char c - (32 :: nat)"
    by (rule mod_less) (use nat_of_char_less_256 [of c] in linarith)
  then show ?thesis by (auto simp: to_upper_def less_eq_char_def)
qed

lemma is_xdigit_to_upper [simp]: "is_xdigit (to_upper c) = is_xdigit c"
proof -
  have "(of_char c - 32) mod 256 = of_char c - (32 :: nat)"
    by (rule mod_less) (use nat_of_char_less_256 [of c] in linarith)
  then show ?thesis by (auto simp: to_upper_def is_xdigit_def is_digit_def less_eq_char_def)
qed

lemma not_xdigit_special [char_facts, simp]:
  "\<not> is_xdigit NUL" "\<not> is_xdigit CHR ''%''" "\<not> is_xdigit CHR ''/''"
  "\<not> is_xdigit CHR ''?''" "\<not> is_xdigit CHR ''#''"
  by (simp_all add: is_xdigit_def is_digit_def)

section \<open>Reading C strings\<close>

lemma rd_in [simp]: "i < length s \<Longrightarrow> rd s i = s ! i"
  by (simp add: rd_def)

lemma rd_beyond [simp]: "length s \<le> i \<Longrightarrow> rd s i = NUL"
  by (simp add: rd_def)

lemma rd_not_NUL: "rd s i \<noteq> NUL \<Longrightarrow> i < length s"
  by (simp add: rd_def split: if_splits)

lemma cstr_Nil [simp]: "cstr [] = []"
  by (simp add: cstr_def)

lemma cstr_Cons: "cstr (c # s) = (if c = NUL then [] else c # cstr s)"
  by (simp add: cstr_def)

lemma NUL_notin_cstr [simp]: "NUL \<notin> set (cstr s)"
  by (auto simp: cstr_def dest: set_takeWhileD)

lemma cstr_id [simp]: "NUL \<notin> set s \<Longrightarrow> cstr s = s"
  by (auto simp: cstr_def takeWhile_eq_all_conv)

lemma cstr_idem [simp]: "cstr (cstr s) = cstr s"
  by simp

lemma cstr_append_NUL: "NUL \<notin> set s \<Longrightarrow> cstr (s @ NUL # t) = s"
  by (induction s) (auto simp: cstr_Cons)

lemma cstr_append_last: "cstr (s @ [NUL]) = cstr s"
  by (induction s) (auto simp: cstr_Cons)

lemma length_cstr_le: "length (cstr s) \<le> length s"
  by (simp add: cstr_def length_takeWhile_le)

lemma cstr_drop_NUL [cstr_simps]: "rd s i = NUL \<Longrightarrow> cstr (drop i s) = []"
  by (cases "i < length s") (auto simp: Cons_nth_drop_Suc [symmetric] cstr_Cons)

lemma cstr_drop_Cons [cstr_simps]:
  "rd s i \<noteq> NUL \<Longrightarrow> cstr (drop i s) = rd s i # cstr (drop (Suc i) s)"
  by (frule rd_not_NUL) (simp add: Cons_nth_drop_Suc [symmetric] cstr_Cons)

lemma cstr_drop_eq_Nil: "cstr (drop i s) = [] \<longleftrightarrow> rd s i = NUL"
  using cstr_drop_Cons cstr_drop_NUL by fastforce

lemma cstr_drop_eq_Cons:
  "cstr (drop i s) = c # cs \<longleftrightarrow> c \<noteq> NUL \<and> rd s i = c \<and> cs = cstr (drop (Suc i) s)"
  by (cases "rd s i = NUL") (auto simp: cstr_simps)

lemma strncmp_eq_prefix:
  "NUL \<notin> set lit \<Longrightarrow> strncmp_eq s i lit \<longleftrightarrow> prefix lit (cstr (drop i s))"
proof (induction lit arbitrary: i)
  case (Cons x xs)
  then show ?case
    by (cases "rd s i = NUL") (auto simp: cstr_simps)
qed simp

lemma drop_cstr_drop:
  "k \<le> length (cstr (drop i s)) \<Longrightarrow> drop k (cstr (drop i s)) = cstr (drop (i + k) s)"
proof (induction k arbitrary: i)
  case (Suc k)
  then show ?case
    by (cases "rd s i = NUL") (auto simp: cstr_simps dest: Suc.IH [of "Suc i"])
qed simp

lemma rd_Cons_Suc [simp]: "rd (x # xs) (Suc k) = rd xs k"
  by (simp add: rd_def)

lemma rd_Cons_0 [simp]: "rd (x # xs) 0 = x"
  by (simp add: rd_def)

lemma rd_cstr_drop: "k \<le> length (cstr (drop i s)) \<Longrightarrow> rd (cstr (drop i s)) k = rd s (i + k)"
proof (induction k arbitrary: i)
  case 0
  then show ?case by (cases "rd s i = NUL") (auto simp: cstr_simps)
next
  case (Suc k)
  then have "rd s i \<noteq> NUL" by (auto simp: cstr_simps)
  then have "cstr (drop i s) = rd s i # cstr (drop (Suc i) s)" by (rule cstr_drop_Cons)
  moreover from this have "k \<le> length (cstr (drop (Suc i) s))" using Suc.prems by simp
  ultimately show ?case using Suc.IH [of "Suc i"] by (simp only: rd_Cons_Suc add_Suc add_Suc_right)
qed

lemma length_cstr_drop: "i \<le> length s \<Longrightarrow> i + length (cstr (drop i s)) \<le> length s"
  using length_cstr_le [of "drop i s"] by simp

lemma scan_cstr: "scan stop (cstr s) = scan stop s"
  unfolding scan_def cstr_def by (induction s) auto

lemma scan_le: "scan stop s \<le> length s"
  by (simp add: scan_def length_takeWhile_le)

lemma take_scan: "take (scan stop s) s = takeWhile (\<lambda>c. \<not> stop c \<and> c \<noteq> NUL) s"
  by (simp add: scan_def takeWhile_eq_take [symmetric])

lemma drop_scan: "drop (scan stop s) s = dropWhile (\<lambda>c. \<not> stop c \<and> c \<noteq> NUL) s"
  by (simp add: scan_def dropWhile_eq_drop)

section \<open>In-place writes\<close>

lemma take_write_Suc: "i < length xs \<Longrightarrow> take (Suc i) (xs[i := x]) = take i xs @ [x]"
  by (simp add: take_Suc_conv_app_nth)

lemma cstr_terminate:
  assumes "NUL \<notin> set (take n s)" and "n \<le> length s"
  shows "cstr (s[n := NUL]) = take n s"
proof (cases "n < length s")
  case True
  then show ?thesis
    using assms by (simp add: upd_conv_take_nth_drop cstr_append_NUL)
next
  case False
  then show ?thesis
    using assms by (simp add: list_update_beyond)
qed

end
