(* ===== verification/Utf8.thy ===== *)
theory Utf8
  imports Prelude
begin

text \<open>
  \<open>url_utf8_validate\<close> of src/url.cpp: the byte-level loop with its 32-bit accumulator, and
  the proof that it accepts exactly the strings that are concatenations of shortest-form
  UTF-8 encodings of Unicode scalar values.
\<close>

section \<open>The validator\<close>

text \<open>
  The inner loop over \<open>nb\<close> continuation bytes; \<open>None\<close> is \<open>return -1\<close>.  The byte tested is
  \<open>s[0]\<close> before \<open>s++\<close>, the byte folded into \<open>v\<close> is \<open>s[0]\<close> after it.
\<close>

fun url_utf8_cont :: "nat \<Rightarrow> u32 \<Rightarrow> string \<Rightarrow> (u32 \<times> string) option" where
  "url_utf8_cont 0 v s = Some (v, s)"
| "url_utf8_cont (Suc nb) v [] = None"
| "url_utf8_cont (Suc nb) v (c # s) =
     (if of_char c AND 0xc0 \<noteq> (0x80 :: u32) then None
      else url_utf8_cont nb (push_bit 6 v + (of_char (rd s 0) AND 0x3f)) s)"

lemma url_utf8_cont_length: "url_utf8_cont nb v s = Some (w, t) \<Longrightarrow> length t \<le> length s"
  by (induction nb v s rule: url_utf8_cont.induct) (force split: if_splits)+

text \<open>The lead byte: start value, smallest code point of that length, continuation bytes.\<close>

definition url_utf8_lead :: "u32 \<Rightarrow> (u32 \<times> u32 \<times> nat) option" where
  "url_utf8_lead b =
     (if b AND 0xe0 = 0xc0 then Some (b AND 0x1f, 0x80, 1)
      else if b AND 0xf0 = 0xe0 then Some (b AND 0xf, 0x800, 2)
      else if b AND 0xf8 = 0xf0 then Some (b AND 0x7, 0x10000, 3)
      else None)"

function url_utf8_validate :: "string \<Rightarrow> int" where
  "url_utf8_validate [] = 0"
| "url_utf8_validate (c # s) =
     (if c = NUL then 0
      else if of_char c AND (0x80 :: u32) = 0 then url_utf8_validate s
      else case url_utf8_lead (of_char c) of
        None \<Rightarrow> -1
      | Some (v, minv, nb) \<Rightarrow>
          (case url_utf8_cont nb v s of
             None \<Rightarrow> -1
           | Some (w, t) \<Rightarrow>
               if w < minv then -1
               else if 0xd800 \<le> w \<and> w \<le> 0xdfff then -1
               else if 0x10ffff < w then -1
               else url_utf8_validate t))"
  by pat_completeness auto
termination
  by (relation "measure length") (auto dest: url_utf8_cont_length)

section \<open>The specification: encodings of scalar values\<close>

definition scalar :: "nat \<Rightarrow> bool" where
  "scalar p \<longleftrightarrow> p \<le> 0x10FFFF \<and> \<not> (0xD800 \<le> p \<and> p \<le> 0xDFFF)"

definition utf8_encode :: "nat \<Rightarrow> string" where
  "utf8_encode p =
     (if p < 0x80 then [char_of p]
      else if p < 0x800 then [char_of (0xC0 + p div 64), char_of (0x80 + p mod 64)]
      else if p < 0x10000 then
        [char_of (0xE0 + p div 4096), char_of (0x80 + p div 64 mod 64), char_of (0x80 + p mod 64)]
      else
        [char_of (0xF0 + p div 262144), char_of (0x80 + p div 4096 mod 64),
         char_of (0x80 + p div 64 mod 64), char_of (0x80 + p mod 64)])"

section \<open>Bit tests as ranges of byte values\<close>

abbreviation cc :: "char \<Rightarrow> nat" where "cc c \<equiv> of_char c"

lemma byte_ascii: "(of_char c :: u32) AND 0x80 = 0 \<longleftrightarrow> cc c < 128"
  by (cases c; simp)

lemma byte_cont: "(of_char c :: u32) AND 0xc0 = 0x80 \<longleftrightarrow> 128 \<le> cc c \<and> cc c < 192"
  by (cases c; simp)

lemma byte_lead_tests:
  "(of_char c :: u32) AND 0xe0 = 0xc0 \<longleftrightarrow> 192 \<le> cc c \<and> cc c < 224"
  "(of_char c :: u32) AND 0xf0 = 0xe0 \<longleftrightarrow> 224 \<le> cc c \<and> cc c < 240"
  "(of_char c :: u32) AND 0xf8 = 0xf0 \<longleftrightarrow> 240 \<le> cc c \<and> cc c < 248"
  by (cases c; simp)+

lemma unat_of_char: "unat (of_char c :: u32) = cc c"
proof -
  have "cc c mod 2 ^ 32 = cc c" by (rule mod_less, rule less_trans [OF nat_of_char_less_256]) simp
  then have "unat (of_nat (cc c) :: u32) = cc c" by (simp add: unat_of_nat)
  then show ?thesis by (simp only: of_nat_of_char)
qed

lemma unat_and_mask: "unat (x AND mask n :: u32) = unat x mod 2 ^ n"
  by (simp only: take_bit_eq_mask [symmetric] unsigned_take_bit_eq) (simp add: take_bit_eq_mod)

lemma byte_low_bits:
  "unat ((of_char c :: u32) AND 0x3f) = cc c mod 64"
  "unat ((of_char c :: u32) AND 0x1f) = cc c mod 32"
  "unat ((of_char c :: u32) AND 0xf) = cc c mod 16"
  "unat ((of_char c :: u32) AND 0x7) = cc c mod 8"
  using unat_and_mask [of "of_char c" 6] unat_and_mask [of "of_char c" 5]
    unat_and_mask [of "of_char c" 4] unat_and_mask [of "of_char c" 3]
  by (simp_all add: unat_of_char mask_eq_exp_minus_1)

definition cont_byte :: "char \<Rightarrow> bool" where
  "cont_byte c \<longleftrightarrow> 128 \<le> cc c \<and> cc c < 192"

lemma byte_cont_byte: "(of_char c :: u32) AND 0xc0 = 0x80 \<longleftrightarrow> cont_byte c"
  by (simp add: byte_cont cont_byte_def)

lemma cont_byte_mod: "cont_byte c \<Longrightarrow> cc c mod 64 = cc c - 128"
proof -
  have "n mod 64 = n - 128" if "128 \<le> n" "n < 192" for n :: nat
    using that by (auto simp: mod_nat_eqI dest!: le_Suc_ex)
  then show "cont_byte c \<Longrightarrow> cc c mod 64 = cc c - 128" by (simp add: cont_byte_def)
qed

section \<open>The accumulator does not overflow\<close>

text \<open>The inner loop on natural numbers.\<close>

fun cont_next :: "nat \<Rightarrow> nat \<Rightarrow> string \<Rightarrow> (nat \<times> string) option" where
  "cont_next 0 v s = Some (v, s)"
| "cont_next (Suc nb) v [] = None"
| "cont_next (Suc nb) v (c # s) =
     (if cont_byte c then cont_next nb (64 * v + cc (rd s 0) mod 64) s else None)"

lemma unat_shift_add:
  assumes "(unat v + 1) * 64 \<le> 2 ^ 32"
  shows "unat (push_bit 6 v + (of_char c AND 0x3f) :: u32) = 64 * unat v + cc c mod 64"
proof -
  have shift: "unat (push_bit 6 v :: u32) = 64 * unat v"
    using assms by (simp add: push_bit_eq_mult unat_word_ariths)
  have "64 * u + m < N" if "m < 64" "(u + 1) * 64 \<le> N" for m u N :: nat
    using that by simp
  then have "unat (push_bit 6 v :: u32) + unat ((of_char c :: u32) AND 0x3f) < 2 ^ 32"
    using assms mod_less_divisor [of 64 "cc c"] by (simp only: shift byte_low_bits)
  then show ?thesis
    by (simp add: unat_word_ariths shift byte_low_bits)
qed

lemma url_utf8_cont_value:
  "(unat v + 1) * 64 ^ nb \<le> 2 ^ 32 \<Longrightarrow>
     map_option (\<lambda>(w, t). (unat w, t)) (url_utf8_cont nb v s) = cont_next nb (unat v) s"
proof (induction nb v s rule: url_utf8_cont.induct)
  case (3 nb v c s)
  have total: "(unat v + 1) * 64 * 64 ^ nb \<le> 2 ^ 32"
    using "3.prems" by (simp add: algebra_simps)
  moreover have "(unat v + 1) * 64 \<le> (unat v + 1) * 64 * 64 ^ nb" by simp
  ultimately have step: "(unat v + 1) * 64 \<le> 2 ^ 32" by linarith
  let ?v = "push_bit 6 v + (of_char (rd s 0) AND 0x3f) :: u32"
  have val: "unat ?v = 64 * unat v + cc (rd s 0) mod 64" by (rule unat_shift_add [OF step])
  have "64 * u + m + 1 \<le> (u + 1) * 64" if "m < 64" for m u :: nat
    using that by simp
  then have "unat ?v + 1 \<le> (unat v + 1) * 64"
    unfolding val using mod_less_divisor [of 64 "cc (rd s 0)"] by simp
  then have "(unat ?v + 1) * 64 ^ nb \<le> 2 ^ 32"
    using total mult_le_mono1 le_trans by blast
  then show ?case
    using "3.IH" val by (simp add: byte_cont_byte)
qed simp_all

section \<open>The rows of the encoding table\<close>

text \<open>
  The restrictions on a sequence of three or four bytes with lead \<open>c\<close>, as conditions on one of
  the other bytes.  RFC 3629 states them of the second byte.
\<close>

definition row3 :: "char \<Rightarrow> char \<Rightarrow> bool" where
  "row3 c b \<longleftrightarrow> (cc c = 224 \<longrightarrow> 160 \<le> cc b) \<and> (cc c = 237 \<longrightarrow> cc b < 160)"

definition row4 :: "char \<Rightarrow> char \<Rightarrow> bool" where
  "row4 c b \<longleftrightarrow> (cc c = 240 \<longrightarrow> 144 \<le> cc b) \<and> (cc c = 244 \<longrightarrow> cc b < 144)"

text \<open>
  Strings made of table rows.  With \<open>second\<close> the restrictions are on the second byte of a sequence,
  as in the standard, otherwise on the third, as in the code.
\<close>

fun utf8_rows :: "bool \<Rightarrow> string \<Rightarrow> bool" where
  "utf8_rows second [] = True"
| "utf8_rows second (c # s) =
     (if cc c < 128 then utf8_rows second s
      else if 194 \<le> cc c \<and> cc c < 224 then
        (case s of b # t \<Rightarrow> cont_byte b \<and> utf8_rows second t | _ \<Rightarrow> False)
      else if 224 \<le> cc c \<and> cc c < 240 then
        (case s of
           b1 # b2 # t \<Rightarrow> cont_byte b1 \<and> cont_byte b2 \<and> row3 c (if second then b1 else b2)
             \<and> utf8_rows second t
         | _ \<Rightarrow> False)
      else if 240 \<le> cc c \<and> cc c < 245 then
        (case s of
           b1 # b2 # b3 # t \<Rightarrow> cont_byte b1 \<and> cont_byte b2 \<and> cont_byte b3
             \<and> row4 c (if second then b1 else b2) \<and> utf8_rows second t
         | _ \<Rightarrow> False)
      else False)"

section \<open>One step of the validator on natural numbers\<close>

definition lead_value :: "char \<Rightarrow> (nat \<times> nat \<times> nat) option" where
  "lead_value c =
     (if 192 \<le> cc c \<and> cc c < 224 then Some (cc c - 192, 0x80, 1)
      else if 224 \<le> cc c \<and> cc c < 240 then Some (cc c - 224, 0x800, 2)
      else if 240 \<le> cc c \<and> cc c < 248 then Some (cc c - 240, 0x10000, 3)
      else None)"

lemma lead_value_word:
  "map_option (\<lambda>(v, m, n). (unat v, unat m, n)) (url_utf8_lead (of_char c)) = lead_value c"
proof -
  have "cc c mod 32 = cc c - 192" if "192 \<le> cc c" "cc c < 224"
    using that by (simp add: mod_nat_eqI)
  moreover have "cc c mod 16 = cc c - 224" if "224 \<le> cc c" "cc c < 240"
    using that by (simp add: mod_nat_eqI)
  moreover have "cc c mod 8 = cc c - 240" if "240 \<le> cc c" "cc c < 248"
    using that by (simp add: mod_nat_eqI)
  ultimately show ?thesis
    by (auto simp: url_utf8_lead_def lead_value_def byte_lead_tests byte_low_bits)
qed

lemma lead_value_bound: "lead_value c = Some (v, m, nb) \<Longrightarrow> (v + 1) * 64 ^ nb \<le> 2 ^ 32"
  by (auto simp: lead_value_def split: if_splits)

text \<open>A sequence as the code reads it: lead, continuation bytes, range tests.\<close>

definition seq_next :: "char \<Rightarrow> string \<Rightarrow> string option" where
  "seq_next c s =
     (case lead_value c of None \<Rightarrow> None
      | Some (v, m, nb) \<Rightarrow>
          (case cont_next nb v s of None \<Rightarrow> None
           | Some (w, t) \<Rightarrow> if m \<le> w \<and> scalar w then Some t else None))"

lemma url_utf8_validate_Cons:
  assumes "c \<noteq> NUL"
  shows "url_utf8_validate (c # s) =
     (if cc c < 128 then url_utf8_validate s
      else case seq_next c s of None \<Rightarrow> -1 | Some t \<Rightarrow> url_utf8_validate t)"
proof (cases "cc c < 128")
  case True
  then show ?thesis using assms by (simp add: byte_ascii)
next
  case multi: False
  show ?thesis
  proof (cases "url_utf8_lead (of_char c)")
    case None
    then show ?thesis
      using assms multi lead_value_word [of c] by (auto simp: byte_ascii seq_next_def)
  next
    case (Some l)
    obtain v m nb where l: "l = (v, m, nb)" by (cases l)
    have lead: "lead_value c = Some (unat v, unat m, nb)"
      using lead_value_word [of c] Some l by simp
    have cont: "map_option (\<lambda>(w, t). (unat w, t)) (url_utf8_cont nb v s) = cont_next nb (unat v) s"
      by (rule url_utf8_cont_value) (rule lead_value_bound [OF lead])
    have range: "w < m \<longleftrightarrow> unat w < unat m"
      "(0xd800 \<le> w \<and> w \<le> 0xdfff) \<longleftrightarrow> 0xd800 \<le> unat w \<and> unat w \<le> 0xdfff"
      "0x10ffff < w \<longleftrightarrow> 0x10ffff < unat w" for w :: u32
      by (simp_all add: word_less_nat_alt word_le_nat_alt)
    show ?thesis
      using assms multi Some l lead cont
      by (auto simp: byte_ascii scalar_def seq_next_def range not_less split: option.splits)
  qed
qed

text \<open>
  The range tests see a value whose low bits come from the byte after the sequence, and in which
  the second byte is missing; they do not depend on that following byte.
\<close>

lemma cont_byte_sub: "cont_byte c \<Longrightarrow> cc c - 128 < 64"
  by (auto simp: cont_byte_def)

definition fold2 :: "nat \<Rightarrow> nat \<Rightarrow> nat" where
  "fold2 a z = 64 * (a - 192) + z"

lemma fold2_ok: "192 \<le> a \<Longrightarrow> a < 224 \<Longrightarrow> z < 64 \<Longrightarrow> 128 \<le> fold2 a z \<and> scalar (fold2 a z) \<longleftrightarrow> 194 \<le> a"
  by (auto simp: fold2_def scalar_def)

definition fold3 :: "nat \<Rightarrow> nat \<Rightarrow> nat \<Rightarrow> nat" where
  "fold3 a b z = 64 * (64 * (a - 224) + (b - 128)) + z"

definition fold4 :: "nat \<Rightarrow> nat \<Rightarrow> nat \<Rightarrow> nat \<Rightarrow> nat" where
  "fold4 a b d z = 64 * (64 * (64 * (a - 240) + (b - 128)) + (d - 128)) + z"

lemma fold3_ok:
  assumes "224 \<le> a" "a < 240" "128 \<le> b" "b < 192" "z < 64"
  shows "2048 \<le> fold3 a b z \<and> scalar (fold3 a b z) \<longleftrightarrow> (a = 224 \<longrightarrow> 160 \<le> b) \<and> (a = 237 \<longrightarrow> b < 160)"
proof -
  obtain x y where xy: "a = x + 224" "b = y + 128" using assms by (metis le_iff_add add.commute)
  consider "x = 0" | "1 \<le> x" "x \<le> 12" | "x = 13" | "14 \<le> x" by linarith
  then show ?thesis
    by cases (use assms in \<open>auto simp: xy fold3_def scalar_def\<close>)
qed

lemma fold4_ok:
  assumes "240 \<le> a" "a < 248" "128 \<le> b" "b < 192" "128 \<le> d" "d < 192" "z < 64"
  shows "65536 \<le> fold4 a b d z \<and> scalar (fold4 a b d z)
    \<longleftrightarrow> a < 245 \<and> (a = 240 \<longrightarrow> 144 \<le> b) \<and> (a = 244 \<longrightarrow> b < 144)"
proof -
  obtain x y v where xy: "a = x + 240" "b = y + 128" "d = v + 128"
    using assms by (metis le_iff_add add.commute)
  consider "x = 0" | "1 \<le> x" "x \<le> 3" | "x = 4" | "5 \<le> x" by linarith
  then show ?thesis
    by cases (use assms in \<open>auto simp: xy fold4_def scalar_def\<close>)
qed

lemma cont_next_1:
  "cont_next 1 (cc c - 192) s =
     (case s of b # t \<Rightarrow> if cont_byte b then Some (fold2 (cc c) (cc (rd t 0) mod 64), t) else None
      | _ \<Rightarrow> None)"
  by (simp add: fold2_def split: list.split)

lemma cont_next_2:
  "cont_next 2 (cc c - 224) s =
     (case s of
        b1 # b2 # t \<Rightarrow> if cont_byte b1 \<and> cont_byte b2
          then Some (fold3 (cc c) (cc b2) (cc (rd t 0) mod 64), t) else None
      | _ \<Rightarrow> None)"
  by (auto simp: fold3_def numeral_2_eq_2 cont_byte_mod split: list.split)

lemma cont_next_3:
  "cont_next 3 (cc c - 240) s =
     (case s of
        b1 # b2 # b3 # t \<Rightarrow> if cont_byte b1 \<and> cont_byte b2 \<and> cont_byte b3
          then Some (fold4 (cc c) (cc b2) (cc b3) (cc (rd t 0) mod 64), t) else None
      | _ \<Rightarrow> None)"
  by (auto simp: fold4_def numeral_3_eq_3 cont_byte_mod split: list.split)

lemma seq_next_two:
  assumes "192 \<le> cc c" "cc c < 224"
  shows "seq_next c s =
     (case s of b # t \<Rightarrow> if 194 \<le> cc c \<and> cont_byte b then Some t else None | _ \<Rightarrow> None)"
proof -
  have "128 \<le> fold2 (cc c) z \<and> scalar (fold2 (cc c) z) \<longleftrightarrow> 194 \<le> cc c" if "z < 64" for z
    by (rule fold2_ok [OF assms that])
  with assms show ?thesis
    by (auto simp: seq_next_def lead_value_def cont_next_1 cont_byte_sub simp del: cont_next.simps One_nat_def
        split: list.split)
qed

lemma seq_next_three:
  assumes "224 \<le> cc c" "cc c < 240"
  shows "seq_next c s =
     (case s of
        b1 # b2 # t \<Rightarrow> if cont_byte b1 \<and> cont_byte b2 \<and> row3 c b2 then Some t else None
      | _ \<Rightarrow> None)"
proof -
  have "2048 \<le> fold3 (cc c) (cc b) z \<and> scalar (fold3 (cc c) (cc b) z) \<longleftrightarrow> row3 c b"
    if "cont_byte b" "z < 64" for b z
    using fold3_ok [of "cc c" "cc b" z] assms that by (simp only: cont_byte_def row3_def simp_thms)
  with assms show ?thesis
    by (simp add: seq_next_def lead_value_def cont_next_2 split: list.split)
qed

lemma seq_next_four:
  assumes "240 \<le> cc c" "cc c < 248"
  shows "seq_next c s =
     (case s of
        b1 # b2 # b3 # t \<Rightarrow>
          if cc c < 245 \<and> cont_byte b1 \<and> cont_byte b2 \<and> cont_byte b3 \<and> row4 c b2 then Some t else None
      | _ \<Rightarrow> None)"
proof -
  have "65536 \<le> fold4 (cc c) (cc b) (cc d) z \<and> scalar (fold4 (cc c) (cc b) (cc d) z)
      \<longleftrightarrow> cc c < 245 \<and> row4 c b"
    if "cont_byte b" "cont_byte d" "z < 64" for b d z
    using fold4_ok [of "cc c" "cc b" "cc d" z] assms that
    by (simp only: cont_byte_def row4_def simp_thms)
  with assms show ?thesis
    by (auto simp: seq_next_def lead_value_def cont_next_3 split: list.split)
qed

section \<open>What the validator accepts\<close>

lemma not_NUL: "128 \<le> cc c \<Longrightarrow> c \<noteq> NUL"
  by auto

lemma validate_rows: "NUL \<notin> set s \<Longrightarrow> url_utf8_validate s = (if utf8_rows False s then 0 else -1)"
proof (induction "length s" arbitrary: s rule: less_induct)
  case less
  have IH: "url_utf8_validate t = (if utf8_rows False t then 0 else -1)"
    if "length t < length s" "NUL \<notin> set t" for t
    using less.hyps that by blast
  show ?case
  proof (cases s)
    case (Cons c s')
    have c: "c \<noteq> NUL" "NUL \<notin> set s'" using less.prems Cons by auto
    note step = url_utf8_validate_Cons [OF c(1), of s']
    consider "cc c < 128" | "128 \<le> cc c" "cc c < 192" | "192 \<le> cc c" "cc c < 224"
      | "224 \<le> cc c" "cc c < 240" | "240 \<le> cc c" "cc c < 248" | "248 \<le> cc c"
      by linarith
    then show ?thesis
    proof cases
      case 1
      then show ?thesis using step c IH [of s'] Cons by simp
    next
      case 2
      then show ?thesis using step Cons by (simp add: seq_next_def lead_value_def)
    next
      case 3
      then show ?thesis
        using c Cons by (auto simp: step seq_next_two IH simp del: url_utf8_validate.simps split: list.split)
    next
      case 4
      then show ?thesis
        using c Cons by (auto simp: step seq_next_three IH simp del: url_utf8_validate.simps split: list.split)
    next
      case 5
      then show ?thesis
        using c Cons by (auto simp: step seq_next_four IH simp del: url_utf8_validate.simps split: list.split)
    next
      case 6
      then show ?thesis using step Cons by (simp add: seq_next_def lead_value_def)
    qed
  qed simp
qed

lemma utf8_rows_eq:
  "\<forall>c \<in> set s. cc c \<notin> {224, 237, 240, 244} \<Longrightarrow> utf8_rows second s = utf8_rows True s"
  by (induction second s rule: utf8_rows.induct) (auto simp: row3_def row4_def split: list.split)

section \<open>The standard's rows are the encodings of scalar values\<close>

fun cont_value :: "nat \<Rightarrow> nat \<Rightarrow> string \<Rightarrow> (nat \<times> string) option" where
  "cont_value 0 v s = Some (v, s)"
| "cont_value (Suc nb) v [] = None"
| "cont_value (Suc nb) v (c # s) =
     (if 128 \<le> cc c \<and> cc c < 192 then cont_value nb (64 * v + (cc c - 128)) s else None)"

lemma cont_value_2:
  "cont_value 2 (cc c - 224) s =
     (case s of
        b1 # b2 # t \<Rightarrow> if cont_byte b1 \<and> cont_byte b2
          then Some (fold3 (cc c) (cc b1) (cc b2 - 128), t) else None
      | _ \<Rightarrow> None)"
  by (auto simp: fold3_def numeral_2_eq_2 cont_byte_def split: list.split)

lemma cont_value_3:
  "cont_value 3 (cc c - 240) s =
     (case s of
        b1 # b2 # b3 # t \<Rightarrow> if cont_byte b1 \<and> cont_byte b2 \<and> cont_byte b3
          then Some (fold4 (cc c) (cc b1) (cc b2) (cc b3 - 128), t) else None
      | _ \<Rightarrow> None)"
  by (auto simp: fold4_def numeral_3_eq_3 cont_byte_def split: list.split)

lemma cont_value_1:
  "cont_value 1 (cc c - 192) s =
     (case s of b # t \<Rightarrow> if cont_byte b then Some (fold2 (cc c) (cc b - 128), t) else None | _ \<Rightarrow> None)"
  by (auto simp: fold2_def cont_byte_def split: list.split)

definition seq_value :: "char \<Rightarrow> string \<Rightarrow> (nat \<times> string) option" where
  "seq_value c s =
     (case lead_value c of None \<Rightarrow> None
      | Some (v, m, nb) \<Rightarrow>
          (case cont_value nb v s of None \<Rightarrow> None
           | Some (w, t) \<Rightarrow> if m \<le> w \<and> scalar w then Some (w, t) else None))"

lemma seq_value_iff:
  "(\<exists>w. seq_value c s = Some (w, t)) \<longleftrightarrow>
     (\<exists>v m nb w. lead_value c = Some (v, m, nb) \<and> cont_value nb v s = Some (w, t) \<and> m \<le> w \<and> scalar w)"
  by (auto simp: seq_value_def split: option.splits prod.splits if_splits)

lemma seq_value_two:
  assumes "192 \<le> cc c" "cc c < 224"
  shows "map_option snd (seq_value c s) =
     (case s of b # t \<Rightarrow> if 194 \<le> cc c \<and> cont_byte b then Some t else None | _ \<Rightarrow> None)"
proof -
  have "128 \<le> fold2 (cc c) z \<and> scalar (fold2 (cc c) z) \<longleftrightarrow> 194 \<le> cc c" if "z < 64" for z
    by (rule fold2_ok [OF assms that])
  with assms show ?thesis
    by (auto simp: seq_value_def lead_value_def cont_value_1 cont_byte_sub simp del: cont_value.simps One_nat_def
        split: list.split)
qed

lemma seq_value_three:
  assumes "224 \<le> cc c" "cc c < 240"
  shows "map_option snd (seq_value c s) =
     (case s of
        b1 # b2 # t \<Rightarrow> if cont_byte b1 \<and> cont_byte b2 \<and> row3 c b1 then Some t else None
      | _ \<Rightarrow> None)"
proof -
  have "2048 \<le> fold3 (cc c) (cc b) z \<and> scalar (fold3 (cc c) (cc b) z) \<longleftrightarrow> row3 c b"
    if "cont_byte b" "z < 64" for b z
    using fold3_ok [of "cc c" "cc b" z] assms that by (simp only: cont_byte_def row3_def simp_thms)
  with assms show ?thesis
    by (auto simp: seq_value_def lead_value_def cont_value_2 cont_byte_sub split: list.split)
qed

lemma seq_value_four:
  assumes "240 \<le> cc c" "cc c < 248"
  shows "map_option snd (seq_value c s) =
     (case s of
        b1 # b2 # b3 # t \<Rightarrow>
          if cc c < 245 \<and> cont_byte b1 \<and> cont_byte b2 \<and> cont_byte b3 \<and> row4 c b1 then Some t else None
      | _ \<Rightarrow> None)"
proof -
  have "65536 \<le> fold4 (cc c) (cc b) (cc d) z \<and> scalar (fold4 (cc c) (cc b) (cc d) z)
      \<longleftrightarrow> cc c < 245 \<and> row4 c b"
    if "cont_byte b" "cont_byte d" "z < 64" for b d z
    using fold4_ok [of "cc c" "cc b" "cc d" z] assms that
    by (simp only: cont_byte_def row4_def simp_thms)
  with assms show ?thesis
    by (auto simp: seq_value_def lead_value_def cont_value_3 cont_byte_sub split: list.split)
qed

lemma utf8_rows_seq:
  "utf8_rows True (c # s) \<longleftrightarrow>
     (if cc c < 128 then utf8_rows True s
      else \<exists>w t. seq_value c s = Some (w, t) \<and> utf8_rows True t)"
proof -
  have ex: "(\<exists>w t. seq_value c s = Some (w, t) \<and> P t) \<longleftrightarrow>
      (case map_option snd (seq_value c s) of None \<Rightarrow> False | Some t \<Rightarrow> P t)" for P
    by (auto split: option.split)
  consider "cc c < 128" | "128 \<le> cc c" "cc c < 192" | "192 \<le> cc c" "cc c < 224"
    | "224 \<le> cc c" "cc c < 240" | "240 \<le> cc c" "cc c < 248" | "248 \<le> cc c"
    by linarith
  then show ?thesis
  proof cases
    case 3 then show ?thesis unfolding ex by (simp add: seq_value_two split: list.split)
  next
    case 4 then show ?thesis unfolding ex by (auto simp: seq_value_three split: list.split)
  next
    case 5 then show ?thesis unfolding ex by (auto simp: seq_value_four split: list.split)
  qed (simp_all add: seq_value_def lead_value_def)
qed

lemma utf8_rows_Cons:
  "utf8_rows True (c # s) \<longleftrightarrow>
     (if cc c < 128 then utf8_rows True s
      else \<exists>v m nb w t. lead_value c = Some (v, m, nb) \<and> cont_value nb v s = Some (w, t)
             \<and> m \<le> w \<and> scalar w \<and> utf8_rows True t)"
  using seq_value_iff [of c s] unfolding utf8_rows_seq by metis

lemma cont_split:
  assumes "w = 64 * x + (cc b - 128)" "128 \<le> cc b" "cc b < 192"
  shows "w div 64 = x" "w mod 64 = cc b - 128"
proof -
  define y where "y = cc b - 128"
  then have "y < 64" using assms(2,3) by simp
  with y_def show "w div 64 = x" "w mod 64 = cc b - 128"
    using assms(1) by (simp_all only: y_def [symmetric]) simp_all
qed

lemma div_4096: "(w::nat) div 4096 = w div 64 div 64"
  and div_262144: "(w::nat) div 262144 = w div 64 div 64 div 64"
  by (simp_all add: div_mult2_eq [symmetric])

lemma encode_multibyte:
  assumes "lead_value c = Some (v, m, nb)" "cont_value nb v s = Some (w, t)" "m \<le> w" "scalar w"
  shows "c # s = utf8_encode w @ t"
proof -
  consider (two) "192 \<le> cc c" "cc c < 224" "v = cc c - 192" "m = 0x80" "nb = 1"
    | (three) "224 \<le> cc c" "cc c < 240" "v = cc c - 224" "m = 0x800" "nb = 2"
    | (four) "240 \<le> cc c" "cc c < 248" "v = cc c - 240" "m = 0x10000" "nb = 3"
    using assms(1) by (auto simp: lead_value_def split: if_splits)
  then show ?thesis
  proof cases
    case two
    then obtain b where s: "s = b # t" and b: "128 \<le> cc b" "cc b < 192"
      and w: "w = 64 * (cc c - 192) + (cc b - 128)"
      using assms(2) by (cases s) (auto split: if_splits)
    note q = cont_split [OF w b]
    then have "w < 0x800" using two by linarith
    then show ?thesis
      using two b s assms(3) q by (simp add: utf8_encode_def)
  next
    case three
    then obtain b1 b2 where s: "s = b1 # b2 # t"
      and b: "128 \<le> cc b1" "cc b1 < 192" "128 \<le> cc b2" "cc b2 < 192"
      and w: "w = 64 * (64 * (cc c - 224) + (cc b1 - 128)) + (cc b2 - 128)"
      using assms(2) by (cases s; cases "tl s") (auto simp: numeral_2_eq_2 split: if_splits)
    note q1 = cont_split [OF w b(3,4)]
    note q2 = cont_split [OF q1(1) b(1,2)]
    have "w < 0x10000" using q2 three by linarith
    then show ?thesis
      using three b s assms(3) q1(2) q2 by (simp add: utf8_encode_def div_4096)
  next
    case four
    then obtain b1 b2 b3 where s: "s = b1 # b2 # b3 # t"
      and b: "128 \<le> cc b1" "cc b1 < 192" "128 \<le> cc b2" "cc b2 < 192" "128 \<le> cc b3" "cc b3 < 192"
      and w: "w = 64 * (64 * (64 * (cc c - 240) + (cc b1 - 128)) + (cc b2 - 128)) + (cc b3 - 128)"
      using assms(2)
      by (cases s; cases "tl s"; cases "tl (tl s)") (auto simp: numeral_3_eq_3 split: if_splits)
    note q1 = cont_split [OF w b(5,6)]
    note q2 = cont_split [OF q1(1) b(3,4)]
    note q3 = cont_split [OF q2(1) b(1,2)]
    show ?thesis
      using four b s assms(3) q1(2) q2(2) q3
      by (simp add: utf8_encode_def div_4096 div_262144)
  qed
qed

lemma cc_cont: "cc (char_of (128 + n mod 64)) = 128 + n mod 64"
  by (simp add: mod_less)

lemma div_mod_64: "64 * (p div 64) + p mod 64 = (p::nat)"
  by simp

lemma encode_step:
  assumes "scalar p" "128 \<le> p"
  shows "\<exists>c s v m nb. utf8_encode p = c # s \<and> 128 \<le> cc c
     \<and> lead_value c = Some (v, m, nb) \<and> cont_value nb v (s @ t) = Some (p, t) \<and> m \<le> p"
proof -
  consider (two) "p < 0x800" | (three) "0x800 \<le> p" "p < 0x10000" | (four) "0x10000 \<le> p"
    by linarith
  then show ?thesis
  proof cases
    case two
    define a where "a = p div 64"
    have a: "a < 32" using two by (simp add: a_def)
    then have c: "cc (char_of (192 + a)) = 192 + a" by simp
    show ?thesis
      using two assms(2) a c cc_cont [of p] div_mod_64 [of p]
      by (simp add: utf8_encode_def lead_value_def a_def [symmetric])
  next
    case three
    define a b where "a = p div 4096" and "b = p div 64"
    have a: "a < 16" "64 * a + b mod 64 = b" using three by (simp_all add: a_def b_def div_4096)
    then have c: "cc (char_of (224 + a)) = 224 + a" by simp
    show ?thesis
      using three assms(2) a c cc_cont [of p] cc_cont [of b] div_mod_64 [of p]
      by (simp add: utf8_encode_def lead_value_def a_def [symmetric] b_def [symmetric] numeral_2_eq_2)
  next
    case four
    define a b d where "a = p div 262144" and "b = p div 4096" and "d = p div 64"
    have "p < 0x110000" using assms(1) by (simp add: scalar_def)
    then have a: "a < 8" "64 * a + b mod 64 = b" "64 * b + d mod 64 = d"
      by (simp_all add: a_def b_def d_def div_4096 div_262144)
    then have c: "cc (char_of (240 + a)) = 240 + a" by simp
    show ?thesis
      using four assms(2) a c cc_cont [of p] cc_cont [of b] cc_cont [of d] div_mod_64 [of p]
      by (simp add: utf8_encode_def lead_value_def a_def [symmetric] b_def [symmetric]
          d_def [symmetric] numeral_3_eq_3)
  qed
qed

lemma rows_encode:
  assumes "scalar p"
  shows "utf8_rows True (utf8_encode p @ t) \<longleftrightarrow> utf8_rows True t"
proof (cases "p < 128")
  case True
  then have "cc (char_of p) = p" by simp
  then show ?thesis
    using True by (simp add: utf8_encode_def)
next
  case False
  then obtain c s v m nb where "utf8_encode p = c # s" and "128 \<le> cc c"
    and "lead_value c = Some (v, m, nb)" "cont_value nb v (s @ t) = Some (p, t)" "m \<le> p"
    using encode_step [of p t] assms by auto
  then show ?thesis
    using utf8_rows_Cons [of c "s @ t"] assms by auto
qed

definition utf8_string :: "string \<Rightarrow> bool" where
  "utf8_string s \<longleftrightarrow> (\<exists>ps. (\<forall>p \<in> set ps. scalar p) \<and> s = concat (map utf8_encode ps))"

lemma utf8_string_Nil [simp]: "utf8_string []"
  unfolding utf8_string_def by (rule exI [of _ "[]"]) simp

lemma utf8_string_append: "scalar p \<Longrightarrow> utf8_string s \<Longrightarrow> utf8_string (utf8_encode p @ s)"
proof -
  assume p: "scalar p" and "utf8_string s"
  then obtain ps where "\<forall>p \<in> set ps. scalar p" "s = concat (map utf8_encode ps)"
    by (auto simp: utf8_string_def)
  with p show ?thesis
    unfolding utf8_string_def by (intro exI [of _ "p # ps"]) simp
qed

lemma rows_sound: "utf8_rows True s \<Longrightarrow> utf8_string s"
proof (induction "length s" arbitrary: s rule: less_induct)
  case less
  show ?case
  proof (cases s)
    case (Cons c s')
    show ?thesis
    proof (cases "cc c < 128")
      case True
      then have "scalar (cc c)" "utf8_encode (cc c) = [c]"
        by (simp_all add: scalar_def utf8_encode_def)
      moreover have "utf8_string s'"
        using less Cons True by auto
      ultimately show ?thesis
        using utf8_string_append [of "cc c" s'] Cons by simp
    next
      case False
      then obtain v m nb w t where step: "lead_value c = Some (v, m, nb)"
        "cont_value nb v s' = Some (w, t)" "m \<le> w" "scalar w" "utf8_rows True t"
        using less.prems Cons utf8_rows_Cons [of c s'] by auto
      have s: "s = utf8_encode w @ t" using encode_multibyte [OF step(1-4)] Cons by simp
      moreover have "utf8_encode w \<noteq> []" by (simp add: utf8_encode_def)
      ultimately have "utf8_string t"
        using less.hyps [of t] step(5) by auto
      then show ?thesis using s step(4) utf8_string_append by simp
    qed
  qed simp
qed

lemma rows_complete:
  "\<forall>p \<in> set ps. scalar p \<Longrightarrow> utf8_rows True (concat (map utf8_encode ps))"
  by (induction ps) (simp_all add: rows_encode)

lemma rows_utf8_string: "utf8_rows True s \<longleftrightarrow> utf8_string s"
  using rows_sound rows_complete by (auto simp: utf8_string_def)

section \<open>The validator against the standard\<close>

lemma url_utf8_cont_cstr:
  "url_utf8_cont nb v (cstr s) = map_option (\<lambda>(w, t). (w, cstr t)) (url_utf8_cont nb v s)"
proof (induction nb v s rule: url_utf8_cont.induct)
  case (3 nb v c s)
  then show ?case by (cases s) (auto simp: cstr_Cons)
qed auto

lemma url_utf8_validate_cstr: "url_utf8_validate (cstr s) = url_utf8_validate s"
proof (induction s rule: url_utf8_validate.induct)
  case (2 c s)
  then show ?case
    by (auto simp: cstr_Cons url_utf8_cont_cstr split: option.splits prod.splits)
qed simp

lemma url_utf8_validate_code: "url_utf8_validate s = 0 \<or> url_utf8_validate s = -1"
  by (induction s rule: url_utf8_validate.induct) (auto split: option.splits prod.splits)

text \<open>
  C11. What the validator accepts: the C string is made of ASCII bytes and of sequences of the right
  length for their lead byte, C0, C1 and F5 to FF never being a lead; the restrictions that rule
  out overlong forms, surrogates and values above 10FFFF are applied to the third byte of a
  sequence, because the loop folds in the byte after the one it has tested.
\<close>

theorem url_utf8_validate_rows:
  "url_utf8_validate s = (if utf8_rows False (cstr s) then 0 else -1)"
  using validate_rows [OF NUL_notin_cstr, of s] by (simp add: url_utf8_validate_cstr)

text \<open>
  Where none of the four lead bytes with a restricted second byte (E0, ED, F0, F4) occurs, the
  validator is right: it returns 0 exactly on the concatenations of shortest-form encodings of
  Unicode scalar values.
\<close>

lemma url_utf8_validate_iff:
  assumes "NUL \<notin> set s" "\<forall>c \<in> set s. of_char c \<notin> {0xE0, 0xED, 0xF0, 0xF4 :: nat}"
  shows "url_utf8_validate s = 0 \<longleftrightarrow>
    (\<exists>ps. (\<forall>p \<in> set ps. scalar p) \<and> s = concat (map utf8_encode ps))"
proof -
  have "utf8_rows False s = utf8_rows True s"
    using assms(2) by (intro utf8_rows_eq) simp
  then show ?thesis
    using validate_rows [OF assms(1)] rows_utf8_string [of s] by (simp add: utf8_string_def)
qed

lemma url_utf8_validate_iff_witness:
  "url_utf8_validate (utf8_encode 0x20AC @ ''a'') = 0"
proof -
  let ?s = "utf8_encode 0x20AC @ ''a''"
  have h: "NUL \<notin> set ?s" "\<forall>c \<in> set ?s. of_char c \<notin> {0xE0, 0xED, 0xF0, 0xF4 :: nat}"
    by (simp_all add: utf8_encode_def char_of_def)
  have "utf8_encode 0x61 = ''a''" by (simp add: utf8_encode_def char_of_eq_iff)
  then have "\<exists>ps. (\<forall>p \<in> set ps. scalar p) \<and> ?s = concat (map utf8_encode ps)"
    by (intro exI [of _ "[0x20AC, 0x61]"]) (simp add: scalar_def)
  then show ?thesis using url_utf8_validate_iff [OF h] by blast
qed

text \<open>
  With those leads it is not: the surrogate D800 is accepted, the scalar values 800 (the first of
  three bytes), D7FF and 10000 (the first of four bytes) are rejected.
\<close>

lemma url_utf8_validate_surrogate: "url_utf8_validate [CHR 0xED, CHR 0xA0, CHR 0x80] = 0"
  by code_simp

lemma utf8_encode_bounds:
  "utf8_encode 0x800 = [CHR 0xE0, CHR 0xA0, CHR 0x80]"
  "utf8_encode 0xD7FF = [CHR 0xED, CHR 0x9F, CHR 0xBF]"
  "utf8_encode 0x10000 = [CHR 0xF0, CHR 0x90, CHR 0x80, CHR 0x80]"
  by (simp_all add: utf8_encode_def char_of_eq_iff)

lemma url_utf8_validate_rejects:
  "url_utf8_validate (utf8_encode 0x800) = -1"
  "url_utf8_validate (utf8_encode 0xD7FF) = -1"
  "url_utf8_validate (utf8_encode 0x10000) = -1"
  by (simp_all only: utf8_encode_bounds) code_simp+

end
