(* ===== verification/Url_Canon.thy ===== *)
theory Url_Canon
  imports Utf8
begin

text \<open>
  The byte-level routines of src/url.cpp: \<open>url_hex_val\<close>, \<open>nni_url_decode\<close> and
  \<open>url_canonify_uri\<close>.  The canonifier rewrites one buffer in place in three passes; each pass
  is modelled with its two indices and its writes, and is proved equal to a list function.
\<close>

section \<open>Hexadecimal digits\<close>

definition url_hex_val :: "char \<Rightarrow> u8" where
  "url_hex_val c =
     (if CHR ''0'' \<le> c \<and> c \<le> CHR ''9'' then of_char c - of_char CHR ''0''
      else if CHR ''A'' \<le> c \<and> c \<le> CHR ''F'' then of_char c - of_char CHR ''A'' + 10
      else if CHR ''a'' \<le> c \<and> c \<le> CHR ''f'' then of_char c - of_char CHR ''a'' + 10
      else 0)"

section \<open>The canonifier's passes\<close>

text \<open>The characters for which \<open>%xx\<close> is replaced by the byte itself.\<close>

definition canon_safe :: "u8 \<Rightarrow> bool" where
  "canon_safe c \<longleftrightarrow> (of_char CHR ''A'' \<le> c \<and> c \<le> of_char CHR ''Z'')
     \<or> (of_char CHR ''a'' \<le> c \<and> c \<le> of_char CHR ''z'')
     \<or> (of_char CHR ''0'' \<le> c \<and> c \<le> of_char CHR ''9'')
     \<or> c = of_char CHR ''.'' \<or> c = of_char CHR ''~'' \<or> c = of_char CHR ''_''
     \<or> c = of_char CHR ''-'' \<or> 0x80 \<le> c"

text \<open>
  First pass: \<open>out\<close> is read at \<open>src\<close> and written at \<open>dst\<close>.  The Boolean is false where the
  code returns -1 on a malformed escape.
\<close>

function canon_decode :: "string \<Rightarrow> nat \<Rightarrow> nat \<Rightarrow> bool \<times> string \<times> nat" where
  "canon_decode out src dst =
     (if rd out src = NUL then (True, out, dst)
      else if rd out src = CHR ''%'' then
        (if \<not> is_xdigit (rd out (src + 1)) \<or> \<not> is_xdigit (rd out (src + 2)) then (False, out, dst)
         else let c = url_hex_val (rd out (src + 1)) * 16 + url_hex_val (rd out (src + 2))
              in if canon_safe c then canon_decode (out[dst := byte_char c]) (src + 3) (dst + 1)
                 else let out1 = out[dst := CHR ''%''];
                          out2 = out1[dst + 1 := to_upper (rd out1 (src + 1))];
                          out3 = out2[dst + 2 := to_upper (rd out2 (src + 2))]
                      in canon_decode out3 (src + 3) (dst + 3))
      else canon_decode (out[dst := rd out src]) (src + 1) (dst + 1))"
  by pat_completeness auto
termination
  by (relation "measure (\<lambda>(out, src, dst). length out - src)") (auto simp: rd_def split: if_splits)

text \<open>Second pass: runs of slashes before the query or fragment collapse to one.\<close>

function skip_slashes :: "string \<Rightarrow> nat \<Rightarrow> nat" where
  "skip_slashes out src = (if rd out src = CHR ''/'' then skip_slashes out (src + 1) else src)"
  by pat_completeness auto
termination
  by (relation "measure (\<lambda>(out, src). length out - src)") (auto simp: rd_def split: if_splits)

declare skip_slashes.simps [simp del]

lemma skip_slashes_ge: "src \<le> skip_slashes out src"
proof (induction out src rule: skip_slashes.induct)
  case (1 out src)
  then show ?case by (subst skip_slashes.simps) auto
qed

lemma skip_slashes_gt: "rd out src = CHR ''/'' \<Longrightarrow> src < skip_slashes out src"
  using skip_slashes_ge [of "src + 1" out] by (subst skip_slashes.simps) simp

lemma rd_write_same: "rd out src = c \<Longrightarrow> c \<noteq> NUL \<Longrightarrow> rd (out[dst := c]) src = c"
  by (cases "dst = src") (auto simp: rd_def split: if_splits)

function canon_squash :: "string \<Rightarrow> bool \<Rightarrow> nat \<Rightarrow> nat \<Rightarrow> string \<times> nat" where
  "canon_squash out skip src dst =
     (if rd out src = NUL then (out, dst)
      else if rd out src = CHR ''/'' \<and> \<not> skip then
        canon_squash (out[dst := CHR ''/'']) skip (skip_slashes (out[dst := CHR ''/'']) src) (dst + 1)
      else canon_squash (out[dst := rd out src])
             (skip \<or> rd out src = CHR ''?'' \<or> rd out src = CHR ''#'') (src + 1) (dst + 1))"
  by pat_completeness auto
termination
proof (relation "measure (\<lambda>(out, skip, src, dst). length out - src)", goal_cases)
  case (2 out skip src dst)
  then have "src < skip_slashes (out[dst := CHR ''/'']) src" "src < length out"
    by (auto intro!: skip_slashes_gt rd_write_same rd_not_NUL)
  then show ?case by simp
next
  case (3 out skip src dst)
  then show ?case by (auto dest: rd_not_NUL)
qed simp

text \<open>
  Third pass: \<open>/.\<close> is skipped and \<open>/..\<close> moves \<open>dst\<close> back to the previous slash; both only
  before the query or fragment.
\<close>

fun canon_pop :: "string \<Rightarrow> nat \<Rightarrow> nat" where
  "canon_pop out 0 = 0"
| "canon_pop out (Suc d) = (if d \<noteq> 0 \<and> rd out d \<noteq> CHR ''/'' then canon_pop out d else d)"

definition seg_end :: "char \<Rightarrow> bool" where
  "seg_end c \<longleftrightarrow> c = NUL \<or> c = CHR ''#'' \<or> c = CHR ''?'' \<or> c = CHR ''/''"

function canon_reduce :: "string \<Rightarrow> bool \<Rightarrow> nat \<Rightarrow> nat \<Rightarrow> string \<times> nat" where
  "canon_reduce out skip src dst =
     (if rd out src = NUL then (out, dst)
      else if rd out src = CHR ''/'' \<and> \<not> skip then
        (if strncmp_eq out src ''/..'' \<and> seg_end (rd out (src + 3))
         then canon_reduce out skip (src + 3) (canon_pop out dst)
         else if strncmp_eq out src ''/.'' \<and> seg_end (rd out (src + 2))
         then canon_reduce out skip (src + 2) dst
         else canon_reduce (out[dst := CHR ''/'']) skip (src + 1) (dst + 1))
      else canon_reduce (out[dst := rd out src])
             (skip \<or> rd out src = CHR ''?'' \<or> rd out src = CHR ''#'') (src + 1) (dst + 1))"
  by pat_completeness auto
termination
  by (relation "measure (\<lambda>(out, skip, src, dst). length out - src)")
    (auto simp: rd_def split: if_splits)

declare canon_decode.simps [simp del] canon_squash.simps [simp del] canon_reduce.simps [simp del]

text \<open>
  The whole function: return code and the contents of \<open>out\<close>.  \<open>out[dst] = 0\<close> at
  \<open>dst = out.size()\<close> rewrites the terminator, which \<open>list_update\<close> leaves alone.
\<close>

definition url_canonify_uri :: "string \<Rightarrow> int \<times> string" where
  "url_canonify_uri inp =
     (let out = cstr inp;
          (ok, out1, dst1) = canon_decode out 0 0
      in if \<not> ok then (-1, out1)
         else let (out2, dst2) = canon_squash (out1[dst1 := NUL]) False 0 0;
                  (out3, dst3) = canon_reduce (out2[dst2 := NUL]) False 0 0;
                  out4 = out3[dst3 := NUL];
                  rv = url_utf8_validate out4
              in if rv \<noteq> 0 then (rv, out4) else (0, cstr out4))"

section \<open>The passes as list functions\<close>

fun unescape :: "string \<Rightarrow> string option" where
  "unescape [] = Some []"
| "unescape (c # s) =
     (if c = CHR ''%'' then
        (case s of
           a # b # t \<Rightarrow>
             if is_xdigit a \<and> is_xdigit b then
               (let v = url_hex_val a * 16 + url_hex_val b
                in map_option ((@) (if canon_safe v then [byte_char v] else [c, to_upper a, to_upper b]))
                     (unescape t))
             else None
         | _ \<Rightarrow> None)
      else map_option ((#) c) (unescape s))"

lemma length_dropWhile_Suc [termination_simp]: "length (dropWhile P s) < Suc (length s)"
  by (simp add: length_dropWhile_le le_imp_less_Suc)

fun squash :: "bool \<Rightarrow> string \<Rightarrow> string" where
  "squash skip [] = []"
| "squash skip (c # s) =
     (if c = CHR ''/'' \<and> \<not> skip then c # squash skip (dropWhile (\<lambda>x. x = CHR ''/'') s)
      else c # squash (skip \<or> c = CHR ''?'' \<or> c = CHR ''#'') s)"

definition pop_seg :: "string \<Rightarrow> string" where
  "pop_seg acc = rev (tl (dropWhile (\<lambda>x. x \<noteq> CHR ''/'') (rev acc)))"

fun reduce :: "bool \<Rightarrow> string \<Rightarrow> string \<Rightarrow> string" where
  "reduce skip acc [] = acc"
| "reduce skip acc (c # s) =
     (if c = CHR ''/'' \<and> \<not> skip then
        (if prefix ''..'' s \<and> seg_end (rd s 2) then reduce skip (pop_seg acc) (drop 2 s)
         else if prefix ''.'' s \<and> seg_end (rd s 1) then reduce skip acc (drop 1 s)
         else reduce skip (acc @ [c]) s)
      else reduce (skip \<or> c = CHR ''?'' \<or> c = CHR ''#'') (acc @ [c]) s)"

definition canonify :: "string \<Rightarrow> string option" where
  "canonify s = map_option (\<lambda>r. reduce False [] (squash False r)) (unescape s)"

section \<open>The in-place passes compute the list functions\<close>

text \<open>
  Every pass keeps \<open>dst \<le> src\<close>, so a write never reaches the part still to be read.
\<close>

lemma view_write: "dst < n \<Longrightarrow> cstr (drop n (out[dst := x])) = cstr (drop n out)"
  by simp

lemma xdigit_view:
  "is_xdigit (rd out i) \<Longrightarrow> i < length out \<and> cstr (drop i out) = rd out i # cstr (drop (Suc i) out)"
  by (cases "rd out i = NUL") (auto simp: cstr_simps dest: rd_not_NUL)

lemma rd_write_other: "i \<noteq> j \<Longrightarrow> rd (out[i := x]) j = rd out j"
  by (simp add: rd_def)

lemma take_write3:
  assumes "d + 3 \<le> length xs"
  shows "take (d + 3) (xs[d := x, d + 1 := y, d + 2 := z]) = take d xs @ [x, y, z]"
proof -
  have "take (Suc (Suc (Suc d))) (xs[d := x, Suc d := y, Suc (Suc d) := z]) = take d xs @ [x, y, z]"
    using assms by (simp add: take_write_Suc)
  then show ?thesis by (simp add: numeral_3_eq_3)
qed

text \<open>The steps of the loop, each against \<open>unescape\<close>: an ordinary byte, an escape and a broken escape.\<close>

lemma canon_decode_plain:
  assumes "rd out src \<noteq> NUL" "rd out src \<noteq> CHR ''%''"
  shows "canon_decode out src dst = canon_decode (out[dst := rd out src]) (src + 1) (dst + 1)"
    "unescape (cstr (drop src out)) = map_option ((#) (rd out src)) (unescape (cstr (drop (src + 1) out)))"
  using assms cstr_drop_Cons [OF assms(1)] by (simp_all add: canon_decode.simps [of out src dst])

lemma unescape_bad:
  assumes "rd out src = CHR ''%''" "\<not> (is_xdigit (rd out (src + 1)) \<and> is_xdigit (rd out (src + 2)))"
  shows "unescape (cstr (drop src out)) = None"
proof -
  have "cstr (drop src out) = CHR ''%'' # cstr (drop (src + 1) out)"
    using cstr_drop_Cons [of out src] assms(1) by simp
  then show ?thesis
    using assms(2) cstr_drop_eq_Cons [of "src + 1" out] cstr_drop_eq_Cons [of "src + 2" out]
    by (auto split: list.split)
qed

lemma unescape_hex:
  assumes "rd out src = CHR ''%''" "is_xdigit (rd out (src + 1)) \<and> is_xdigit (rd out (src + 2))"
  defines "v \<equiv> url_hex_val (rd out (src + 1)) * 16 + url_hex_val (rd out (src + 2))"
  shows "src + 3 \<le> length out"
    "unescape (cstr (drop src out)) =
       map_option ((@) (if canon_safe v then [byte_char v] else [CHR ''%'', to_upper (rd out (src + 1)), to_upper (rd out (src + 2))]))
         (unescape (cstr (drop (src + 3) out)))"
proof -
  have "cstr (drop src out) = CHR ''%'' # cstr (drop (src + 1) out)"
    using cstr_drop_Cons [of out src] assms(1) by simp
  then have view: "src + 3 \<le> length out"
    "cstr (drop src out) = CHR ''%'' # rd out (src + 1) # rd out (src + 2) # cstr (drop (src + 3) out)"
    using xdigit_view [of out "src + 1"] xdigit_view [of out "src + 2"] assms(2)
    by (simp_all add: numeral_2_eq_2 numeral_3_eq_3)
  then show "src + 3 \<le> length out" by simp
  show "unescape (cstr (drop src out)) =
       map_option ((@) (if canon_safe v then [byte_char v] else [CHR ''%'', to_upper (rd out (src + 1)), to_upper (rd out (src + 2))]))
         (unescape (cstr (drop (src + 3) out)))"
    unfolding view(2) using assms(2) by (simp add: v_def Let_def)
qed

lemma canon_decode_view:
  "dst \<le> src \<Longrightarrow> src \<le> length out \<Longrightarrow> canon_decode out src dst = (ok, out', dst') \<Longrightarrow>
   length out' = length out \<and>
   (case unescape (cstr (drop src out)) of
      None \<Rightarrow> \<not> ok
    | Some r \<Rightarrow> ok \<and> dst' = dst + length r \<and> dst' \<le> length out \<and> take dst' out' = take dst out @ r)"
proof (induction out src dst arbitrary: ok out' dst' rule: canon_decode.induct)
  case (1 out src dst)
  let ?a = "rd out (src + 1)" and ?b = "rd out (src + 2)"
  let ?v = "url_hex_val ?a * 16 + url_hex_val ?b"
  note step = canon_decode.simps [of out src dst]
  consider (stop) "rd out src = NUL" | (plain) "rd out src \<noteq> NUL" "rd out src \<noteq> CHR ''%''"
    | (bad) "rd out src = CHR ''%''" "\<not> (is_xdigit ?a \<and> is_xdigit ?b)"
    | (safe) "rd out src = CHR ''%''" "is_xdigit ?a \<and> is_xdigit ?b" "canon_safe ?v"
    | (unsafe) "rd out src = CHR ''%''" "is_xdigit ?a \<and> is_xdigit ?b" "\<not> canon_safe ?v" by blast
  then show ?case
  proof cases
    case stop
    then show ?thesis using "1.prems" by (simp add: step cstr_simps)
  next
    case plain
    have len: "src < length out" using plain(1) by (rule rd_not_NUL)
    note IH = "1.IH"(3) [OF plain _ _ "1.prems"(3) [unfolded canon_decode_plain(1) [OF plain]]]
    show ?thesis
      using IH len "1.prems"(1) by (auto simp: canon_decode_plain(2) [OF plain] take_write_Suc split: option.splits)
  next
    case bad
    then show ?thesis using "1.prems" by (auto simp: unescape_bad step)
  next
    case safe
    have len: "src < length out" using safe(1) by (intro rd_not_NUL) simp
    have nul: "rd out src \<noteq> NUL" and nt: "\<not> (\<not> is_xdigit ?a \<or> \<not> is_xdigit ?b)" using safe(1,2) by simp_all
    have "canon_decode (out[dst := byte_char ?v]) (src + 3) (dst + 1) = (ok, out', dst')"
      using "1.prems"(3) safe by (simp add: step Let_def)
    note IH = "1.IH"(1) [OF nul safe(1) nt refl safe(3) _ _ this]
    show ?thesis
      using IH len unescape_hex [OF safe(1,2)] "1.prems"(1) safe(3) by (auto simp: take_write_Suc split: option.splits)
  next
    case unsafe
    let ?out3 = "out[dst := CHR ''%'', dst + 1 := to_upper ?a, dst + 2 := to_upper ?b]"
    have nul: "rd out src \<noteq> NUL" and nt: "\<not> (\<not> is_xdigit ?a \<or> \<not> is_xdigit ?b)" using unsafe(1,2) by simp_all
    have rds: "rd (out[dst := CHR ''%'']) (src + 1) = ?a" "rd (out[dst := CHR ''%'', dst + 1 := to_upper ?a]) (src + 2) = ?b"
      using "1.prems"(1) by (simp_all add: rd_write_other)
    have run: "canon_decode ?out3 (src + 3) (dst + 3) = (ok, out', dst')"
      using "1.prems"(3) unsafe by (simp add: step Let_def rds [simplified])
    have "take (dst + 3) ?out3 = take dst out @ [CHR ''%'', to_upper ?a, to_upper ?b]"
      by (rule take_write3) (use unescape_hex(1) [OF unsafe(1,2)] "1.prems"(1) in simp)
    moreover have "drop (src + 3) ?out3 = drop (src + 3) out" using "1.prems"(1) by simp
    moreover note IH = "1.IH"(2) [OF nul unsafe(1) nt refl unsafe(3) refl refl refl, unfolded rds, OF _ _ run]
    ultimately show ?thesis
      using unescape_hex [OF unsafe(1,2)] "1.prems"(1) unsafe(3) by (auto split: option.splits)
  qed
qed

lemma skip_slashes_view:
  "src \<le> length out \<Longrightarrow> skip_slashes out src \<le> length out \<and>
   cstr (drop (skip_slashes out src) out) = dropWhile (\<lambda>x. x = CHR ''/'') (cstr (drop src out))"
proof (induction out src rule: skip_slashes.induct)
  case (1 out src)
  show ?case
  proof (cases "rd out src = CHR ''/''")
    case True
    moreover from this have "src < length out" by (auto intro: rd_not_NUL)
    ultimately show ?thesis
      using "1.IH" by (simp add: skip_slashes.simps [of out src] cstr_drop_Cons)
  next
    case False
    then show ?thesis
      using "1.prems" by (cases "rd out src = NUL") (auto simp: skip_slashes.simps [of out src] cstr_simps)
  qed
qed

lemma canon_squash_view:
  "dst \<le> src \<Longrightarrow> src \<le> length out \<Longrightarrow> canon_squash out skip src dst = (out', dst') \<Longrightarrow>
   r = squash skip (cstr (drop src out)) \<Longrightarrow>
   length out' = length out \<and> dst' = dst + length r \<and> dst' \<le> length out \<and> take dst' out' = take dst out @ r"
proof (induction out skip src dst arbitrary: out' dst' r rule: canon_squash.induct)
  case (1 out skip src dst)
  show ?case
  proof (cases "rd out src = NUL")
    case True
    then show ?thesis
      using "1.prems" by (simp add: canon_squash.simps [of out skip src dst] cstr_simps)
  next
    case False
    then have len: "src < length out" by (rule rd_not_NUL)
    have view: "cstr (drop src out) = rd out src # cstr (drop (Suc src) out)"
      using False by (rule cstr_drop_Cons)
    show ?thesis
    proof (cases "rd out src = CHR ''/'' \<and> \<not> skip")
      case True
      let ?o = "out[dst := CHR ''/'']"
      let ?n = "skip_slashes ?o src"
      have slash: "rd ?o src = CHR ''/''" using True by (auto intro: rd_write_same)
      then have gt: "src < ?n" by (rule skip_slashes_gt)
      have n: "?n \<le> length out"
        "cstr (drop ?n ?o) = dropWhile (\<lambda>x. x = CHR ''/'') (cstr (drop (Suc src) out))"
        using skip_slashes_view [of src ?o] len slash "1.prems"(1) cstr_drop_Cons [of ?o src] by simp_all
      have run: "canon_squash ?o skip ?n (dst + 1) = (out', dst')"
        using "1.prems"(3) False True unfolding canon_squash.simps [of out skip src dst] by simp
      have "length out' = length ?o \<and> dst' = dst + 1 + length (squash skip (cstr (drop ?n ?o)))
        \<and> dst' \<le> length ?o \<and> take dst' out' = take (dst + 1) ?o @ squash skip (cstr (drop ?n ?o))"
        by (rule "1.IH"(1) [OF False True _ _ run refl]) (use gt n len "1.prems"(1) in simp_all)
      then show ?thesis
        using len "1.prems"(1,4) True n(2) by (auto simp: view take_write_Suc)
    next
      case other: False
      have "canon_squash (out[dst := rd out src]) (skip \<or> rd out src = CHR ''?'' \<or> rd out src = CHR ''#'')
          (src + 1) (dst + 1) = (out', dst')"
        using "1.prems"(3) False other by (auto simp: canon_squash.simps [of out skip src dst])
      note IH = "1.IH"(2) [OF False other _ _ this refl]
      have "r = rd out src # squash (skip \<or> rd out src = CHR ''?'' \<or> rd out src = CHR ''#'')
          (cstr (drop (Suc src) out))"
        using "1.prems"(4) other by (auto simp: view)
      then show ?thesis
        using IH len "1.prems"(1) by (auto simp: take_write_Suc)
    qed
  qed
qed

lemma pop_seg_Nil [simp]: "pop_seg [] = []"
  by (simp add: pop_seg_def)

lemma pop_seg_snoc: "pop_seg (acc @ [x]) = (if x = CHR ''/'' then acc else pop_seg acc)"
  by (simp add: pop_seg_def)

lemma canon_pop_view:
  "d \<le> length out \<Longrightarrow> canon_pop out d \<le> d \<and> take (canon_pop out d) out = pop_seg (take d out)"
  by (induction out d rule: canon_pop.induct)
    (auto simp: take_Suc_conv_app_nth pop_seg_snoc split: if_splits)

lemma dots_view:
  assumes "src < length out" "prefix lit (cstr (drop (Suc src) out))"
  shows "rd (cstr (drop (Suc src) out)) (length lit) = rd out (Suc src + length lit)"
    "drop (length lit) (cstr (drop (Suc src) out)) = cstr (drop (Suc src + length lit) out)"
    "Suc src + length lit \<le> length out"
proof -
  have k: "length lit \<le> length (cstr (drop (Suc src) out))"
    using assms(2) by (rule prefix_length_le)
  show "rd (cstr (drop (Suc src) out)) (length lit) = rd out (Suc src + length lit)"
    using k by (rule rd_cstr_drop)
  show "drop (length lit) (cstr (drop (Suc src) out)) = cstr (drop (Suc src + length lit) out)"
    using k by (rule drop_cstr_drop)
  show "Suc src + length lit \<le> length out"
    using k length_cstr_drop [of "Suc src" out] assms(1) by simp
qed

text \<open>The tests the code makes at a slash, read off the list that follows it.\<close>

lemma dots_eq:
  assumes "src < length out" "rd out src = CHR ''/''"
  defines "s \<equiv> cstr (drop (Suc src) out)"
  shows "strncmp_eq out src ''/..'' \<and> seg_end (rd out (src + 3)) \<longleftrightarrow> prefix ''..'' s \<and> seg_end (rd s 2)"
    "strncmp_eq out src ''/.'' \<and> seg_end (rd out (src + 2)) \<longleftrightarrow> prefix ''.'' s \<and> seg_end (rd s 1)"
    "prefix ''..'' s \<Longrightarrow> drop 2 s = cstr (drop (src + 3) out) \<and> src + 3 \<le> length out"
    "prefix ''.'' s \<Longrightarrow> drop 1 s = cstr (drop (src + 2) out) \<and> src + 2 \<le> length out"
proof -
  have two: "strncmp_eq out src ''/..'' \<longleftrightarrow> prefix ''..'' s"
    using strncmp_eq_prefix [of "''..''" out "Suc src"] assms(2) by (simp add: s_def del: strncmp_eq.simps(2)) simp
  have one: "strncmp_eq out src ''/.'' \<longleftrightarrow> prefix ''.'' s"
    using strncmp_eq_prefix [of "''.''" out "Suc src"] assms(2) by (simp add: s_def del: strncmp_eq.simps(2)) simp
  have two': "rd s 2 = rd out (src + 3) \<and> drop 2 s = cstr (drop (src + 3) out) \<and> src + 3 \<le> length out"
    if "prefix ''..'' s"
    using dots_view [of src out "''..''"] that assms(1) by (simp add: s_def numeral_2_eq_2 numeral_3_eq_3)
  have one': "rd s 1 = rd out (src + 2) \<and> drop 1 s = cstr (drop (src + 2) out) \<and> src + 2 \<le> length out"
    if "prefix ''.'' s"
    using dots_view [of src out "''.''"] that assms(1) by (simp add: s_def numeral_2_eq_2)
  show "strncmp_eq out src ''/..'' \<and> seg_end (rd out (src + 3)) \<longleftrightarrow> prefix ''..'' s \<and> seg_end (rd s 2)"
    using two two' by metis
  show "strncmp_eq out src ''/.'' \<and> seg_end (rd out (src + 2)) \<longleftrightarrow> prefix ''.'' s \<and> seg_end (rd s 1)"
    using one one' by metis
  show "prefix ''..'' s \<Longrightarrow> drop 2 s = cstr (drop (src + 3) out) \<and> src + 3 \<le> length out"
    using two' by blast
  show "prefix ''.'' s \<Longrightarrow> drop 1 s = cstr (drop (src + 2) out) \<and> src + 2 \<le> length out"
    using one' by blast
qed

text \<open>What \<open>reduce\<close> does at a slash, in terms of the tests of the loop.\<close>

lemma reduce_at_slash:
  assumes len: "src < length out" and sl: "rd out src = CHR ''/''"
  shows "strncmp_eq out src ''/..'' \<and> seg_end (rd out (src + 3)) \<Longrightarrow>
      src + 3 \<le> length out \<and>
      reduce False acc (cstr (drop src out)) = reduce False (pop_seg acc) (cstr (drop (src + 3) out))"
    and "\<not> (strncmp_eq out src ''/..'' \<and> seg_end (rd out (src + 3))) \<Longrightarrow>
      strncmp_eq out src ''/.'' \<and> seg_end (rd out (src + 2)) \<Longrightarrow>
      src + 2 \<le> length out \<and>
      reduce False acc (cstr (drop src out)) = reduce False acc (cstr (drop (src + 2) out))"
    and "\<not> (strncmp_eq out src ''/..'' \<and> seg_end (rd out (src + 3))) \<Longrightarrow>
      \<not> (strncmp_eq out src ''/.'' \<and> seg_end (rd out (src + 2))) \<Longrightarrow>
      reduce False acc (cstr (drop src out)) = reduce False (acc @ [CHR ''/'']) (cstr (drop (Suc src) out))"
proof -
  let ?s = "cstr (drop (Suc src) out)"
  have view: "cstr (drop src out) = CHR ''/'' # ?s" using cstr_drop_Cons [of out src] sl by simp
  show "src + 3 \<le> length out \<and>
      reduce False acc (cstr (drop src out)) = reduce False (pop_seg acc) (cstr (drop (src + 3) out))"
    if up: "strncmp_eq out src ''/..'' \<and> seg_end (rd out (src + 3))"
  proof -
    have dots: "prefix ''..'' ?s \<and> seg_end (rd ?s 2)" using dots_eq(1) [OF len sl] up by blast
    then have "drop 2 ?s = cstr (drop (src + 3) out)" "src + 3 \<le> length out"
      using dots_eq(3) [OF len sl] by blast+
    then show ?thesis using dots by (simp add: view)
  qed
  show "src + 2 \<le> length out \<and>
      reduce False acc (cstr (drop src out)) = reduce False acc (cstr (drop (src + 2) out))"
    if here: "\<not> (strncmp_eq out src ''/..'' \<and> seg_end (rd out (src + 3)))"
      "strncmp_eq out src ''/.'' \<and> seg_end (rd out (src + 2))"
  proof -
    have dots: "prefix ''.'' ?s \<and> seg_end (rd ?s 1)" "\<not> (prefix ''..'' ?s \<and> seg_end (rd ?s 2))"
      using dots_eq(1,2) [OF len sl] here by blast+
    then have "drop 1 ?s = cstr (drop (src + 2) out)" "src + 2 \<le> length out"
      using dots_eq(4) [OF len sl] by blast+
    moreover have "reduce False acc (CHR ''/'' # ?s) = reduce False acc (drop 1 ?s)"
      using dots unfolding reduce.simps by auto
    ultimately show ?thesis by (simp only: view simp_thms)
  qed
  show "reduce False acc (cstr (drop src out)) = reduce False (acc @ [CHR ''/'']) ?s"
    if seg: "\<not> (strncmp_eq out src ''/..'' \<and> seg_end (rd out (src + 3)))"
      "\<not> (strncmp_eq out src ''/.'' \<and> seg_end (rd out (src + 2)))"
  proof -
    have "\<not> (prefix ''..'' ?s \<and> seg_end (rd ?s 2))" "\<not> (prefix ''.'' ?s \<and> seg_end (rd ?s 1))"
      using dots_eq(1,2) [OF len sl] seg by blast+
    then show ?thesis unfolding view reduce.simps by auto
  qed
qed

lemma canon_reduce_view:
  "dst \<le> src \<Longrightarrow> src \<le> length out \<Longrightarrow> canon_reduce out skip src dst = (out', dst') \<Longrightarrow>
   length out' = length out \<and> dst' \<le> length out
   \<and> take dst' out' = reduce skip (take dst out) (cstr (drop src out))"
proof (induction out skip src dst arbitrary: out' dst' rule: canon_reduce.induct)
  case (1 out skip src dst)
  show ?case
  proof (cases "rd out src = NUL")
    case True
    then show ?thesis
      using "1.prems" by (auto simp: canon_reduce.simps [of out skip src dst] cstr_simps)
  next
    case False
    then have len: "src < length out" by (rule rd_not_NUL)
    have view: "cstr (drop src out) = rd out src # cstr (drop (Suc src) out)"
      using False by (rule cstr_drop_Cons)
    note unfold = canon_reduce.simps [of out skip src dst]
    show ?thesis
    proof (cases "rd out src = CHR ''/'' \<and> \<not> skip")
      case slash: True
      then have sl: "rd out src = CHR ''/''" and nosk: "skip = False" by simp_all
      consider (up) "strncmp_eq out src ''/..'' \<and> seg_end (rd out (src + 3))"
        | (here) "\<not> (strncmp_eq out src ''/..'' \<and> seg_end (rd out (src + 3)))"
            "strncmp_eq out src ''/.'' \<and> seg_end (rd out (src + 2))"
        | (seg) "\<not> (strncmp_eq out src ''/..'' \<and> seg_end (rd out (src + 3)))"
            "\<not> (strncmp_eq out src ''/.'' \<and> seg_end (rd out (src + 2)))"
        by blast
      then show ?thesis
      proof cases
        case up
        have pop: "canon_pop out dst \<le> dst"
          "take (canon_pop out dst) out = pop_seg (take dst out)"
          using canon_pop_view [of dst out] "1.prems"(1,2) by simp_all
        have "canon_reduce out skip (src + 3) (canon_pop out dst) = (out', dst')"
          using "1.prems"(3) False slash up unfolding unfold by (auto simp del: strncmp_eq.simps)
        note IH = "1.IH"(1) [OF False slash up _ _ this]
        show ?thesis
          using IH pop reduce_at_slash(1) [OF len sl up] "1.prems"(1) by (simp add: nosk)
      next
        case here
        have "canon_reduce out skip (src + 2) dst = (out', dst')"
          using "1.prems"(3) False slash here unfolding unfold by (auto simp del: strncmp_eq.simps)
        note IH = "1.IH"(2) [OF False slash here _ _ this]
        show ?thesis
          using IH reduce_at_slash(2) [OF len sl here] "1.prems"(1) by (simp add: nosk)
      next
        case seg
        have "canon_reduce (out[dst := CHR ''/'']) skip (src + 1) (dst + 1) = (out', dst')"
          using "1.prems"(3) False slash seg unfolding unfold by (auto simp del: strncmp_eq.simps)
        note IH = "1.IH"(3) [OF False slash seg _ _ this]
        show ?thesis
          using IH reduce_at_slash(3) [OF len sl seg] len "1.prems"(1) by (simp add: take_write_Suc nosk)
      qed
    next
      case other: False
      have "canon_reduce (out[dst := rd out src]) (skip \<or> rd out src = CHR ''?'' \<or> rd out src = CHR ''#'')
          (src + 1) (dst + 1) = (out', dst')"
        using "1.prems"(3) False other by (auto simp: unfold)
      note IH = "1.IH"(4) [OF False other _ _ this]
      show ?thesis
        using IH len "1.prems"(1) other by (auto simp: view take_write_Suc)
    qed
  qed
qed

section \<open>The buffer never gets a NUL inside the result\<close>

lemma of_char_byte_char: "of_char (byte_char v) = v"
proof -
  have "of_char (byte_char v) = (of_nat (of_char (byte_char v)) :: u8)"
    by (simp only: of_nat_of_char)
  also have "(of_char (byte_char v) :: nat) = unat v"
    using unsigned_less [of v, where ?'a = nat] by (simp add: byte_char_def)
  finally show ?thesis by simp
qed

lemma canon_safe_char:
  assumes "canon_safe v"
  shows "byte_char v \<notin> {NUL, CHR ''%'', CHR ''/'', CHR ''?'', CHR ''#''}"
proof -
  have "canon_safe (of_char (byte_char v))"
    using assms by (simp only: of_char_byte_char)
  then show ?thesis by (auto simp: canon_safe_def)
qed

lemma to_upper_NUL: "is_xdigit c \<Longrightarrow> to_upper c \<noteq> NUL"
  by (metis is_xdigit_to_upper not_xdigit_special(1))

lemma unescape_NUL: "unescape s = Some r \<Longrightarrow> NUL \<notin> set s \<Longrightarrow> NUL \<notin> set r"
proof (induction s arbitrary: r rule: unescape.induct)
  case (2 c s)
  show ?case
  proof (cases "c = CHR ''%''")
    case True
    then obtain a b t where s: "s = a # b # t" and hex: "is_xdigit a" "is_xdigit b"
      using "2.prems"(1) by (auto split: list.splits if_splits)
    let ?v = "url_hex_val a * 16 + url_hex_val b"
    obtain r' where r': "unescape t = Some r'"
      and r: "r = (if canon_safe ?v then [byte_char ?v] else [c, to_upper a, to_upper b]) @ r'"
      using "2.prems"(1) True s hex by (auto simp: Let_def)
    have "NUL \<notin> set r'"
      using "2.IH"(1) [of a "b # t" b t] True s hex r' "2.prems"(2) by auto
    then show ?thesis
      using r True canon_safe_char [of ?v] to_upper_NUL [OF hex(1)] to_upper_NUL [OF hex(2)]
      by (auto split: if_splits)
  next
    case False
    then show ?thesis using "2.prems" "2.IH"(2) by auto
  qed
qed simp

lemma set_squash: "set (squash skip s) \<subseteq> set s"
proof (induction skip s rule: squash.induct)
  case (2 skip c s)
  then show ?case by (auto dest!: subsetD set_dropWhileD)
qed simp

lemma set_pop_seg: "set (pop_seg acc) \<subseteq> set acc"
proof -
  have tl: "set (tl xs) \<subseteq> set xs" for xs :: string by (cases xs) auto
  have "set (pop_seg acc) \<subseteq> set (dropWhile (\<lambda>x. x \<noteq> CHR ''/'') (rev acc))"
    unfolding pop_seg_def by (simp add: tl)
  also have "\<dots> \<subseteq> set acc" by (auto dest: set_dropWhileD)
  finally show ?thesis .
qed

lemma set_reduce: "set (reduce skip acc s) \<subseteq> set acc \<union> set s"
proof (induction skip acc s rule: reduce.induct)
  case (2 skip acc c s)
  have d: "set (drop n s) \<subseteq> set s" for n by (rule set_drop_subset)
  show ?case
  proof (cases "c = CHR ''/'' \<and> \<not> skip")
    case True
    show ?thesis
    proof (cases "prefix ''..'' s \<and> seg_end (rd s 2)")
      case up: True
      have "set (reduce skip (pop_seg acc) (drop 2 s)) \<subseteq> set (pop_seg acc) \<union> set (drop 2 s)"
        by (rule "2.IH"(1) [OF True up])
      then have "set (reduce skip (pop_seg acc) (drop 2 s)) \<subseteq> set acc \<union> set s"
        using set_pop_seg [of acc] d [of 2] by blast
      then show ?thesis using True up by auto
    next
      case no: False
      then show ?thesis using True "2.IH"(2,3) [OF True no] d [of 1] by auto
    qed
  next
    case False
    then show ?thesis using "2.IH"(4) [OF False] by auto
  qed
qed simp

section \<open>The function against its specification\<close>

lemma canonify_passes:
  "case canonify (cstr inp) of
     None \<Rightarrow> fst (url_canonify_uri inp) = -1
   | Some r \<Rightarrow> (if url_utf8_validate r = 0 then url_canonify_uri inp = (0, r)
               else fst (url_canonify_uri inp) = -1)"
proof -
  obtain ok out1 dst1 where run1: "canon_decode (cstr inp) 0 0 = (ok, out1, dst1)"
    by (metis prod_cases3)
  note pass1 = canon_decode_view [OF _ _ run1, simplified]
  show ?thesis
  proof (cases "unescape (cstr inp)")
    case None
    then show ?thesis
      using pass1 by (simp add: canonify_def url_canonify_uri_def run1 Let_def)
  next
    case (Some u)
    then have ok: "ok" "take dst1 out1 = u" "dst1 \<le> length out1"
      using pass1 by auto
    have u: "NUL \<notin> set u" using Some unescape_NUL by simp
    obtain out2 dst2 where run2: "canon_squash (out1[dst1 := NUL]) False 0 0 = (out2, dst2)"
      by fastforce
    have term1: "cstr (out1[dst1 := NUL]) = u" using cstr_terminate [of dst1 out1] ok u by simp
    have pass2: "take dst2 out2 = squash False u" "dst2 \<le> length out2"
      using canon_squash_view [OF _ _ run2 refl] term1 by auto
    have q: "NUL \<notin> set (squash False u)" using u set_squash [of False u] by blast
    obtain out3 dst3 where run3: "canon_reduce (out2[dst2 := NUL]) False 0 0 = (out3, dst3)"
      by fastforce
    have term2: "cstr (out2[dst2 := NUL]) = squash False u"
      using cstr_terminate [of dst2 out2] pass2 q by simp
    let ?r = "reduce False [] (squash False u)"
    have pass3: "take dst3 out3 = ?r" "dst3 \<le> length out3"
      using canon_reduce_view [OF _ _ run3] term2 by auto
    have "NUL \<notin> set ?r" using q set_reduce [of False "[]" "squash False u"] by auto
    then have term3: "cstr (out3[dst3 := NUL]) = ?r"
      using cstr_terminate [of dst3 out3] pass3 by simp
    then have "url_utf8_validate (out3[dst3 := NUL]) = url_utf8_validate ?r"
      using url_utf8_validate_cstr by metis
    then show ?thesis
      using Some ok(1) url_utf8_validate_code [of ?r]
      by (auto simp: canonify_def url_canonify_uri_def run1 run2 run3 term3 Let_def)
  qed
qed

text \<open>
  C7. The three in-place passes over one buffer, with their index arithmetic and stale bytes,
  compute exactly the composition of the three list functions: the call succeeds with \<open>r\<close>
  when the escapes of the input are well-formed, \<open>r\<close> is the decoded, squashed and reduced string
  and it is valid UTF-8; in every other case it returns -1.
\<close>

theorem url_canonify_uri_refines:
  "case canonify (cstr inp) of
     None \<Rightarrow> fst (url_canonify_uri inp) = -1
   | Some r \<Rightarrow> (if url_utf8_validate r = 0 then url_canonify_uri inp = (0, r)
               else fst (url_canonify_uri inp) = -1)"
  by (rule canonify_passes)

end
