(* ===== verification/Url_Segments.thy ===== *)
theory Url_Segments
  imports Url_Canon
begin

text \<open>
  The path of a request URI as a list of segments.  The squash and reduce passes of
  \<open>url_canonify_uri\<close> are proved to act on the segments the way a path is resolved: empty
  segments go, \<open>.\<close> is ignored and \<open>..\<close> removes the segment before it.  Safety of the
  canonical form (no dot segment, no empty inner segment) and idempotence follow.
\<close>

section \<open>Segments\<close>

definition plain :: "char \<Rightarrow> bool" where
  "plain c \<longleftrightarrow> \<not> seg_end c"

definition plain_seg :: "string \<Rightarrow> bool" where
  "plain_seg x \<longleftrightarrow> (\<forall>c \<in> set x. plain c)"

text \<open>What follows the path: nothing, or a query or fragment.\<close>

definition tail_ok :: "string \<Rightarrow> bool" where
  "tail_ok q \<longleftrightarrow> q = [] \<or> hd q = CHR ''?'' \<or> hd q = CHR ''#''"

definition join_tail :: "string list \<Rightarrow> string" where
  "join_tail xs = concat (map ((#) CHR ''/'') xs)"

text \<open>A path is a first segment (empty for an absolute path) and the segments behind slashes.\<close>

fun split_path :: "string \<Rightarrow> string \<times> string list" where
  "split_path [] = ([], [])"
| "split_path (c # s) =
     (let (f, xs) = split_path s
      in if c = CHR ''/'' then ([], f # xs) else (c # f, xs))"

definition path_of :: "string \<Rightarrow> string" where
  "path_of s = takeWhile (\<lambda>c. c \<noteq> CHR ''?'' \<and> c \<noteq> CHR ''#'') s"

definition tail_of :: "string \<Rightarrow> string" where
  "tail_of s = dropWhile (\<lambda>c. c \<noteq> CHR ''?'' \<and> c \<noteq> CHR ''#'') s"

text \<open>The abstract passes: drop empty inner segments, then resolve the dot segments.\<close>

fun squeeze :: "string list \<Rightarrow> string list" where
  "squeeze [] = []"
| "squeeze [x] = [x]"
| "squeeze (x # y # xs) = (if x = [] then squeeze (y # xs) else x # squeeze (y # xs))"

fun resolve_step :: "string \<times> string list \<Rightarrow> string \<Rightarrow> string \<times> string list" where
  "resolve_step (f, st) x =
     (if x = ''..'' then (if st = [] then ([], []) else (f, butlast st))
      else if x = ''.'' then (f, st)
      else (f, st @ [x]))"

definition resolve :: "string \<times> string list \<Rightarrow> string \<times> string list" where
  "resolve p = foldl resolve_step (fst p, []) (squeeze (snd p))"

definition join_path :: "string \<times> string list \<Rightarrow> string" where
  "join_path p = fst p @ join_tail (snd p)"

section \<open>Splitting and joining\<close>

lemma join_tail_simps [simp]:
  "join_tail [] = []" "join_tail (x # xs) = CHR ''/'' # x @ join_tail xs"
  "join_tail (xs @ ys) = join_tail xs @ join_tail ys"
  by (simp_all add: join_tail_def)

lemma join_split_path: "join_path (split_path s) = s"
  by (induction s) (auto simp: join_path_def split: prod.splits)

lemma split_path_plain:
  "NUL \<notin> set s \<Longrightarrow> CHR ''?'' \<notin> set s \<Longrightarrow> CHR ''#'' \<notin> set s \<Longrightarrow> split_path s = (f, xs) \<Longrightarrow>
   plain_seg f \<and> (\<forall>x \<in> set xs. plain_seg x)"
proof (induction s arbitrary: f xs)
  case (Cons c s)
  obtain g ys where split: "split_path s = (g, ys)" by fastforce
  have IH: "plain_seg g \<and> (\<forall>x \<in> set ys. plain_seg x)"
    using Cons.IH [OF _ _ _ split] Cons.prems by simp
  show ?case
  proof (cases "c = CHR ''/''")
    case True
    then show ?thesis using Cons.prems(4) split IH by (auto simp: plain_seg_def)
  next
    case False
    then have "plain c" using Cons.prems by (auto simp: plain_def seg_end_def)
    moreover have "f = c # g" "xs = ys" using Cons.prems(4) split False by simp_all
    ultimately show ?thesis using IH by (simp add: plain_seg_def)
  qed
qed (simp add: plain_seg_def)

lemma path_tail: "path_of s @ tail_of s = s"
  by (simp add: path_of_def tail_of_def)

lemma tail_of_ok: "tail_ok (tail_of s)"
  unfolding tail_ok_def tail_of_def by (induction s) auto

lemma path_of_chars: "c \<in> set (path_of s) \<Longrightarrow> c \<in> set s \<and> c \<noteq> CHR ''?'' \<and> c \<noteq> CHR ''#''"
  unfolding path_of_def by (auto dest: set_takeWhileD)

lemma plain_seg_simps [simp]:
  "plain_seg []" "plain_seg (c # x) \<longleftrightarrow> plain c \<and> plain_seg x"
  "plain_seg (x @ y) \<longleftrightarrow> plain_seg x \<and> plain_seg y"
  by (auto simp: plain_seg_def)

lemma not_plain [simp]: "\<not> plain CHR ''/''" "\<not> plain CHR ''?''" "\<not> plain CHR ''#''" "\<not> plain NUL"
  and plain_dot [simp]: "plain CHR ''.''"
  by (simp_all add: plain_def seg_end_def)

lemma plain_neq: "plain c \<Longrightarrow> c \<noteq> CHR ''/'' \<and> c \<noteq> CHR ''?'' \<and> c \<noteq> CHR ''#'' \<and> c \<noteq> NUL"
  by auto

section \<open>Squashing on segments\<close>

lemma squash_True [simp]: "squash True s = s"
  by (induction s) auto

lemma squash_tail: "tail_ok q \<Longrightarrow> squash False q = q"
  by (cases q) (auto simp: tail_ok_def)

lemma squash_plain: "plain_seg x \<Longrightarrow> squash False (x @ s) = x @ squash False s"
  by (induction x) (auto dest: plain_neq)

lemma dropWhile_slash_boundary:
  "tail_ok q \<Longrightarrow> dropWhile (\<lambda>c. c = CHR ''/'') q = q"
  by (cases q) (auto simp: tail_ok_def)

lemma squash_join_tail:
  "\<forall>x \<in> set xs. plain_seg x \<Longrightarrow> tail_ok q \<Longrightarrow>
   squash False (join_tail xs @ q) = join_tail (squeeze xs) @ q"
proof (induction xs rule: squeeze.induct)
  case 1
  then show ?case by (simp add: squash_tail)
next
  case (2 x)
  then show ?case
    by (cases x) (auto simp: squash_tail squash_plain dropWhile_slash_boundary dest!: plain_neq)
next
  case (3 x y xs)
  then show ?case
    by (cases x) (auto simp: squash_plain dest!: plain_neq)
qed

section \<open>Reducing on segments\<close>

lemma reduce_True [simp]: "reduce True acc s = acc @ s"
  by (induction s arbitrary: acc) auto

lemma reduce_tail: "tail_ok q \<Longrightarrow> reduce False acc q = acc @ q"
  by (cases q) (auto simp: tail_ok_def)

lemma reduce_plain: "plain_seg x \<Longrightarrow> reduce False acc (x @ s) = reduce False (acc @ x) s"
  by (induction x arbitrary: acc) (auto dest: plain_neq)

text \<open>A literal of plain characters at the start of a segment is the whole segment.\<close>

lemma whole_segment:
  assumes "plain_seg x" "plain_seg lit" "rest = [] \<or> seg_end (hd rest)"
  shows "prefix lit (x @ rest) \<and> seg_end (rd (x @ rest) (length lit)) \<longleftrightarrow> x = lit"
  using assms
proof (induction lit arbitrary: x)
  case Nil
  then show ?case
    by (cases x; cases rest) (auto simp: plain_def seg_end_def rd_def)
next
  case (Cons c lit)
  show ?case
  proof (cases x)
    case Nil
    then show ?thesis using Cons.prems by (cases rest) (auto simp: plain_def)
  next
    case (Cons d x')
    then show ?thesis using Cons.IH [of x'] Cons.prems by auto
  qed
qed

lemma pop_seg_plain: "plain_seg y \<Longrightarrow> pop_seg (a @ CHR ''/'' # y) = a"
proof (induction y rule: rev_induct)
  case Nil
  then show ?case by (simp add: pop_seg_snoc)
next
  case (snoc c y)
  then show ?case
    using pop_seg_snoc [of "a @ CHR ''/'' # y" c] by auto
qed

lemma pop_seg_first: "plain_seg f \<Longrightarrow> pop_seg f = []"
  by (induction f rule: rev_induct) (auto simp: pop_seg_snoc)

lemma pop_seg_join:
  assumes "plain_seg f" "\<forall>x \<in> set st. plain_seg x"
  shows "pop_seg (join_path (f, st)) = join_path (resolve_step (f, st) ''..'')"
proof (cases st rule: rev_cases)
  case Nil
  then show ?thesis using assms(1) by (simp add: join_path_def pop_seg_first)
next
  case (snoc ys y)
  then show ?thesis
    using assms pop_seg_plain [of y "f @ join_tail ys"] by (simp add: join_path_def)
qed

lemma resolve_step_plain:
  "plain_seg f \<Longrightarrow> \<forall>x \<in> set st. plain_seg x \<Longrightarrow> plain_seg y \<Longrightarrow> resolve_step (f, st) y = (f', st') \<Longrightarrow>
   plain_seg f' \<and> (\<forall>x \<in> set st'. plain_seg x)"
  by (auto split: if_splits dest: in_set_butlastD)

lemma reduce_join_tail:
  "plain_seg f \<Longrightarrow> \<forall>x \<in> set st. plain_seg x \<Longrightarrow> \<forall>x \<in> set xs. plain_seg x \<Longrightarrow> tail_ok q \<Longrightarrow>
   reduce False (join_path (f, st)) (join_tail xs @ q) = join_path (foldl resolve_step (f, st) xs) @ q"
proof (induction xs arbitrary: f st)
  case Nil
  then show ?case by (simp add: reduce_tail)
next
  case (Cons x xs)
  let ?rest = "join_tail xs @ q"
  obtain f' st' where step: "resolve_step (f, st) x = (f', st')" by fastforce
  have plain': "plain_seg f'" "\<forall>x \<in> set st'. plain_seg x"
    using resolve_step_plain [OF Cons.prems(1,2) _ step] Cons.prems(3) by auto
  have rest: "?rest = [] \<or> seg_end (hd ?rest)"
    using Cons.prems(4) by (cases xs) (auto simp: tail_ok_def seg_end_def)
  have two: "prefix ''..'' (x @ ?rest) \<and> seg_end (rd (x @ ?rest) 2) \<longleftrightarrow> x = ''..''"
    using whole_segment [of x "''..''" ?rest] Cons.prems(3) rest by (simp add: numeral_2_eq_2)
  have one: "prefix ''.'' (x @ ?rest) \<and> seg_end (rd (x @ ?rest) 1) \<longleftrightarrow> x = ''.''"
    using whole_segment [of x "''.''" ?rest] Cons.prems(3) rest by simp
  have cases: "reduce False (join_path (f, st)) (CHR ''/'' # x @ ?rest) =
     (if x = ''..'' then reduce False (pop_seg (join_path (f, st))) (drop 2 (x @ ?rest))
      else if x = ''.'' then reduce False (join_path (f, st)) (drop 1 (x @ ?rest))
      else reduce False (join_path (f, st) @ [CHR ''/'']) (x @ ?rest))"
    by (subst reduce.simps) (simp only: two one simp_thms if_True)
  have "reduce False (join_path (f, st)) (CHR ''/'' # x @ ?rest) = reduce False (join_path (f', st')) ?rest"
    unfolding cases
    using step pop_seg_join [OF Cons.prems(1,2)] Cons.prems(3)
    by (auto simp: numeral_2_eq_2 reduce_plain join_path_def split: if_splits)
  then show ?case
    using Cons.IH [OF plain' _ Cons.prems(4)] Cons.prems(3) step by simp
qed

text \<open>Both passes together, on any NUL-free string.\<close>

lemma reduce_squash_resolve:
  assumes "NUL \<notin> set s"
  shows "reduce False [] (squash False s) = join_path (resolve (split_path (path_of s))) @ tail_of s"
proof -
  obtain f xs where split: "split_path (path_of s) = (f, xs)" by fastforce
  have plain: "plain_seg f" "\<forall>x \<in> set xs. plain_seg x"
    using split_path_plain [OF _ _ _ split] assms by (auto dest: path_of_chars)
  have "set (squeeze xs) \<subseteq> set xs" by (induction xs rule: squeeze.induct) auto
  then have plain': "\<forall>x \<in> set (squeeze xs). plain_seg x" using plain(2) by blast
  have s: "s = f @ join_tail xs @ tail_of s"
    using path_tail [of s] join_split_path [of "path_of s"] split
    by (metis append.assoc fst_conv join_path_def snd_conv)
  have "squash False s = f @ join_tail (squeeze xs) @ tail_of s"
    by (subst s) (simp add: squash_plain plain squash_join_tail tail_of_ok)
  then have "reduce False [] (squash False s) = reduce False (join_path (f, [])) (join_tail (squeeze xs) @ tail_of s)"
    by (simp add: reduce_plain plain join_path_def)
  also have "\<dots> = join_path (foldl resolve_step (f, []) (squeeze xs)) @ tail_of s"
    by (rule reduce_join_tail) (use plain plain' tail_of_ok in auto)
  finally show ?thesis by (simp add: split resolve_def)
qed

section \<open>The canonical form\<close>

lemma split_join:
  "plain_seg f \<Longrightarrow> \<forall>x \<in> set xs. plain_seg x \<Longrightarrow> split_path (join_path (f, xs)) = (f, xs)"
proof -
  have prepend: "plain_seg f \<Longrightarrow> split_path s = ([], xs) \<Longrightarrow> split_path (f @ s) = (f, xs)" for f s xs
    by (induction f) (auto dest: plain_neq)
  have "\<forall>x \<in> set xs. plain_seg x \<Longrightarrow> split_path (join_tail xs) = ([], xs)"
    by (induction xs) (auto simp: prepend)
  then show "plain_seg f \<Longrightarrow> \<forall>x \<in> set xs. plain_seg x \<Longrightarrow> split_path (join_path (f, xs)) = (f, xs)"
    by (simp add: join_path_def prepend)
qed

lemma plain_join_tail: "\<forall>x \<in> set xs. plain_seg x \<Longrightarrow> c \<in> set (join_tail xs) \<Longrightarrow> c = CHR ''/'' \<or> plain c"
  by (induction xs) (auto simp: plain_seg_def)

lemma path_tail_join:
  assumes "plain_seg f" "\<forall>x \<in> set xs. plain_seg x" "tail_ok q"
  shows "path_of (join_path (f, xs) @ q) = join_path (f, xs)" "tail_of (join_path (f, xs) @ q) = q"
proof -
  have chars: "c \<noteq> CHR ''?'' \<and> c \<noteq> CHR ''#''" if "c \<in> set (join_path (f, xs))" for c
    using that assms(1) plain_join_tail [OF assms(2), of c]
    by (auto simp: join_path_def plain_seg_def dest: plain_neq)
  have q: "takeWhile (\<lambda>c. c \<noteq> CHR ''?'' \<and> c \<noteq> CHR ''#'') q = []"
    using assms(3) by (cases q) (auto simp: tail_ok_def)
  then have "dropWhile (\<lambda>c. c \<noteq> CHR ''?'' \<and> c \<noteq> CHR ''#'') q = q"
    by (metis append_Nil takeWhile_dropWhile_id)
  with q chars show "path_of (join_path (f, xs) @ q) = join_path (f, xs)"
    "tail_of (join_path (f, xs) @ q) = q"
    by (simp_all add: path_of_def tail_of_def takeWhile_append2 dropWhile_append2)
qed

text \<open>A resolved path: no dot segments behind a slash, no empty segment but the last.\<close>

definition resolved :: "string list \<Rightarrow> bool" where
  "resolved xs \<longleftrightarrow> ''.'' \<notin> set xs \<and> ''..'' \<notin> set xs \<and> [] \<notin> set (butlast xs)"

lemma squeeze_inner: "[] \<notin> set (butlast (squeeze xs))"
proof (induction xs rule: squeeze.induct)
  case (3 x y xs)
  moreover have "squeeze (y # xs) \<noteq> []" by (induction "y # xs" arbitrary: y xs rule: squeeze.induct) auto
  ultimately show ?case by simp
qed simp_all

lemma butlast_butlast_Nil: "[] \<notin> set (butlast st) \<Longrightarrow> [] \<notin> set (butlast (butlast st))"
  by (meson in_set_butlastD)

lemma foldl_resolved:
  "resolved st \<Longrightarrow> [] \<notin> set (butlast xs) \<Longrightarrow> [] \<notin> set st \<or> xs = [] \<Longrightarrow>
   resolved (snd (foldl resolve_step (f, st) xs))"
proof (induction xs arbitrary: f st)
  case (Cons x xs)
  have st: "[] \<notin> set st" using Cons.prems(3) by simp
  have step: "resolved (snd (resolve_step (f, st) x))"
    using Cons.prems(1) st by (auto simp: resolved_def butlast_append dest: in_set_butlastD)
  have "[] \<notin> set (snd (resolve_step (f, st) x)) \<or> xs = []"
    using Cons.prems(2) st by (auto split: if_splits dest: in_set_butlastD)
  then show ?case
    using Cons.IH [of "snd (resolve_step (f, st) x)" "fst (resolve_step (f, st) x)"] step Cons.prems(2)
    by (simp split: if_splits del: resolve_step.simps)
qed simp

lemma resolve_resolved: "resolved (snd (resolve p))"
  unfolding resolve_def by (rule foldl_resolved) (auto simp: resolved_def squeeze_inner)

lemma squeeze_resolved: "[] \<notin> set (butlast xs) \<Longrightarrow> squeeze xs = xs"
  by (induction xs rule: squeeze.induct) auto

lemma foldl_resolve_id: "''.'' \<notin> set xs \<Longrightarrow> ''..'' \<notin> set xs \<Longrightarrow> foldl resolve_step (f, st) xs = (f, st @ xs)"
  by (induction xs arbitrary: st) auto

lemma resolve_id: "resolved xs \<Longrightarrow> resolve (f, xs) = (f, xs)"
  by (auto simp: resolve_def resolved_def squeeze_resolved foldl_resolve_id)

lemma foldl_resolve_plain:
  "plain_seg f \<Longrightarrow> \<forall>x \<in> set st. plain_seg x \<Longrightarrow> \<forall>x \<in> set xs. plain_seg x \<Longrightarrow>
   foldl resolve_step (f, st) xs = (f', st') \<Longrightarrow> plain_seg f' \<and> (\<forall>x \<in> set st'. plain_seg x)"
proof (induction xs arbitrary: f st)
  case (Cons x xs)
  obtain g ys where step: "resolve_step (f, st) x = (g, ys)" by fastforce
  have "plain_seg g" "\<forall>x \<in> set ys. plain_seg x"
    using resolve_step_plain [OF Cons.prems(1,2) _ step] Cons.prems(3) by auto
  then show ?case using Cons.IH [of g ys] Cons.prems(3,4) step by simp
qed simp

lemma resolve_plain:
  assumes "NUL \<notin> set s" "resolve (split_path (path_of s)) = (f, xs)"
  shows "plain_seg f \<and> (\<forall>x \<in> set xs. plain_seg x)"
proof -
  obtain g ys where split: "split_path (path_of s) = (g, ys)" by fastforce
  have plain: "plain_seg g" "\<forall>x \<in> set ys. plain_seg x"
    using split_path_plain [OF _ _ _ split] assms(1) by (auto dest: path_of_chars)
  moreover have "set (squeeze ys) \<subseteq> set ys" by (induction ys rule: squeeze.induct) auto
  ultimately show ?thesis
    using foldl_resolve_plain [of g "[]" "squeeze ys" f xs] assms(2) split
    by (auto simp: resolve_def)
qed

text \<open>What a successful call returns, in terms of segments.\<close>

lemma url_canonify_uri_ok:
  assumes "url_canonify_uri inp = (0, r)"
  obtains u f xs where "unescape (cstr inp) = Some u" "NUL \<notin> set u"
    "resolve (split_path (path_of u)) = (f, xs)" "plain_seg f" "\<forall>x \<in> set xs. plain_seg x" "resolved xs"
    "r = join_path (f, xs) @ tail_of u" "url_utf8_validate r = 0"
proof -
  obtain u where u: "unescape (cstr inp) = Some u" "r = reduce False [] (squash False u)"
    "url_utf8_validate r = 0"
    using canonify_passes [of inp] assms
    by (auto simp: canonify_def split: option.splits if_splits)
  have nul: "NUL \<notin> set u" using u(1) unescape_NUL by simp
  obtain f xs where res: "resolve (split_path (path_of u)) = (f, xs)" by fastforce
  show ?thesis
    using that [OF u(1) nul res] resolve_plain [OF nul res] resolve_resolved [of "split_path (path_of u)"]
      u(2,3) reduce_squash_resolve [OF nul] res
    by simp
qed

section \<open>Normalised escapes\<close>

text \<open>Every escape is complete, upper-case and stands for a byte that is not decoded.\<close>

fun norm_esc :: "string \<Rightarrow> bool" where
  "norm_esc [] = True"
| "norm_esc (c # s) =
     (if c = CHR ''%'' then
        (case s of
           a # b # t \<Rightarrow> is_xdigit a \<and> is_xdigit b \<and> \<not> canon_safe (url_hex_val a * 16 + url_hex_val b)
             \<and> to_upper a = a \<and> to_upper b = b \<and> norm_esc t
         | _ \<Rightarrow> False)
      else norm_esc s)"

lemma url_hex_val_to_upper: "url_hex_val (to_upper c) = url_hex_val c"
proof (cases "CHR ''a'' \<le> c \<and> c \<le> CHR ''z''")
  case True
  then have c: "97 \<le> cc c" "cc c \<le> 122" by (simp_all add: less_eq_char_def)
  then have mod: "(cc c - 32) mod 256 = cc c - 32" by simp
  have "(of_char (to_upper c) :: u8) = of_nat (cc (to_upper c))"
    by (simp only: of_nat_of_char)
  also have nat: "cc (to_upper c) = cc c - 32" using True mod by (simp add: to_upper_def)
  also have "(of_nat (cc c - 32) :: u8) = of_nat (cc c) - 32" using c by simp
  also have "\<dots> = of_char c - 32" by (simp only: of_nat_of_char)
  finally have up: "(of_char (to_upper c) :: u8) = of_char c - 32" .
  show ?thesis
    using c by (auto simp: url_hex_val_def up nat less_eq_char_def)
next
  case False
  then have "to_upper c = c" by (auto simp: to_upper_def)
  then show ?thesis by simp
qed

lemma norm_esc_plain: "c \<noteq> CHR ''%'' \<Longrightarrow> norm_esc (c # s) = norm_esc s"
  by simp

lemma unescape_norm: "unescape s = Some r \<Longrightarrow> norm_esc r"
proof (induction s arbitrary: r rule: unescape.induct)
  case (2 c s)
  show ?case
  proof (cases "c = CHR ''%''")
    case True
    then obtain a b t where s: "s = a # b # t" and hex: "is_xdigit a" "is_xdigit b"
      using "2.prems" by (auto split: list.splits if_splits)
    let ?v = "url_hex_val a * 16 + url_hex_val b"
    obtain r' where r': "unescape t = Some r'"
      and r: "r = (if canon_safe ?v then [byte_char ?v] else [c, to_upper a, to_upper b]) @ r'"
      using "2.prems" True s hex by (auto simp: Let_def)
    have "norm_esc r'"
      using "2.IH"(1) [of a "b # t" b t] True s hex r' by auto
    moreover have "canon_safe ?v \<Longrightarrow> byte_char ?v \<noteq> CHR ''%''"
      using canon_safe_char [of ?v] by simp
    ultimately show ?thesis
      using r True hex by (simp add: url_hex_val_to_upper)
  next
    case False
    then show ?thesis using "2.prems" "2.IH"(2) by auto
  qed
qed simp

lemma norm_unescape: "norm_esc s \<Longrightarrow> unescape s = Some s"
proof (induction s rule: norm_esc.induct)
  case (2 c s)
  then show ?case by (cases "c = CHR ''%''") (auto simp: Let_def split: list.splits)
qed simp

lemma norm_esc_append:
  "y = [] \<or> \<not> is_xdigit (hd y) \<Longrightarrow> norm_esc (x @ y) \<longleftrightarrow> norm_esc x \<and> norm_esc y"
proof (induction x rule: norm_esc.induct)
  case (2 c s)
  show ?case
  proof (cases "c = CHR ''%''")
    case True
    consider "s = []" | a where "s = [a]" | a b t where "s = a # b # t"
      by (metis list.exhaust)
    then show ?thesis
      using 2 True by cases (auto split: list.splits)
  qed (use 2 in auto)
qed simp

lemma norm_esc_join:
  assumes "tail_ok q"
  shows "norm_esc (join_path (f, xs) @ q) \<longleftrightarrow> norm_esc f \<and> (\<forall>x \<in> set xs. norm_esc x) \<and> norm_esc q"
proof -
  have "norm_esc (join_tail xs @ q) \<longleftrightarrow> (\<forall>x \<in> set xs. norm_esc x) \<and> norm_esc q" for xs
  proof (induction xs)
    case (Cons x xs)
    have "join_tail xs @ q = [] \<or> \<not> is_xdigit (hd (join_tail xs @ q))"
      using assms by (cases xs) (auto simp: tail_ok_def)
    then show ?case using Cons by (simp add: norm_esc_append)
  qed simp
  moreover have "join_tail xs @ q = [] \<or> \<not> is_xdigit (hd (join_tail xs @ q))"
    using assms by (cases xs) (auto simp: tail_ok_def)
  ultimately show ?thesis by (simp add: join_path_def norm_esc_append)
qed

lemma resolve_norm:
  assumes "norm_esc f" "\<forall>x \<in> set xs. norm_esc x" "resolve (f, xs) = (f', xs')"
  shows "norm_esc f' \<and> (\<forall>x \<in> set xs'. norm_esc x)"
proof -
  have "set (squeeze xs) \<subseteq> set xs" by (induction xs rule: squeeze.induct) auto
  then have sq: "\<forall>x \<in> set (squeeze xs). norm_esc x" using assms(2) by blast
  have fold: "\<lbrakk> norm_esc g; \<forall>x \<in> set st. norm_esc x; \<forall>x \<in> set ys. norm_esc x;
      foldl resolve_step (g, st) ys = (g', st') \<rbrakk> \<Longrightarrow> norm_esc g' \<and> (\<forall>x \<in> set st'. norm_esc x)"
    for g st ys g' st'
  proof (induction ys arbitrary: g st)
    case (Cons y ys)
    obtain h zs where step: "resolve_step (g, st) y = (h, zs)" by fastforce
    then have "norm_esc h" "\<forall>x \<in> set zs. norm_esc x"
      using Cons.prems(1-3) by (auto split: if_splits dest: in_set_butlastD)
    then show ?case using Cons.IH [of h zs] Cons.prems(3,4) step by simp
  qed simp
  show ?thesis
    by (rule fold [OF assms(1) _ sq]) (use assms(3) in \<open>simp_all add: resolve_def\<close>)
qed

lemma url_canonify_uri_norm: "url_canonify_uri inp = (0, r) \<Longrightarrow> norm_esc r"
proof -
  assume "url_canonify_uri inp = (0, r)"
  then obtain u f xs where u: "unescape (cstr inp) = Some u" "resolve (split_path (path_of u)) = (f, xs)"
    "r = join_path (f, xs) @ tail_of u"
    by (rule url_canonify_uri_ok)
  obtain g ys where split: "split_path (path_of u) = (g, ys)" by fastforce
  then have "u = join_path (g, ys) @ tail_of u"
    using join_split_path [of "path_of u"] path_tail [of u] by simp
  moreover have "norm_esc u" using u(1) by (rule unescape_norm)
  ultimately have "norm_esc g \<and> (\<forall>y \<in> set ys. norm_esc y) \<and> norm_esc (tail_of u)"
    using norm_esc_join [OF tail_of_ok] by metis
  then show ?thesis
    using resolve_norm [of g ys f xs] u(2,3) split by (simp add: norm_esc_join tail_of_ok)
qed

section \<open>Properties of the canonical form\<close>

text \<open>
  C10. A successful call resolves the decoded path segment by segment: empty inner segments are
  dropped, a dot segment is skipped, a dot-dot segment removes the one before it (and stops at
  the root), and the query and fragment are kept as they are.
\<close>

theorem url_canonify_uri_resolves:
  assumes "url_canonify_uri inp = (0, r)"
  shows "\<exists>u. unescape (cstr inp) = Some u
    \<and> r = join_path (resolve (split_path (path_of u))) @ tail_of u"
  using assms by (elim url_canonify_uri_ok) auto

theorem url_canonify_uri_resolves_witness:
  "\<exists>u. unescape (cstr ''/a//b/../%63/./d?x=/../y'') = Some u
    \<and> ''/a/c/d?x=/../y'' = join_path (resolve (split_path (path_of u))) @ tail_of u"
proof -
  have "url_canonify_uri ''/a//b/../%63/./d?x=/../y'' = (0, ''/a/c/d?x=/../y'')" by code_simp
  then show ?thesis by (rule url_canonify_uri_resolves)
qed



text \<open>
  Canonification is idempotent: the output of a successful call is accepted unchanged by a
  second call, so nothing is decoded or resolved twice.
\<close>

lemma url_canonify_uri_idem:
  assumes "url_canonify_uri inp = (0, r)"
  shows "url_canonify_uri r = (0, r)"
proof -
  obtain u f xs where u: "NUL \<notin> set u" "plain_seg f" "\<forall>x \<in> set xs. plain_seg x" "resolved xs"
    "r = join_path (f, xs) @ tail_of u" "url_utf8_validate r = 0"
    using assms by (rule url_canonify_uri_ok)
  have "NUL \<notin> set (tail_of u)" using u(1) by (auto simp: tail_of_def dest: set_dropWhileD)
  then have nul: "NUL \<notin> set r"
    using u(2,5) plain_join_tail [OF u(3), of NUL] by (auto simp: join_path_def plain_seg_def)
  have "unescape r = Some r" using url_canonify_uri_norm [OF assms] by (rule norm_unescape)
  moreover have "reduce False [] (squash False r) = r"
    using reduce_squash_resolve [OF nul] u(2-5)
    by (simp add: path_tail_join tail_of_ok split_join resolve_id)
  ultimately have "canonify r = Some r" by (simp add: canonify_def)
  then show ?thesis
    using canonify_passes [of r] nul u(6) by simp
qed

lemma url_canonify_uri_idem_witness:
  "url_canonify_uri ''/b%2F?x'' = (0, ''/b%2F?x'')"
proof -
  have "url_canonify_uri ''/a/../%62%2f?x'' = (0, ''/b%2F?x'')" by code_simp
  then show ?thesis by (rule url_canonify_uri_idem)
qed

end
