(* ===== verification/Url_Decode.thy ===== *)
theory Url_Decode
  imports Url_Canon
begin

text \<open>
  \<open>nni_url_decode\<close> of src/url.cpp: percent-decoding into a caller-supplied buffer, with the
  writes into that buffer checked, so that staying inside it is a theorem and not built in.
\<close>

section \<open>The decoder\<close>

text \<open>
  \<open>inp\<close> is the rest of the C string, \<open>out\<close> the caller's buffer.  The result is the returned
  length (\<open>None\<close> for \<open>(size_t)-1\<close>) and the buffer; a write outside \<open>out\<close> is undefined.
\<close>

fun nni_url_decode_loop :: "u8 list \<Rightarrow> string \<Rightarrow> nat \<Rightarrow> nat \<Rightarrow> ub + (nat option \<times> u8 list)" where
  "nni_url_decode_loop out [] max_len len = Inr (Some len, out)"
| "nni_url_decode_loop out (c # s) max_len len =
     (if max_len \<le> len then Inr (None, out)
      else if c = CHR ''%'' then
        (case s of
           a # b # t \<Rightarrow>
             if is_xdigit a \<and> is_xdigit b then
               (if len < length out
                then nni_url_decode_loop (out[len := push_bit 4 (url_hex_val a) + url_hex_val b])
                       t max_len (len + 1)
                else Inl Out_of_bounds)
             else Inr (None, out)
         | _ \<Rightarrow> Inr (None, out))
      else if len < length out
           then nni_url_decode_loop (out[len := of_char c]) s max_len (len + 1)
           else Inl Out_of_bounds)"

definition nni_url_decode :: "u8 list \<Rightarrow> string \<Rightarrow> nat \<Rightarrow> ub + (nat option \<times> u8 list)" where
  "nni_url_decode out inp max_len = nni_url_decode_loop out (cstr inp) max_len 0"

section \<open>Reference decoding\<close>

fun pct_decode :: "string \<Rightarrow> u8 list option" where
  "pct_decode [] = Some []"
| "pct_decode (c # s) =
     (if c = CHR ''%'' then
        (case s of
           a # b # t \<Rightarrow>
             if is_xdigit a \<and> is_xdigit b
             then map_option ((#) (url_hex_val a * 16 + url_hex_val b)) (pct_decode t) else None
         | _ \<Rightarrow> None)
      else map_option ((#) (of_char c)) (pct_decode s))"

text \<open>Escaping every byte, the inverse the decoder is measured against.\<close>

definition hex_digit :: "nat \<Rightarrow> char" where
  "hex_digit n = ''0123456789ABCDEF'' ! n"

definition pct_encode :: "u8 list \<Rightarrow> string" where
  "pct_encode bs = concat (map (\<lambda>b. [CHR ''%'', hex_digit (unat b div 16), hex_digit (unat b mod 16)]) bs)"

section \<open>Bounds and results\<close>

text \<open>
  \<open>decode_spec\<close>: what a run from position \<open>len\<close> returns when the rest of the input decodes
  to \<open>d\<close>.  It never is a write outside the buffer.
\<close>

definition decode_spec ::
  "u8 list \<Rightarrow> u8 list option \<Rightarrow> nat \<Rightarrow> nat \<Rightarrow> ub + (nat option \<times> u8 list) \<Rightarrow> bool" where
  "decode_spec out d max_len len r \<longleftrightarrow>
     (case d of
        Some bs \<Rightarrow>
          if len + length bs \<le> max_len
          then r = Inr (Some (len + length bs), take len out @ bs @ drop (len + length bs) out)
          else \<exists>out'. r = Inr (None, out')
      | None \<Rightarrow> \<exists>out'. r = Inr (None, out'))"

lemma decode_spec_step:
  assumes "len < max_len" "max_len \<le> length out"
    and "decode_spec (out[len := x]) d max_len (len + 1) r"
  shows "decode_spec out (map_option ((#) x) d) max_len len r"
  using assms by (cases d) (auto simp: decode_spec_def take_write_Suc split: if_splits)

lemma decode_spec_full:
  "max_len \<le> len \<Longrightarrow> d = None \<or> (\<exists>b bs. d = Some (b # bs)) \<Longrightarrow> decode_spec out d max_len len (Inr (None, out))"
  by (auto simp: decode_spec_def)

lemma pct_decode_Cons: "pct_decode (c # s) \<noteq> Some []"
  by (simp split: list.split)

lemma push_bit_4: "push_bit 4 (x :: u8) = x * 16"
  by (simp add: push_bit_eq_mult)

lemma nni_url_decode_loop_spec:
  "len \<le> max_len \<Longrightarrow> max_len \<le> length out \<Longrightarrow>
   decode_spec out (pct_decode s) max_len len (nni_url_decode_loop out s max_len len)"
proof (induction out s max_len len rule: nni_url_decode_loop.induct)
  case (1 out max_len len)
  then show ?case by (simp add: decode_spec_def)
next
  case (2 out c s max_len len)
  show ?case
  proof (cases "max_len \<le> len")
    case True
    have "pct_decode (c # s) = None \<or> (\<exists>b bs. pct_decode (c # s) = Some (b # bs))"
      using pct_decode_Cons [of c s] by (metis list.exhaust not_None_eq)
    then show ?thesis using True decode_spec_full by simp
  next
    case room: False
    then have len: "len < length out" "len < max_len" "len + 1 \<le> max_len" using "2.prems" by simp_all
    show ?thesis
    proof (cases "c = CHR ''%''")
      case plain: False
      have "decode_spec (out[len := of_char c]) (pct_decode s) max_len (len + 1)
          (nni_url_decode_loop (out[len := of_char c]) s max_len (len + 1))"
        using "2.IH"(2) [OF room plain len(1)] len "2.prems" by simp
      then show ?thesis
        using decode_spec_step [OF len(2) "2.prems"(2)] room plain len(1) by simp
    next
      case pct: True
      show ?thesis
      proof (cases "\<exists>a b t. s = a # b # t \<and> is_xdigit a \<and> is_xdigit b")
        case False
        then show ?thesis using room pct by (auto simp: decode_spec_def split: list.splits)
      next
        case True
        then obtain a b t where s: "s = a # b # t" and hex: "is_xdigit a \<and> is_xdigit b" by blast
        let ?v = "push_bit 4 (url_hex_val a) + url_hex_val b"
        have "decode_spec (out[len := ?v]) (pct_decode t) max_len (len + 1)
            (nni_url_decode_loop (out[len := ?v]) t max_len (len + 1))"
          using "2.IH"(1) [OF room pct s refl hex len(1)] len "2.prems" by simp
        then have "decode_spec out (map_option ((#) ?v) (pct_decode t)) max_len len
            (nni_url_decode_loop (out[len := ?v]) t max_len (len + 1))"
          by (rule decode_spec_step [OF len(2) "2.prems"(2)])
        then show ?thesis using room pct s hex len(1) by (simp add: push_bit_4)
      qed
    qed
  qed
qed

text \<open>
  With a buffer of at least \<open>max_len\<close> bytes, \<open>nni_url_decode\<close> never writes outside it; it
  returns the decoded length with exactly the decoded bytes at the front (the rest of the buffer
  untouched) when the input is well-formed and fits, and -1 otherwise.
\<close>

lemma nni_url_decode_correct:
  assumes "max_len \<le> length out"
  shows "case pct_decode (cstr inp) of
      Some bs \<Rightarrow>
        (if length bs \<le> max_len
         then nni_url_decode out inp max_len = Inr (Some (length bs), bs @ drop (length bs) out)
         else \<exists>out'. nni_url_decode out inp max_len = Inr (None, out'))
    | None \<Rightarrow> \<exists>out'. nni_url_decode out inp max_len = Inr (None, out')"
  using nni_url_decode_loop_spec [of 0 max_len out "cstr inp"] assms
  by (auto simp: nni_url_decode_def decode_spec_def split: option.splits)

lemma nni_url_decode_correct_witness:
  "nni_url_decode [0, 0, 7] ''a%2F'' 2 = Inr (Some 2, [0x61, 0x2F, 7])"
proof -
  have dec: "pct_decode (cstr ''a%2F'') = Some [0x61, 0x2F]" by code_simp
  show ?thesis using nni_url_decode_correct [of 2 "[0, 0, 7]" "''a%2F''"] unfolding dec by simp
qed

section \<open>Round trip\<close>

lemma hex_digit_facts:
  assumes "n < 16"
  shows "is_xdigit (hex_digit n)" "url_hex_val (hex_digit n) = of_nat n" "NUL \<noteq> hex_digit n"
proof -
  have "\<forall>n \<in> set [0..<16]. is_xdigit (hex_digit n) \<and> url_hex_val (hex_digit n) = of_nat n \<and> NUL \<noteq> hex_digit n"
    by code_simp
  then show "is_xdigit (hex_digit n)" "url_hex_val (hex_digit n) = of_nat n" "NUL \<noteq> hex_digit n"
    using assms by simp_all
qed

lemma nibbles: "of_nat (unat b div 16) * 16 + of_nat (unat b mod 16) = (b :: u8)"
proof -
  have "of_nat (unat b div 16) * 16 + of_nat (unat b mod 16) = (of_nat (unat b div 16 * 16 + unat b mod 16) :: u8)"
    by (simp only: of_nat_add of_nat_mult of_nat_numeral)
  also have "\<dots> = of_nat (unat b)" by (simp only: div_mult_mod_eq)
  finally show ?thesis by simp
qed

lemma pct_encode_simps:
  "pct_encode [] = []"
  "pct_encode (b # bs) = CHR ''%'' # hex_digit (unat b div 16) # hex_digit (unat b mod 16) # pct_encode bs"
  by (simp_all add: pct_encode_def)

lemma unat_u8_div: "unat (b :: u8) div 16 < 16"
  using unsigned_less [of b, where ?'a = nat] by simp

lemma pct_decode_encode: "pct_decode (pct_encode bs) = Some bs"
proof (induction bs)
  case (Cons b bs)
  have "unat b mod 16 < 16" by simp
  then show ?case
    using Cons hex_digit_facts(1,2) [OF unat_u8_div] hex_digit_facts(1,2) [of "unat b mod 16"] nibbles [of b]
    by (simp add: pct_encode_simps)
qed (simp add: pct_encode_simps)

lemma pct_encode_no_NUL: "NUL \<notin> set (pct_encode bs)"
  using hex_digit_facts(3) [OF unat_u8_div] hex_digit_facts(3)
  by (induction bs) (auto simp: pct_encode_simps)

text \<open>
  C14. Round trip: percent-encoding any bytes, NUL included, and decoding them into a buffer that
  has room gives the bytes back and their number.
\<close>

theorem nni_url_decode_roundtrip:
  assumes "length bs \<le> max_len" "max_len \<le> length out"
  shows "nni_url_decode out (pct_encode bs) max_len = Inr (Some (length bs), bs @ drop (length bs) out)"
  using nni_url_decode_loop_spec [of 0 max_len out "pct_encode bs"] assms
  by (simp add: nni_url_decode_def decode_spec_def pct_encode_no_NUL pct_decode_encode)

theorem nni_url_decode_roundtrip_witness:
  "nni_url_decode [1, 2, 3] (pct_encode [0, 0xFF]) 2 = Inr (Some 2, [0, 0xFF, 3])"
  using nni_url_decode_roundtrip [of "[0, 0xFF]" 2 "[1, 2, 3]"] by simp

end
