(* ===== verification/Url.thy ===== *)
theory Url
  imports Url_Segments
begin

text \<open>
  The URL parser of src/url.cpp: the record \<open>url_t\<close> with the pieces of a parsed URL, the default
  ports, \<open>url_parse_requri\<close> and \<open>url_parse\<close>.  Parsing fills the caller's record step by step, so
  a rejected URL leaves it partly filled, as in the code.
\<close>

section \<open>The record\<close>

text \<open>
  The fields of \<open>struct url_t\<close>.  The member \<open>port\<close> has no initialiser: \<open>None\<close> is its
  indeterminate value.
\<close>

record url_t =
  u_rawurl :: string
  u_scheme :: string
  u_userinfo :: string
  u_host :: string
  u_hostname :: string
  u_port :: "int option"
  u_requri :: string
  u_path :: string
  u_query :: string
  u_fragment :: string

definition url_init :: url_t where
  "url_init = \<lparr>u_rawurl = [], u_scheme = [], u_userinfo = [], u_host = [], u_hostname = [],
     u_port = None, u_requri = [], u_path = [], u_query = [], u_fragment = []\<rparr>"

definition nport :: int where
  "nport = -1"

definition url_default_port :: "string \<Rightarrow> int" where
  "url_default_port sch =
     (case map_of [(''git'', 9418), (''gopher'', 70), (''http'', 80), (''https'', 443),
                   (''ssh'', 22), (''telnet'', 23), (''ws'', 80), (''wss'', 443)] sch of
        None \<Rightarrow> nport
      | Some p \<Rightarrow> p)"

section \<open>std::stoi\<close>

text \<open>
  \<open>std::stoi\<close>: leading white space, an optional sign and at least one digit, trailing characters
  ignored; \<open>None\<close> is the exception (\<open>invalid_argument\<close> or \<open>out_of_range\<close>).
\<close>

fun digits_value :: "int \<Rightarrow> string \<Rightarrow> int" where
  "digits_value n [] = n"
| "digits_value n (c # s) = digits_value (10 * n + (of_char c - 48)) s"

definition stoi :: "string \<Rightarrow> int option" where
  "stoi str =
     (let t = dropWhile is_space (cstr str);
          neg = (t \<noteq> [] \<and> hd t = CHR ''-'');
          d = (if t \<noteq> [] \<and> (hd t = CHR ''-'' \<or> hd t = CHR ''+'') then tl t else t);
          ds = takeWhile is_digit d;
          v = (if neg then - digits_value 0 ds else digits_value 0 ds)
      in if ds = [] then None else if - (2 ^ 31) \<le> v \<and> v < 2 ^ 31 then Some v else None)"

section \<open>Request URI\<close>

definition url_parse_requri :: "string \<Rightarrow> url_t \<Rightarrow> bool \<times> url_t" where
  "url_parse_requri requri_raw u =
     (let (rv, req) = url_canonify_uri requri_raw; u0 = u\<lparr>u_requri := req\<rparr>
      in if rv \<noteq> 0 then (False, u0)
         else let len = scan (\<lambda>c. c = CHR ''?'' \<or> c = CHR ''#'') req;
                  u1 = u0\<lparr>u_path := take len req\<rparr>;
                  s1 = drop len req;
                  (u2, s2) =
                    (if rd s1 0 = CHR ''?''
                     then let s = drop 1 s1; l = scan (\<lambda>c. c = CHR ''#'') s
                          in (u1\<lparr>u_query := take l s\<rparr>, drop l s)
                     else (u1, s1));
                  u3 = (if rd s2 0 = CHR ''#'' then u2\<lparr>u_fragment := cstr (drop 1 s2)\<rparr> else u2)
              in (True, u3))"

section \<open>The whole URL\<close>

text \<open>
  The loop over \<open>[user@]host\<close>.  \<open>s\<close> is the rest of the buffer including its terminator and
  \<open>len\<close> the loop index; reading at or past the end of \<open>s\<close> is out of bounds.  At an \<open>@\<close> the code
  sets \<open>s\<close> behind it and \<open>len = 0\<close>, and the loop increment makes that 1.
\<close>

function url_scan_authority ::
  "string \<Rightarrow> nat \<Rightarrow> string \<Rightarrow> ub + (bool \<times> string \<times> nat \<times> string)" where
  "url_scan_authority s len userinfo =
     (if length s \<le> len then Inl Out_of_bounds
      else if s ! len = CHR ''/'' then Inr (True, s, len, userinfo)
      else if s ! len = NUL \<or> s ! len = CHR ''#'' \<or> s ! len = CHR ''?'' then Inr (True, s, len, userinfo)
      else if s ! len = CHR ''@'' then
        (if userinfo \<noteq> [] then Inr (False, s, len, userinfo)
         else url_scan_authority (drop (len + 1) s) 1 (take len s))
      else url_scan_authority s (len + 1) userinfo)"
  by pat_completeness auto
termination
  by (relation "measure (\<lambda>(s, len, userinfo). length s - len)") auto

declare url_scan_authority.simps [simp del]

text \<open>The last part of \<open>url_parse\<close>: \<open>hostname\<close> and \<open>port\<close> out of \<open>host\<close>.\<close>

definition url_split_host :: "url_t \<Rightarrow> bool \<times> url_t" where
  "url_split_host u =
     (let s = u_host u; v6 = (rd s 0 = CHR ''[''); s1 = (if v6 then drop 1 s else s);
          len = (if v6 then scan (\<lambda>c. c = CHR '']'') s1 else scan (\<lambda>c. c = CHR '':'') s1)
      in if v6 \<and> rd s1 len \<noteq> CHR '']'' then (False, u)
         else if v6 \<and> rd s1 (len + 1) \<noteq> CHR '':'' \<and> rd s1 (len + 1) \<noteq> NUL then (False, u)
         else let u1 = u\<lparr>u_hostname := take len s1\<rparr>;
                  s2 = drop len s1;
                  s3 = (if rd s2 0 = CHR '']'' then drop 1 s2 else s2);
                  p = (if rd s3 0 = CHR '':'' then
                         (if rd s3 1 = NUL then nport
                          else (case stoi (cstr (drop 1 s3)) of None \<Rightarrow> nport | Some v \<Rightarrow> v))
                       else url_default_port (u_scheme u));
                  u2 = u1\<lparr>u_port := Some p\<rparr>
              in (p \<noteq> nport, u2))"

definition url_parse :: "string \<Rightarrow> url_t \<Rightarrow> ub + (bool \<times> url_t)" where
  "url_parse raw u =
     (let u0 = u\<lparr>u_rawurl := raw\<rparr>; len = scan (\<lambda>c. c = CHR '':'') raw
      in if \<not> strncmp_eq raw len ''://'' then Inr (False, u0)
         else let u1 = u0\<lparr>u_scheme := take len raw\<rparr>
              in if u_scheme u1 = ''unix''
                 then Inr (True, u1\<lparr>u_path := cstr (drop (len + 3) raw)\<rparr>)
                 else case url_scan_authority (drop (len + 3) (raw @ [NUL])) 0 (u_userinfo u1) of
                        Inl e \<Rightarrow> Inl e
                      | Inr (ok, s, l, ui) \<Rightarrow>
                          (let u2 = u1\<lparr>u_userinfo := ui\<rparr>
                           in if \<not> ok then Inr (False, u2)
                              else let star = (l = 1 \<and> rd s l = CHR ''*'' \<or> 1 < l \<and> strncmp_eq s 0 ''*:'');
                                       s' = (if star then drop 1 s else s);
                                       l' = (if star then l - 1 else l);
                                       (okr, u3) = url_parse_requri (drop l' s') (u2\<lparr>u_host := take l' s'\<rparr>)
                                   in if \<not> okr then Inr (False, u3) else Inr (url_split_host u3)))"

section \<open>Request URI: the pieces\<close>

lemma url_parse_requri_frame:
  "url_parse_requri raw u = (ok, v) \<Longrightarrow>
     u_rawurl v = u_rawurl u \<and> u_scheme v = u_scheme u \<and> u_userinfo v = u_userinfo u
     \<and> u_host v = u_host u \<and> u_hostname v = u_hostname u \<and> u_port v = u_port u"
  by (auto simp: url_parse_requri_def Let_def split: prod.splits if_splits)

lemma url_parse_requri_accepts: "fst (url_parse_requri raw u) \<longleftrightarrow> fst (url_canonify_uri raw) = 0"
  by (simp add: url_parse_requri_def Let_def split: prod.split)

lemma url_canonify_uri_no_NUL: "url_canonify_uri inp = (0, r) \<Longrightarrow> NUL \<notin> set r"
  using canonify_passes [of inp]
  by (auto simp: url_canonify_uri_def Let_def split: prod.splits if_splits)

lemma scan_parts:
  assumes "NUL \<notin> set s"
  shows "take (scan stop s) s = takeWhile (\<lambda>c. \<not> stop c) s"
    "drop (scan stop s) s = dropWhile (\<lambda>c. \<not> stop c) s"
proof -
  have eq: "takeWhile (\<lambda>c. \<not> stop c \<and> c \<noteq> NUL) s = takeWhile (\<lambda>c. \<not> stop c) s"
    "dropWhile (\<lambda>c. \<not> stop c \<and> c \<noteq> NUL) s = dropWhile (\<lambda>c. \<not> stop c) s"
    using assms by (auto intro!: takeWhile_cong dropWhile_cong)
  show "take (scan stop s) s = takeWhile (\<lambda>c. \<not> stop c) s"
    "drop (scan stop s) s = dropWhile (\<lambda>c. \<not> stop c) s"
    by (simp_all add: take_scan drop_scan eq)
qed

lemma rd_0_Cons: "rd s 0 = c \<Longrightarrow> c \<noteq> NUL \<Longrightarrow> s = c # drop 1 s"
  by (cases s) auto

lemma scan_hash:
  assumes "NUL \<notin> set s"
  defines "l \<equiv> scan (\<lambda>c. c = CHR ''#'') s"
  shows "CHR ''#'' \<notin> set (take l s)" "drop l s = [] \<or> drop l s = CHR ''#'' # drop 1 (drop l s)"
proof -
  note parts = scan_parts [OF assms(1), of "\<lambda>c. c = CHR ''#''", folded l_def]
  show "CHR ''#'' \<notin> set (take l s)" unfolding parts(1) by (auto dest: set_takeWhileD)
  have "drop l s \<noteq> [] \<Longrightarrow> hd (drop l s) = CHR ''#''"
    using parts(2) hd_dropWhile [of "\<lambda>c. c \<noteq> CHR ''#''" s] by metis
  then show "drop l s = [] \<or> drop l s = CHR ''#'' # drop 1 (drop l s)" by (cases "drop l s") simp_all
qed

lemma url_parse_requri_success:
  assumes "url_parse_requri raw u = (True, v)"
  shows "url_canonify_uri raw = (0, u_requri v) \<and> u_path v = path_of (u_requri v)
    \<and> (\<exists>qs fs. u_requri v = u_path v @ qs @ fs
        \<and> (qs = [] \<and> u_query v = u_query u \<or> qs = CHR ''?'' # u_query v \<and> CHR ''#'' \<notin> set qs)
        \<and> (fs = [] \<and> u_fragment v = u_fragment u \<or> fs = CHR ''#'' # u_fragment v))"
proof -
  obtain rv req where canon: "url_canonify_uri raw = (rv, req)" by fastforce
  have rv: "rv = 0" using assms canon by (auto simp: url_parse_requri_def Let_def split: if_splits)
  have nul: "NUL \<notin> set req" using canon rv url_canonify_uri_no_NUL by simp
  define s1 where "s1 = tail_of req"
  have parts: "take (scan (\<lambda>c. c = CHR ''?'' \<or> c = CHR ''#'') req) req = path_of req"
    "drop (scan (\<lambda>c. c = CHR ''?'' \<or> c = CHR ''#'') req) req = s1"
    using scan_parts [OF nul, of "\<lambda>c. c = CHR ''?'' \<or> c = CHR ''#''"] by (simp_all add: path_of_def tail_of_def s1_def)
  have s1: "NUL \<notin> set s1" "tail_ok s1" "req = path_of req @ s1"
    using nul path_tail [of req] tail_of_ok [of req]
    by (auto simp: s1_def tail_of_def dest: set_dropWhileD)
  note unfold = url_parse_requri_def canon rv parts Let_def
  have result: ?thesis
    if "u_requri v = req" "u_path v = path_of req" "req = path_of req @ qs @ fs"
      "qs = [] \<and> u_query v = u_query u \<or> qs = CHR ''?'' # u_query v \<and> CHR ''#'' \<notin> set qs"
      "fs = [] \<and> u_fragment v = u_fragment u \<or> fs = CHR ''#'' # u_fragment v" for qs fs
    using that canon rv by metis
  show ?thesis
  proof (cases "rd s1 0 = CHR ''?''")
    case True
    define s l where "s = drop 1 s1" and "l = scan (\<lambda>c. c = CHR ''#'') s"
    have s: "s1 = CHR ''?'' # s" "NUL \<notin> set s"
      using rd_0_Cons [OF True] s1(1) by (auto simp: s_def dest: in_set_dropD)
    note hash = scan_hash [OF s(2), folded l_def]
    have req: "req = path_of req @ (CHR ''?'' # take l s) @ drop l s" using s1(3) s(1) by simp
    from hash(2) show ?thesis
    proof
      assume nil: "drop l s = []"
      then have "v = u\<lparr>u_requri := req, u_path := path_of req, u_query := take l s\<rparr>"
        using assms True by (simp add: unfold s_def l_def)
      then show ?thesis using hash(1) nil by (intro result [OF _ _ req]) auto
    next
      assume frag: "drop l s = CHR ''#'' # drop 1 (drop l s)"
      then have "rd (drop l s) 0 = CHR ''#''" by (metis rd_Cons_0)
      moreover have "NUL \<notin> set (drop 1 (drop l s))" using s(2) by (auto dest!: in_set_dropD)
      ultimately have "v = u\<lparr>u_requri := req, u_path := path_of req, u_query := take l s, u_fragment := drop 1 (drop l s)\<rparr>"
        using assms True by (simp add: unfold s_def l_def)
      then show ?thesis using hash(1) frag by (intro result [OF _ _ req]) auto
    qed
  next
    case False
    then have tail: "s1 = [] \<or> s1 = CHR ''#'' # drop 1 s1"
      using s1(2) by (cases s1) (auto simp: tail_ok_def)
    then show ?thesis
    proof
      assume nil: "s1 = []"
      then have "v = u\<lparr>u_requri := req, u_path := path_of req\<rparr>"
        using assms by (simp add: unfold)
      then show ?thesis using s1(3) nil by (intro result [of "[]" "[]"]) simp_all
    next
      assume frag: "s1 = CHR ''#'' # drop 1 s1"
      then have hd: "rd s1 0 = CHR ''#''" by (metis rd_Cons_0)
      moreover have "NUL \<notin> set (drop 1 s1)" using s1(1) by (auto dest: in_set_dropD)
      ultimately have "v = u\<lparr>u_requri := req, u_path := path_of req, u_fragment := drop 1 s1\<rparr>"
        using assms by (simp add: unfold)
      then show ?thesis using s1(3) frag by (intro result [of "[]" s1]) simp_all
    qed
  qed
qed

text \<open>
  A request URI that parses is canonical and is the concatenation of its pieces: the path up
  to the first \<open>?\<close> or \<open>#\<close>, then an optional \<open>?\<close> with the query (free of \<open>#\<close>), then an
  optional \<open>#\<close> with the fragment; a missing piece leaves the caller's field alone.
\<close>

lemma url_parse_requri_pieces:
  assumes "url_parse_requri raw u = (True, v)"
  shows "url_canonify_uri raw = (0, u_requri v) \<and> u_path v = path_of (u_requri v)
    \<and> (\<exists>qs fs. u_requri v = u_path v @ qs @ fs
        \<and> (qs = [] \<and> u_query v = u_query u \<or> qs = CHR ''?'' # u_query v \<and> CHR ''#'' \<notin> set qs)
        \<and> (fs = [] \<and> u_fragment v = u_fragment u \<or> fs = CHR ''#'' # u_fragment v))"
  using assms by (rule url_parse_requri_success)

lemma url_parse_requri_pieces_witness:
  "u_path (snd (url_parse_requri ''/s/../p?a=b&c=d#e'' url_init))
     = path_of (u_requri (snd (url_parse_requri ''/s/../p?a=b&c=d#e'' url_init)))"
proof -
  have "fst (url_parse_requri ''/s/../p?a=b&c=d#e'' url_init)" by code_simp
  then have "url_parse_requri ''/s/../p?a=b&c=d#e'' url_init
      = (True, snd (url_parse_requri ''/s/../p?a=b&c=d#e'' url_init))"
    by (metis prod.collapse)
  from url_parse_requri_pieces [OF this] show ?thesis by blast
qed

section \<open>Staying inside the buffer\<close>

lemma url_scan_authority_in_bounds:
  "s = t @ [NUL] \<Longrightarrow> t = [] \<or> last t \<noteq> CHR ''@'' \<Longrightarrow> len \<le> length t \<Longrightarrow>
   \<exists>r. url_scan_authority s len userinfo = Inr r"
proof (induction s len userinfo arbitrary: t rule: url_scan_authority.induct)
  case (1 s len userinfo)
  note unfold = url_scan_authority.simps [of s len userinfo]
  show ?case
  proof (cases "len = length t")
    case True
    then show ?thesis using "1.prems"(1) unfolding unfold by auto
  next
    case False
    then have len: "len < length t" "s ! len = t ! len" using "1.prems" by (simp_all add: nth_append)
    have bound: "\<not> length s \<le> len" using len "1.prems"(1) by simp
    consider (stop) "s ! len = CHR ''/'' \<or> s ! len = NUL \<or> s ! len = CHR ''#'' \<or> s ! len = CHR ''?''"
      | (at) "s ! len = CHR ''@''"
      | (step) "s ! len \<noteq> CHR ''/''" "\<not> (s ! len = NUL \<or> s ! len = CHR ''#'' \<or> s ! len = CHR ''?'')"
          "s ! len \<noteq> CHR ''@''"
      by blast
    then show ?thesis
    proof cases
      case stop
      then show ?thesis using bound by (auto simp: unfold)
    next
      case at
      have "Suc len \<noteq> length t"
        using at len "1.prems"(2) by (metis diff_Suc_1 last_conv_nth list.size(3) nat.distinct(1))
      then have rest: "drop (len + 1) s = drop (len + 1) t @ [NUL]" "drop (len + 1) t \<noteq> []"
        "last (drop (len + 1) t) = last t"
        using len(1) "1.prems"(1) by (simp_all add: last_drop)
      show ?thesis
      proof (cases "userinfo = []")
        case True
        have "\<exists>r. url_scan_authority (drop (len + 1) s) 1 (take len s) = Inr r"
          by (rule "1.IH"(1) [OF bound _ _ at _ rest(1)])
            (use at True rest(2,3) "1.prems"(2) in \<open>auto simp: Suc_le_eq\<close>)
        then show ?thesis using at True bound unfolding unfold by simp
      next
        case False
        then show ?thesis using at bound unfolding unfold by auto
      qed
    next
      case step
      have "\<exists>r. url_scan_authority s (len + 1) userinfo = Inr r"
        by (rule "1.IH"(2) [OF bound step "1.prems"(1,2)]) (use len in simp)
      then show ?thesis using step bound by (simp add: unfold)
    qed
  qed
qed



text \<open>A URL ending in \<open>@\<close> reads one byte past the terminator.\<close>

lemma url_parse_at_end: "url_parse ''http://u@'' url_init = Inl Out_of_bounds"
  by code_simp

text \<open>The byte after \<open>@\<close> is never looked at, so a slash there becomes part of the host.\<close>

lemma url_parse_skips_after_at:
  "case url_parse ''http://u@/x'' url_init of
     Inr (ok, v) \<Rightarrow> ok \<and> u_host v = ''/x'' \<and> u_path v = []
   | Inl _ \<Rightarrow> False"
  by code_simp

text \<open>A lone \<open>*\<close> is kept as the host, although the code means to skip it.\<close>

lemma url_parse_lone_star:
  "case url_parse ''http://*/a'' url_init of Inr (ok, v) \<Rightarrow> ok \<and> u_host v = ''*'' | Inl _ \<Rightarrow> False"
  by code_simp

text \<open>A unix URL leaves the port indeterminate.\<close>

lemma url_parse_unix_port:
  "case url_parse ''unix:///tmp/s'' url_init of
     Inr (ok, v) \<Rightarrow> ok \<and> u_path v = ''/tmp/s'' \<and> u_port v = None | Inl _ \<Rightarrow> False"
  by code_simp

text \<open>Ports are not checked against the range of TCP ports, and trailing text is accepted.\<close>

lemma url_parse_port_unchecked:
  "case url_parse ''http://a:99999x/'' url_init of Inr (ok, v) \<Rightarrow> ok \<and> u_port v = Some 99999 | Inl _ \<Rightarrow> False"
  "case url_parse ''http://a:-7/'' url_init of Inr (ok, v) \<Rightarrow> ok \<and> u_port v = Some (-7) | Inl _ \<Rightarrow> False"
  by code_simp+

section \<open>Ports\<close>

lemma stoi_range: "stoi s = Some v \<Longrightarrow> - (2 ^ 31) \<le> v \<and> v < 2 ^ 31"
  by (auto simp: stoi_def Let_def split: if_splits)

lemma url_default_port_range: "url_default_port s = nport \<or> 22 \<le> url_default_port s \<and> url_default_port s \<le> 9418"
  by (auto simp: url_default_port_def split: option.splits if_splits)

definition port_value :: "string \<Rightarrow> string \<Rightarrow> int" where
  "port_value scheme s =
     (if rd s 0 = CHR '':'' then
        (if rd s 1 = NUL then nport else (case stoi (cstr (drop 1 s)) of None \<Rightarrow> nport | Some v \<Rightarrow> v))
      else url_default_port scheme)"

lemma port_value_range: "- (2 ^ 31) \<le> port_value scheme s \<and> port_value scheme s < 2 ^ 31"
  using url_default_port_range [of scheme]
  by (auto simp: port_value_def nport_def split: option.splits dest!: stoi_range)

lemma url_split_host_port:
  "url_split_host u = (True, v) \<Longrightarrow> \<exists>p. u_port v = Some p \<and> p \<noteq> nport \<and> - (2 ^ 31) \<le> p \<and> p < 2 ^ 31"
  unfolding url_split_host_def Let_def port_value_def [symmetric]
  using port_value_range [of "u_scheme u"] by (fastforce split: if_split_asm)

text \<open>
  C13. An accepted URL whose scheme is not \<open>unix\<close> has a port: a 32-bit value other than the
  marker -1, read from the host part or taken from the table of default ports.
\<close>

theorem url_parse_port:
  assumes "url_parse raw u = Inr (True, v)" "take (scan (\<lambda>c. c = CHR '':'') raw) raw \<noteq> ''unix''"
  shows "\<exists>p. u_port v = Some p \<and> p \<noteq> nport \<and> - (2 ^ 31) \<le> p \<and> p < 2 ^ 31"
proof -
  obtain w where "url_split_host w = (True, v)"
    using assms by (auto simp: url_parse_def Let_def split: sum.splits prod.splits if_splits)
  then show ?thesis by (rule url_split_host_port)
qed

theorem url_parse_port_witness:
  "\<exists>v. url_parse ''ws://[::1]/'' url_init = Inr (True, v)
    \<and> (\<exists>p. u_port v = Some p \<and> p \<noteq> nport \<and> - (2 ^ 31) \<le> p \<and> p < 2 ^ 31)"
proof -
  have "case url_parse ''ws://[::1]/'' url_init of Inr (ok, v) \<Rightarrow> ok | Inl _ \<Rightarrow> False" by code_simp
  then obtain v where v: "url_parse ''ws://[::1]/'' url_init = Inr (True, v)"
    by (auto split: sum.splits)
  moreover have "take (scan (\<lambda>c. c = CHR '':'') ''ws://[::1]/'') ''ws://[::1]/'' \<noteq> ''unix''" by code_simp
  ultimately show ?thesis using url_parse_port by blast
qed

section \<open>Printing and parsing back\<close>

text \<open>\<open>std::to_string\<close> on the decimal digits of a non-negative number.\<close>

fun nat_digits :: "nat \<Rightarrow> string" where
  "nat_digits n = (if n < 10 then [char_of (48 + n)] else nat_digits (n div 10) @ [char_of (48 + n mod 10)])"

declare nat_digits.simps [simp del]

definition to_string :: "int \<Rightarrow> string" where
  "to_string n = (if n < 0 then CHR ''-'' # nat_digits (nat (- n)) else nat_digits (nat n))"

lemma digit_char:
  assumes "n < 10"
  shows "is_digit (char_of (48 + n))" "of_char (char_of (48 + n)) = (48 + int n)"
proof -
  have cc: "cc (char_of (48 + n)) = 48 + n" using assms by simp
  then show "is_digit (char_of (48 + n))" using assms by (simp add: is_digit_def less_eq_char_def)
  have "(of_char (char_of (48 + n)) :: int) = int (cc (char_of (48 + n)))" by (simp only: of_nat_of_char)
  then show "of_char (char_of (48 + n)) = (48 + int n)" by (simp only: cc)
qed

lemma nat_digits_digit: "c \<in> set (nat_digits n) \<Longrightarrow> is_digit c"
proof (induction n rule: nat_digits.induct)
  case (1 n)
  have "n mod 10 < 10" by simp
  then show ?case
    using 1 digit_char(1) [of n] digit_char(1) [of "n mod 10"]
    by (auto simp: nat_digits.simps [of n] split: if_splits)
qed

lemma digits_value_append: "digits_value v (s @ [c]) = 10 * digits_value v s + (of_char c - 48)"
  by (induction v s rule: digits_value.induct) simp_all

lemma digits_value_nat_digits: "digits_value 0 (nat_digits n) = int n"
proof (induction n rule: nat_digits.induct)
  case (1 n)
  show ?case
  proof (cases "n < 10")
    case True
    then show ?thesis using digit_char(2) [OF True] by (simp add: nat_digits.simps [of n])
  next
    case False
    have "n mod 10 < 10" by simp
    note dc = digit_char(2) [OF this]
    have "10 * int (n div 10) + int (n mod 10) = int n" by presburger
    then show ?thesis
      using False 1 dc by (simp add: nat_digits.simps [of n] digits_value_append)
  qed
qed

lemma nat_digits_not_Nil [simp]: "nat_digits n \<noteq> []"
  by (simp add: nat_digits.simps [of n])

lemma is_digit_other: "is_digit c \<Longrightarrow> \<not> is_space c \<and> c \<noteq> CHR ''-'' \<and> c \<noteq> CHR ''+'' \<and> c \<noteq> NUL"
  by (auto simp: is_digit_def is_space_def less_eq_char_def)

lemma stoi_nat_digits: "int n < 2 ^ 31 \<Longrightarrow> stoi (nat_digits n) = Some (int n)"
proof -
  assume n: "int n < 2 ^ 31"
  have digits: "\<forall>c \<in> set (nat_digits n). is_digit c" using nat_digits_digit by blast
  then have "NUL \<notin> set (nat_digits n)" using is_digit_other by blast
  moreover obtain c s where cs: "nat_digits n = c # s" by (cases "nat_digits n") auto
  moreover have tw: "takeWhile is_digit s = s" using digits cs by (simp add: takeWhile_eq_all_conv)
  ultimately show ?thesis
    using n digits is_digit_other [of c] digits_value_nat_digits [of n]
    by (simp add: stoi_def Let_def tw)
qed

text \<open>Characters that end neither the host part nor the user part.\<close>

definition auth_char :: "char \<Rightarrow> bool" where
  "auth_char c \<longleftrightarrow> c \<noteq> CHR ''/'' \<and> c \<noteq> NUL \<and> c \<noteq> CHR ''#'' \<and> c \<noteq> CHR ''?'' \<and> c \<noteq> CHR ''@''"

lemma is_digit_auth: "is_digit c \<Longrightarrow> auth_char c"
  by (auto simp: is_digit_def auth_char_def)

lemma url_scan_authority_skip:
  "len \<le> length x \<Longrightarrow> \<forall>c \<in> set (drop len x). auth_char c \<Longrightarrow>
   url_scan_authority (x @ r) len ui = url_scan_authority (x @ r) (length x) ui"
proof (induction "length x - len" arbitrary: len)
  case (Suc k)
  then have "x ! len \<in> set (drop len x)" by (metis Cons_nth_drop_Suc list.set_intros(1) zero_less_Suc zero_less_diff)
  then have c: "auth_char (x ! len)" "len < length x" using Suc.prems Suc.hyps(2) by simp_all
  have "\<forall>c \<in> set (drop (Suc len) x). auth_char c"
    using Suc.prems(2) set_drop_subset_set_drop [of len "Suc len" x] by auto
  then have "url_scan_authority (x @ r) (Suc len) ui = url_scan_authority (x @ r) (length x) ui"
    using Suc.hyps c(2) by simp
  moreover have "url_scan_authority (x @ r) len ui = url_scan_authority (x @ r) (Suc len) ui"
    using c by (subst url_scan_authority.simps) (simp add: nth_append auth_char_def)
  ultimately show ?case by simp
qed simp

lemma url_scan_authority_stop:
  "c = CHR ''/'' \<or> c = NUL \<or> c = CHR ''#'' \<or> c = CHR ''?'' \<Longrightarrow>
   url_scan_authority (x @ c # r) (length x) ui = Inr (True, x @ c # r, length x, ui)"
  by (subst url_scan_authority.simps) auto

lemma url_scan_authority_at:
  "url_scan_authority (x @ CHR ''@'' # r) (length x) [] = url_scan_authority r 1 x"
  by (subst url_scan_authority.simps) simp

lemma url_scan_authority_user_host:
  assumes "\<forall>c \<in> set usr. auth_char c" "\<forall>c \<in> set h. auth_char c" "h \<noteq> []"
    and "e = CHR ''/'' \<or> e = NUL \<or> e = CHR ''#'' \<or> e = CHR ''?''"
  shows "url_scan_authority ((if usr = [] then [] else usr @ ''@'') @ h @ e # r) 0 [] =
    Inr (True, h @ e # r, length h, usr)"
proof (cases "usr = []")
  case True
  then show ?thesis
    using url_scan_authority_skip [of 0 h "e # r" "[]"] assms(2) url_scan_authority_stop [OF assms(4)] by simp
next
  case False
  have "\<forall>c \<in> set (drop 1 h). auth_char c" using assms(2) by (auto dest: in_set_dropD)
  then have "url_scan_authority (h @ e # r) 1 usr = Inr (True, h @ e # r, length h, usr)"
    using url_scan_authority_skip [of 1 h "e # r" usr] assms(3) url_scan_authority_stop [OF assms(4), of h r usr]
    by (simp add: Suc_le_eq)
  moreover have "url_scan_authority (usr @ CHR ''@'' # h @ e # r) 0 [] = url_scan_authority (h @ e # r) 1 usr"
    using url_scan_authority_skip [of 0 usr "CHR ''@'' # h @ e # r" "[]"] assms(1) url_scan_authority_at [of usr "h @ e # r"]
    by simp
  ultimately show ?thesis using False by simp
qed

text \<open>The URL text with all its parts.\<close>

definition url_text :: "string \<Rightarrow> string \<Rightarrow> string \<Rightarrow> nat \<Rightarrow> string \<Rightarrow> string" where
  "url_text sch usr hostn p req =
     sch @ ''://'' @ (if usr = [] then [] else usr @ ''@'') @ (hostn @ '':'' @ nat_digits p) @ req"

text \<open>Host names the parser does not treat specially.\<close>

definition host_ok :: "string \<Rightarrow> bool" where
  "host_ok h \<longleftrightarrow> (\<forall>c \<in> set h. auth_char c \<and> c \<noteq> CHR '':'') \<and> (h = [] \<or> hd h \<noteq> CHR ''['') \<and> h \<noteq> ''*''"

lemma scan_append:
  "\<forall>c \<in> set x. \<not> stop c \<and> c \<noteq> NUL \<Longrightarrow> stop c \<or> c = NUL \<Longrightarrow> scan stop (x @ c # r) = length x"
  by (auto simp: scan_def takeWhile_append2)

lemma url_split_host_text:
  assumes "host_ok h" "0 < p" "int p < 2 ^ 31" "u_host u = h @ '':'' @ nat_digits p"
  shows "url_split_host u = (True, u\<lparr>u_hostname := h, u_port := Some (int p)\<rparr>)"
proof -
  have h: "\<forall>c \<in> set h. c \<noteq> CHR '':'' \<and> c \<noteq> NUL"
    using assms(1) by (auto simp: host_ok_def auth_char_def)
  have first: "rd (h @ '':'' @ nat_digits p) 0 \<noteq> CHR ''[''"
    using assms(1) by (cases h) (simp_all add: host_ok_def)
  have nul: "NUL \<notin> set (nat_digits p)" using nat_digits_digit is_digit_other by blast
  have "scan (\<lambda>c. c = CHR '':'') (h @ CHR '':'' # nat_digits p) = length h"
    by (rule scan_append) (use h in auto)
  moreover have "rd (CHR '':'' # nat_digits p) 1 \<noteq> NUL"
    using nul by (cases "nat_digits p") auto
  ultimately show ?thesis
    using first nul assms(2-4) by (simp add: url_split_host_def Let_def stoi_nat_digits nport_def)
qed

lemma url_parse_text:
  assumes sch: "\<forall>c \<in> set sch. c \<noteq> CHR '':'' \<and> c \<noteq> NUL" "sch \<noteq> ''unix''"
    and usr: "\<forall>c \<in> set usr. auth_char c"
    and host: "host_ok h" "0 < p" "int p < 2 ^ 31"
    and req: "req = [] \<or> hd req \<in> {CHR ''/'', CHR ''#'', CHR ''?''}" "url_canonify_uri req = (0, req)"
    and v: "url_parse_requri req
      (url_init\<lparr>u_rawurl := url_text sch usr h p req, u_scheme := sch, u_userinfo := usr,
         u_host := h @ '':'' @ nat_digits p\<rparr>) = (True, v)"
  shows "url_parse (url_text sch usr h p req) url_init =
    Inr (True, v\<lparr>u_hostname := h, u_port := Some (int p)\<rparr>)"
proof -
  let ?host = "h @ '':'' @ nat_digits p" and ?usr = "if usr = [] then [] else usr @ ''@''"
  have url: "url_text sch usr h p req = sch @ CHR '':'' # ''//'' @ ?usr @ ?host @ req"
    by (simp add: url_text_def)
  have len: "scan (\<lambda>c. c = CHR '':'') (url_text sch usr h p req) = length sch"
    unfolding url by (rule scan_append) (use sch in auto)
  have sep: "strncmp_eq (url_text sch usr h p req) (length sch) ''://''"
    by (simp add: url rd_def nth_append)
  obtain e r where er: "req @ [NUL] = e # r" "e = CHR ''/'' \<or> e = NUL \<or> e = CHR ''#'' \<or> e = CHR ''?''"
    using req(1) by (cases req) auto
  have "\<forall>c \<in> set h. auth_char c" "\<forall>c \<in> set (nat_digits p). auth_char c"
    using host(1) nat_digits_digit is_digit_auth by (auto simp: host_ok_def)
  then have auth: "\<forall>c \<in> set ?host. auth_char c" by (auto simp: auth_char_def)
  have "drop (length sch + 3) (url_text sch usr h p req @ [NUL]) = ?usr @ ?host @ e # r"
    by (simp add: url er(1) [symmetric] numeral_3_eq_3)
  then have scan: "url_scan_authority (drop (length sch + 3) (url_text sch usr h p req @ [NUL])) 0 []
      = Inr (True, ?host @ e # r, length ?host, usr)"
    using url_scan_authority_user_host [OF usr auth _ er(2), of r] by simp
  have star: "\<not> strncmp_eq (?host @ e # r) 0 ''*:''" "length ?host \<noteq> 1"
    using host(1) by (cases h; cases "tl h"; auto simp: host_ok_def)+
  have canon: "url_parse_requri (e # r) w = url_parse_requri req w" for w
    unfolding er(1) [symmetric] by (simp add: url_parse_requri_def url_canonify_uri_def cstr_append_last)
  have sch': "take (length sch) (url_text sch usr h p req) = sch" by (simp add: url)
  have "u_host v = ?host" using url_parse_requri_frame [OF v] by simp
  note split = url_split_host_text [OF host this]
  define hh where "hh = ?host"
  show ?thesis
    using v len sep scan star sch(2) split sch'
    unfolding hh_def [symmetric]
    by (simp add: url_parse_def url_init_def canon del: strncmp_eq.simps)
qed

text \<open>
  C9. Round trip: a URL text assembled from a scheme, an optional user, a host name, a decimal
  port and a canonical request URI is accepted, and the parser returns exactly these parts.
\<close>

theorem url_parse_roundtrip:
  assumes "\<forall>c \<in> set sch. c \<noteq> CHR '':'' \<and> c \<noteq> NUL" "sch \<noteq> ''unix''"
    and "\<forall>c \<in> set usr. auth_char c"
    and "host_ok h" "0 < p" "int p < 2 ^ 31"
    and "req = [] \<or> hd req \<in> {CHR ''/'', CHR ''#'', CHR ''?''}" "url_canonify_uri req = (0, req)"
  shows "\<exists>v. url_parse (url_text sch usr h p req) url_init = Inr (True, v)
    \<and> u_scheme v = sch \<and> u_userinfo v = usr \<and> u_hostname v = h \<and> u_port v = Some (int p)
    \<and> u_requri v = req \<and> u_path v = path_of req"
proof -
  let ?u = "url_init\<lparr>u_rawurl := url_text sch usr h p req, u_scheme := sch, u_userinfo := usr,
         u_host := h @ '':'' @ nat_digits p\<rparr>"
  obtain v where v: "url_parse_requri req ?u = (True, v)"
    using url_parse_requri_accepts [of req ?u] assms(8) by (metis fst_conv prod.collapse)
  then have "u_requri v = req" "u_path v = path_of req"
    using url_parse_requri_success [OF v] assms(8) by simp_all
  moreover have "u_scheme v = sch" "u_userinfo v = usr"
    using url_parse_requri_frame [OF v] by simp_all
  ultimately show ?thesis
    using url_parse_text [OF assms v] by simp
qed

theorem url_parse_roundtrip_witness:
  "\<exists>v. url_parse (url_text ''http'' ''me'' ''example.org'' 8080 ''/a?b#c'') url_init = Inr (True, v)
    \<and> u_scheme v = ''http'' \<and> u_userinfo v = ''me'' \<and> u_hostname v = ''example.org''
    \<and> u_port v = Some (int 8080) \<and> u_requri v = ''/a?b#c'' \<and> u_path v = path_of ''/a?b#c''"
proof (rule url_parse_roundtrip)
  show "url_canonify_uri ''/a?b#c'' = (0, ''/a?b#c'')" by code_simp
qed (simp_all add: auth_char_def host_ok_def)

end
