(* ===== verification/Std_Map.thy ===== *)
theory Std_Map
  imports Prelude
begin

text \<open>
  \<open>std::map\<close> with a user-supplied comparison, as a sorted association list: \<open>emplace\<close> keeps the
  first entry of an equivalence class, \<open>find\<close> uses the comparison only, and iteration visits the
  keys in ascending order.  The laws of the comparison are the locale \<open>strict_weak_order\<close>;
  it is interpreted on \<open>std::less<std::string>\<close> here and on \<open>ci_less\<close> in theory Mime.
\<close>

fun smap_emplace :: "('k \<Rightarrow> 'k \<Rightarrow> bool) \<Rightarrow> 'k \<Rightarrow> 'v \<Rightarrow> ('k \<times> 'v) list \<Rightarrow> ('k \<times> 'v) list" where
  "smap_emplace lt k v [] = [(k, v)]"
| "smap_emplace lt k v (e # m) =
     (if lt k (fst e) then (k, v) # e # m
      else if lt (fst e) k then e # smap_emplace lt k v m
      else e # m)"

fun smap_find :: "('k \<Rightarrow> 'k \<Rightarrow> bool) \<Rightarrow> 'k \<Rightarrow> ('k \<times> 'v) list \<Rightarrow> 'v option" where
  "smap_find lt k [] = None"
| "smap_find lt k (e # m) =
     (if lt (fst e) k then smap_find lt k m
      else if lt k (fst e) then None
      else Some (snd e))"

text \<open>Construction from an initialiser list, element by element.\<close>

fun smap_insert_all :: "('k \<Rightarrow> 'k \<Rightarrow> bool) \<Rightarrow> ('k \<times> 'v) list \<Rightarrow> ('k \<times> 'v) list \<Rightarrow> ('k \<times> 'v) list" where
  "smap_insert_all lt [] m = m"
| "smap_insert_all lt (e # es) m = smap_insert_all lt es (smap_emplace lt (fst e) (snd e) m)"

definition smap_ordered :: "('k \<Rightarrow> 'k \<Rightarrow> bool) \<Rightarrow> ('k \<times> 'v) list \<Rightarrow> bool" where
  "smap_ordered lt m \<longleftrightarrow> sorted_wrt lt (map fst m)"

text \<open>Neither key is less than the other: the map's notion of equal keys.\<close>

definition key_equiv :: "('k \<Rightarrow> 'k \<Rightarrow> bool) \<Rightarrow> 'k \<Rightarrow> 'k \<Rightarrow> bool" where
  "key_equiv lt x y \<longleftrightarrow> \<not> lt x y \<and> \<not> lt y x"

text \<open>Reference lookup: the first entry with an equivalent key.\<close>

fun first_match :: "('k \<Rightarrow> 'k \<Rightarrow> bool) \<Rightarrow> 'k \<Rightarrow> ('k \<times> 'v) list \<Rightarrow> 'v option" where
  "first_match lt k [] = None"
| "first_match lt k (e # es) = (if key_equiv lt (fst e) k then Some (snd e) else first_match lt k es)"

lemma set_smap_emplace: "set (smap_emplace lt k v m) \<subseteq> insert (k, v) (set m)"
  by (induction m) auto

lemma smap_ordered_Nil [simp]: "smap_ordered lt []"
  by (simp add: smap_ordered_def)

lemma smap_ordered_Cons:
  "smap_ordered lt (e # m) \<longleftrightarrow> (\<forall>x \<in> set m. lt (fst e) (fst x)) \<and> smap_ordered lt m"
  by (auto simp: smap_ordered_def)

locale strict_weak_order =
  fixes lt :: "'k \<Rightarrow> 'k \<Rightarrow> bool"
  assumes irrefl: "\<not> lt x x"
    and trans: "lt x y \<Longrightarrow> lt y z \<Longrightarrow> lt x z"
    and equiv_trans: "key_equiv lt x y \<Longrightarrow> key_equiv lt y z \<Longrightarrow> key_equiv lt x z"
begin

lemma asym: "lt x y \<Longrightarrow> \<not> lt y x"
  using trans irrefl by blast

lemma equiv_refl: "key_equiv lt x x"
  by (simp add: key_equiv_def irrefl)

lemma equiv_sym: "key_equiv lt x y \<Longrightarrow> key_equiv lt y x"
  by (simp add: key_equiv_def)

lemma less_equiv_left: "key_equiv lt x y \<Longrightarrow> lt x z \<longleftrightarrow> lt y z"
  using trans equiv_trans by (metis key_equiv_def)

lemma less_equiv_right: "key_equiv lt x y \<Longrightarrow> lt z x \<longleftrightarrow> lt z y"
  using trans equiv_trans by (metis key_equiv_def)

lemma emplace_ordered: "smap_ordered lt m \<Longrightarrow> smap_ordered lt (smap_emplace lt k v m)"
proof (induction m)
  case (Cons e m)
  show ?case
  proof (cases "lt k (fst e)")
    case True
    then show ?thesis using Cons.prems trans by (fastforce simp: smap_ordered_Cons)
  next
    case False
    then show ?thesis
      using Cons set_smap_emplace [of lt k v m] by (fastforce simp: smap_ordered_Cons)
  qed
qed (simp add: smap_ordered_Cons)

lemma find_below: "smap_ordered lt m \<Longrightarrow> \<forall>e \<in> set m. lt k (fst e) \<Longrightarrow> smap_find lt k m = None"
  by (induction m) (auto simp: smap_ordered_Cons dest: asym)

lemma find_equiv: "key_equiv lt k k' \<Longrightarrow> smap_find lt k m = smap_find lt k' m"
  by (induction m) (auto simp: less_equiv_left [of k k'] less_equiv_right [of k k'])

lemma find_emplace:
  "smap_ordered lt m \<Longrightarrow> smap_find lt k' (smap_emplace lt k v m) =
     (case smap_find lt k' m of Some w \<Rightarrow> Some w | None \<Rightarrow> if key_equiv lt k k' then Some v else None)"
proof (induction m)
  case Nil
  then show ?case by (auto simp: key_equiv_def)
next
  case (Cons e m)
  show ?case
  proof (cases "lt k (fst e)")
    case True
    have "key_equiv lt k k' \<Longrightarrow> smap_find lt k' (e # m) = None"
      using True less_equiv_left [of k k'] asym by simp
    moreover have "lt k' k \<Longrightarrow> smap_find lt k' (e # m) = None"
      using True trans [of k' k "fst e"] asym by simp
    ultimately show ?thesis
      using True by (auto simp: key_equiv_def split: option.split)
  next
    case False
    show ?thesis
    proof (cases "lt (fst e) k")
      case True
      then show ?thesis
        using Cons False less_equiv_right [of k k' "fst e"]
        by (auto simp: smap_ordered_Cons key_equiv_def split: option.split)
    next
      case eq: False
      then have "key_equiv lt k k' \<Longrightarrow> smap_find lt k' (e # m) \<noteq> None"
        using False less_equiv_left [of k k' "fst e"] less_equiv_right [of k k' "fst e"] by simp
      then show ?thesis using False eq
        by (auto simp del: smap_find.simps simp: smap_emplace.simps split: option.split)
    qed
  qed
qed

lemma insert_all_ordered: "smap_ordered lt m \<Longrightarrow> smap_ordered lt (smap_insert_all lt es m)"
  by (induction es arbitrary: m) (auto simp: emplace_ordered)

lemma find_insert_all:
  "smap_ordered lt m \<Longrightarrow> smap_find lt k (smap_insert_all lt es m) =
     (case smap_find lt k m of Some w \<Rightarrow> Some w | None \<Rightarrow> first_match lt k es)"
proof (induction es arbitrary: m)
  case (Cons e es)
  then show ?case
    using find_emplace [OF Cons.prems, of k "fst e" "snd e"] emplace_ordered [OF Cons.prems]
    by (auto split: option.splits)
qed (simp split: option.split)

text \<open>A map built from an initialiser list finds the first entry with an equivalent key.\<close>

lemma find_initialiser: "smap_find lt k (smap_insert_all lt es []) = first_match lt k es"
  using find_insert_all [of "[]" k es] by simp

end

text \<open>
  For a total order equivalent keys are equal: the map is a partial function, determined by its
  entries, and filling one with them in any order gives it back.
\<close>

locale strict_total_order = strict_weak_order +
  assumes total: "\<not> lt x y \<Longrightarrow> \<not> lt y x \<Longrightarrow> x = y"
begin

lemma equiv_eq: "key_equiv lt x y \<longleftrightarrow> x = y"
  using total irrefl by (auto simp: key_equiv_def)

lemma find_emplace_eq:
  "smap_ordered lt m \<Longrightarrow> smap_find lt k' (smap_emplace lt k v m) =
     (if k = k' \<and> smap_find lt k' m = None then Some v else smap_find lt k' m)"
  by (auto simp: find_emplace equiv_eq split: option.split)

lemma first_match_map_of: "first_match lt k es = map_of es k"
  by (induction es) (auto simp: equiv_eq)

text \<open>A map filled by \<open>emplace\<close> keeps the first value of a key.\<close>

lemma find_initialiser_map_of: "smap_find lt k (smap_insert_all lt es []) = map_of es k"
  by (simp add: find_initialiser first_match_map_of)

lemma ordered_distinct: "smap_ordered lt m \<Longrightarrow> distinct (map fst m)"
  by (induction m) (auto simp: smap_ordered_Cons irrefl)

lemma ordered_unique: "smap_ordered lt m \<Longrightarrow> smap_ordered lt m' \<Longrightarrow> set m = set m' \<Longrightarrow> m = m'"
proof (induction m arbitrary: m')
  case (Cons e m)
  obtain e' n where m': "m' = e' # n" using Cons.prems(3) by (cases m') auto
  have lt: "\<forall>x \<in> set m. lt (fst e) (fst x)" "\<forall>x \<in> set n. lt (fst e') (fst x)"
    using Cons.prems(1,2) by (auto simp: m' smap_ordered_Cons)
  have "e = e' \<or> lt (fst e') (fst e)" "e' = e \<or> lt (fst e) (fst e')"
    using Cons.prems(3) lt by (force simp: m')+
  then have eq: "e = e'" using asym by blast
  have "e \<notin> set m" "e' \<notin> set n" using lt irrefl by auto
  then have "set m = set n" using Cons.prems(3) unfolding m' eq by auto
  then show ?case using Cons.IH [of n] Cons.prems(1,2) by (simp add: m' eq smap_ordered_Cons)
qed simp

lemma find_map_of: "smap_ordered lt m \<Longrightarrow> smap_find lt k m = map_of m k"
proof (induction m)
  case (Cons e m)
  then have "lt k (fst e) \<Longrightarrow> map_of m k = None"
    by (auto simp: smap_ordered_Cons map_of_eq_None_iff dest: asym)
  then show ?case using Cons total irrefl by (cases e) (auto simp: smap_ordered_Cons dest: asym)
qed simp

lemma insert_all_perm:
  assumes "smap_ordered lt m" "distinct (map fst es)" "set es = set m"
  shows "smap_insert_all lt es [] = m"
proof (rule ordered_unique [OF _ assms(1)])
  show ord: "smap_ordered lt (smap_insert_all lt es [])" by (simp add: insert_all_ordered)
  have "map_of (smap_insert_all lt es []) = map_of es"
    using find_initialiser_map_of [of _ es] find_map_of [OF ord] by (metis ext)
  then show "set (smap_insert_all lt es []) = set m"
    using map_of_inject_set [OF ordered_distinct [OF ord] assms(2)] assms(3) by simp
qed

end

text \<open>\<open>std::less<std::string>\<close>.\<close>

interpretation std_less: strict_total_order "(<) :: string \<Rightarrow> string \<Rightarrow> bool"
  by unfold_locales (auto simp: key_equiv_def)

declare std_less.equiv_eq [simp]

end
