(* ===== verification/Http.thy ===== *)
theory Http
  imports Url Std_Map
begin

text \<open>
  The vocabulary of HTTP messages the server, the router and the client share: the verbs the
  sources name, requests as the values their accessors return, and responses with the fields
  set on them.  The message classes themselves are Boost.Beast's; only what the sources call
  on them is here.
\<close>

datatype verb = Verb_unknown | Verb_get | Verb_head | Verb_post | Verb_put | Verb_patch | Verb_delete
  | Verb_other nat

record request =
  req_method :: verb
  req_target :: string
  req_version :: nat
  req_keep_alive :: bool
  req_fields :: "(string \<times> string) list"
  req_body :: string

record response =
  res_status :: nat
  res_version :: nat
  res_keep_alive :: bool
  res_fields :: "(string \<times> string) list"
  res_body :: string

text \<open>\<open>set(name, value)\<close> replaces every field of that name; \<open>operator[]\<close> reads the first one.\<close>

definition set_field :: "string \<Rightarrow> string \<Rightarrow> (string \<times> string) list \<Rightarrow> (string \<times> string) list" where
  "set_field k v fs = filter (\<lambda>f. map to_lower (fst f) \<noteq> map to_lower k) fs @ [(k, v)]"

definition get_field :: "string \<Rightarrow> (string \<times> string) list \<Rightarrow> string" where
  "get_field k fs =
     (case List.find (\<lambda>f. map to_lower (fst f) = map to_lower k) fs of None \<Rightarrow> [] | Some f \<Rightarrow> snd f)"

definition content_length :: "nat \<Rightarrow> response \<Rightarrow> response" where
  "content_length n r = r\<lparr>res_fields := set_field ''Content-Length'' (nat_digits n) (res_fields r)\<rparr>"

lemma get_set_field:
  "get_field k' (set_field k v fs) =
     (if map to_lower k = map to_lower k' then v else get_field k' fs)"
proof -
  have "List.find P (filter Q fs @ [x]) = (case List.find P fs of Some y \<Rightarrow> Some y | None \<Rightarrow> if P x then Some x else None)"
    if "\<forall>y. P y \<longrightarrow> Q y" for P Q :: "string \<times> string \<Rightarrow> bool" and x
    using that by (induction fs) auto
  moreover have "List.find P (filter Q fs @ [x]) = Some x"
    if "\<forall>y. P y \<longrightarrow> \<not> Q y" "P x" for P Q :: "string \<times> string \<Rightarrow> bool" and x
    using that by (induction fs) auto
  ultimately show ?thesis
    by (auto simp: get_field_def set_field_def split: option.split)
qed

end
