(* ===== verification/Std_Regex.thy ===== *)
theory Std_Regex
  imports Prelude
begin

text \<open>
  The part of \<open>std::regex\<close> (ECMAScript grammar) the program uses: literals, \<open>.\<close>, the classes
  \<open>\s \S \d \w\<close>, the quantifiers \<open>* + ?\<close> and their lazy forms on single characters, capturing
  groups, optional groups, and the anchors around the whole expression.  Anything else is
  outside the model and \<open>rx_compile\<close> answers \<open>None\<close>, as it does for malformed expressions.
  \<open>rx_match\<close> enumerates the matches in backtracking order; \<open>rx_acc\<close> says which words an expression
  accepts, and the two are proved to agree.
\<close>

section \<open>Expressions\<close>

datatype cset = Is char | Any | Space | NotSpace | Digit | WordChar

datatype rx =
    REmpty
  | RChar cset
  | RSeq rx rx
  | RGroup rx
  | ROpt rx
  | RRep bool nat cset

text \<open>\<open>RRep greedy n cs\<close> is a repetition of at least \<open>n\<close> characters of \<open>cs\<close>.\<close>

fun cset_mem :: "bool \<Rightarrow> cset \<Rightarrow> char \<Rightarrow> bool" where
  "cset_mem icase (Is d) c = (if icase then to_lower c = to_lower d else c = d)"
| "cset_mem icase Any c = (c \<noteq> LF \<and> c \<noteq> CR)"
| "cset_mem icase Space c = is_space c"
| "cset_mem icase NotSpace c = (\<not> is_space c)"
| "cset_mem icase Digit c = is_digit c"
| "cset_mem icase WordChar c =
     (is_digit c \<or> CHR ''a'' \<le> to_lower c \<and> to_lower c \<le> CHR ''z'' \<or> c = CHR ''_'')"

fun rx_groups :: "rx \<Rightarrow> nat" where
  "rx_groups REmpty = 0"
| "rx_groups (RChar cs) = 0"
| "rx_groups (RSeq a b) = rx_groups a + rx_groups b"
| "rx_groups (RGroup a) = Suc (rx_groups a)"
| "rx_groups (ROpt a) = rx_groups a"
| "rx_groups (RRep g n cs) = 0"

section \<open>Matching\<close>

text \<open>
  All matches of a prefix of the subject, in the order in which the backtracking matcher tries
  them, each with the captured groups and the rest of the subject.
\<close>

fun rx_match :: "bool \<Rightarrow> rx \<Rightarrow> string \<Rightarrow> (string option list \<times> string) list" where
  "rx_match ic REmpty s = [([], s)]"
| "rx_match ic (RChar cs) s = (case s of [] \<Rightarrow> [] | c # t \<Rightarrow> if cset_mem ic cs c then [([], t)] else [])"
| "rx_match ic (RSeq a b) s =
     concat (map (\<lambda>(ca, t). map (\<lambda>(cb, u). (ca @ cb, u)) (rx_match ic b t)) (rx_match ic a s))"
| "rx_match ic (RGroup a) s =
     map (\<lambda>(ca, t). (Some (take (length s - length t) s) # ca, t)) (rx_match ic a s)"
| "rx_match ic (ROpt a) s = rx_match ic a s @ [(replicate (rx_groups a) None, s)]"
| "rx_match ic (RRep greedy n cs) s =
     (let ks = [n ..< Suc (length (takeWhile (cset_mem ic cs) s))]
      in map (\<lambda>k. ([], drop k s)) (if greedy then rev ks else ks))"

text \<open>\<open>std::regex_match\<close>: the first match that uses the whole subject; \<open>cm[1]\<close> and so on.\<close>

definition regex_match :: "bool \<Rightarrow> rx \<Rightarrow> string \<Rightarrow> string option list option" where
  "regex_match ic r s = map_option fst (List.find (\<lambda>(cs, t). t = []) (rx_match ic r s))"

text \<open>\<open>sub_match::str()\<close>: a group that took no part is the empty string.\<close>

definition sub_str :: "string option \<Rightarrow> string" where
  "sub_str g = (case g of None \<Rightarrow> [] | Some s \<Rightarrow> s)"

section \<open>The words an expression accepts\<close>

inductive rx_acc :: "bool \<Rightarrow> rx \<Rightarrow> string \<Rightarrow> string option list \<Rightarrow> bool" where
  acc_empty: "rx_acc ic REmpty [] []"
| acc_char: "cset_mem ic cs c \<Longrightarrow> rx_acc ic (RChar cs) [c] []"
| acc_seq: "rx_acc ic a u ca \<Longrightarrow> rx_acc ic b v cb \<Longrightarrow> w = u @ v \<Longrightarrow> c = ca @ cb \<Longrightarrow> rx_acc ic (RSeq a b) w c"
| acc_group: "rx_acc ic a u ca \<Longrightarrow> rx_acc ic (RGroup a) u (Some u # ca)"
| acc_some: "rx_acc ic a u ca \<Longrightarrow> rx_acc ic (ROpt a) u ca"
| acc_none: "rx_acc ic (ROpt a) [] (replicate (rx_groups a) None)"
| acc_rep: "n \<le> length u \<Longrightarrow> list_all (cset_mem ic cs) u \<Longrightarrow> rx_acc ic (RRep g n cs) u []"

inductive_simps rx_acc_simps:
  "rx_acc ic REmpty u c"
  "rx_acc ic (RChar cs) u c"
  "rx_acc ic (RSeq a b) u c"
  "rx_acc ic (RGroup a) u c"
  "rx_acc ic (ROpt a) u c"
  "rx_acc ic (RRep g n cs) u c"

lemma rx_match_suffix: "(c, t) \<in> set (rx_match ic r s) \<Longrightarrow> \<exists>u. s = u @ t"
proof (induction r arbitrary: c t s)
  case (RSeq a b)
  then show ?case by (fastforce dest: RSeq.IH)
next
  case (RRep g n cs)
  then show ?case by (auto simp: Let_def intro: append_take_drop_id [symmetric] split: if_splits)
qed (auto split: list.splits if_splits)

lemma rep_words:
  "(\<exists>k. n \<le> k \<and> k \<le> length (takeWhile P s) \<and> t = drop k s) \<longleftrightarrow>
     (\<exists>u. s = u @ t \<and> n \<le> length u \<and> list_all P u)"
proof
  assume "\<exists>k. n \<le> k \<and> k \<le> length (takeWhile P s) \<and> t = drop k s"
  then obtain k where k: "n \<le> k" "k \<le> length (takeWhile P s)" "t = drop k s" by blast
  have "take k s = take k (takeWhile P s)"
    using k(2) by (metis append_eq_conv_conj takeWhile_eq_take take_take min.absorb1)
  then have "list_all P (take k s)" by (auto simp: list_all_iff dest: in_set_takeD set_takeWhileD)
  moreover have "length (take k s) = k"
    using k(2) length_takeWhile_le [of P s] by simp
  ultimately show "\<exists>u. s = u @ t \<and> n \<le> length u \<and> list_all P u"
    using k by (intro exI [of _ "take k s"]) simp
next
  assume "\<exists>u. s = u @ t \<and> n \<le> length u \<and> list_all P u"
  then obtain u where u: "s = u @ t" "n \<le> length u" "list_all P u" by blast
  then have "takeWhile P s = u @ takeWhile P t" by (simp add: list_all_iff)
  with u show "\<exists>k. n \<le> k \<and> k \<le> length (takeWhile P s) \<and> t = drop k s"
    by (intro exI [of _ "length u"]) simp
qed

lemma rx_match_seq:
  "(c, t) \<in> set (rx_match ic (RSeq a b) s) \<longleftrightarrow>
     (\<exists>ca m cb. (ca, m) \<in> set (rx_match ic a s) \<and> (cb, t) \<in> set (rx_match ic b m) \<and> c = ca @ cb)"
  by force

text \<open>The matcher finds exactly the accepted prefixes, with the right captures.\<close>

lemma rx_match_acc: "(c, t) \<in> set (rx_match ic r s) \<longleftrightarrow> (\<exists>u. s = u @ t \<and> rx_acc ic r u c)"
proof (induction r arbitrary: c t s)
  case (RChar cs)
  then show ?case by (auto simp: rx_acc_simps split: list.splits if_splits)
next
  case (RSeq a b)
  have "(c, t) \<in> set (rx_match ic (RSeq a b) s) \<longleftrightarrow>
      (\<exists>u v ca cb. s = u @ v @ t \<and> rx_acc ic a u ca \<and> rx_acc ic b v cb \<and> c = ca @ cb)"
    unfolding rx_match_seq RSeq.IH by blast
  then show ?case unfolding rx_acc_simps by (metis append.assoc)
next
  case (RGroup a)
  have "(c, t) \<in> set (rx_match ic (RGroup a) s) \<longleftrightarrow>
      (\<exists>ca. (ca, t) \<in> set (rx_match ic a s) \<and> c = Some (take (length s - length t) s) # ca)"
    by force
  then show ?case by (auto simp: rx_acc_simps RGroup.IH)
next
  case (ROpt a)
  show ?case by (auto simp: rx_acc_simps ROpt.IH)
next
  case (RRep g n cs)
  have "(c, t) \<in> set (rx_match ic (RRep g n cs) s) \<longleftrightarrow>
      c = [] \<and> (\<exists>k. n \<le> k \<and> k \<le> length (takeWhile (cset_mem ic cs) s) \<and> t = drop k s)"
    by (auto simp: Let_def image_iff less_Suc_eq_le)
  then show ?case by (auto simp: rx_acc_simps rep_words)
qed (auto simp: rx_acc_simps)

lemma find_SomeD: "List.find P xs = Some x \<Longrightarrow> x \<in> set xs \<and> P x"
  by (induction xs) (auto split: if_splits)

lemma regex_match_sound: "regex_match ic r s = Some c \<Longrightarrow> rx_acc ic r s c"
  using rx_match_acc [of c "[]" ic r s] by (auto simp: regex_match_def dest: find_SomeD)

lemma regex_match_complete: "rx_acc ic r s c \<Longrightarrow> regex_match ic r s \<noteq> None"
  unfolding regex_match_def using rx_match_acc [of c "[]" ic r s] by (auto simp: find_None_iff)

lemma rx_acc_groups: "rx_acc ic r s c \<Longrightarrow> length c = rx_groups r"
  by (induction rule: rx_acc.induct) auto

section \<open>Reading an expression\<close>

definition rx_plain :: "char \<Rightarrow> bool" where
  "rx_plain c \<longleftrightarrow> c \<notin> set ''^$.*+?()[]{}|'' \<and> c \<noteq> CHR 0x5C \<and> c \<noteq> NUL"

text \<open>The quantifier after a single character.\<close>

fun rx_quant :: "cset \<Rightarrow> string \<Rightarrow> (rx \<times> string) option" where
  "rx_quant cs (c # s) =
     (if c = CHR ''*'' \<or> c = CHR ''+'' then
        (let n = (if c = CHR ''*'' then 0 else 1)
         in case s of
              d # t \<Rightarrow> if d = CHR ''?'' then Some (RRep False n cs, t) else Some (RRep True n cs, s)
            | [] \<Rightarrow> Some (RRep True n cs, s))
      else if c = CHR ''?'' then
        (case s of
           d # t \<Rightarrow> if d = CHR ''?'' then None else Some (ROpt (RChar cs), s)
         | [] \<Rightarrow> Some (ROpt (RChar cs), s))
      else if c = CHR ''{'' then None
      else Some (RChar cs, c # s))"
| "rx_quant cs [] = Some (RChar cs, [])"

lemma rx_quant_length: "rx_quant cs s = Some (r, t) \<Longrightarrow> length t \<le> length s"
  by (induction cs s rule: rx_quant.induct) (auto simp: Let_def split: list.splits if_splits)

text \<open>What follows a closing parenthesis.\<close>

definition rx_close :: "rx \<Rightarrow> string \<Rightarrow> (rx \<times> string) option" where
  "rx_close r s =
     (case s of
        c # t \<Rightarrow>
          if c = CHR ''?'' then (if rd t 0 = CHR ''?'' then None else Some (ROpt r, t))
          else if c = CHR ''*'' \<or> c = CHR ''+'' \<or> c = CHR ''{'' then None
          else Some (r, s)
      | [] \<Rightarrow> Some (r, s))"

lemma rx_close_length: "rx_close q s = Some (r, t) \<Longrightarrow> length t \<le> length s"
  by (auto simp: rx_close_def split: list.splits if_splits)

fun rx_escape :: "char \<Rightarrow> cset option" where
  "rx_escape c =
     (if c = CHR ''s'' then Some Space
      else if c = CHR ''S'' then Some NotSpace
      else if c = CHR ''d'' then Some Digit
      else if c = CHR ''w'' then Some WordChar
      else if \<not> rx_plain c \<and> c \<noteq> NUL \<or> c = CHR ''/'' then Some (Is c)
      else None)"

text \<open>
  The reader keeps a stack of open groups, each with its kind (\<open>True\<close> for a capturing one) and
  the expression read before the group was opened; \<open>cur\<close> is the expression read since.
\<close>

function rx_parse :: "(bool \<times> rx) list \<Rightarrow> rx \<Rightarrow> string \<Rightarrow> rx option" where
  "rx_parse stack cur [] = None"
| "rx_parse stack cur (c # s) =
     (if c = CHR ''$'' then (if s = [] \<and> stack = [] then Some cur else None)
      else if c = CHR ''('' then
        (if rd s 0 = CHR ''?''
         then (if rd s 1 = CHR '':'' then rx_parse ((False, cur) # stack) REmpty (drop 2 s) else None)
         else rx_parse ((True, cur) # stack) REmpty s)
      else if c = CHR '')'' then
        (case stack of
           [] \<Rightarrow> None
         | (capturing, before) # stack' \<Rightarrow>
             (case rx_close (if capturing then RGroup cur else cur) s of
                None \<Rightarrow> None
              | Some (r, t) \<Rightarrow> rx_parse stack' (RSeq before r) t))
      else if c = CHR 0x5C then
        (case s of
           [] \<Rightarrow> None
         | d # t \<Rightarrow>
             (case rx_escape d of
                None \<Rightarrow> None
              | Some cs \<Rightarrow>
                  (case rx_quant cs t of None \<Rightarrow> None | Some (r, u) \<Rightarrow> rx_parse stack (RSeq cur r) u)))
      else if c = CHR ''.'' then
        (case rx_quant Any s of None \<Rightarrow> None | Some (r, u) \<Rightarrow> rx_parse stack (RSeq cur r) u)
      else if rx_plain c then
        (case rx_quant (Is c) s of None \<Rightarrow> None | Some (r, u) \<Rightarrow> rx_parse stack (RSeq cur r) u)
      else None)"
  by pat_completeness auto
termination
  by (relation "measure (\<lambda>(stack, cur, s). length s)") (auto dest: rx_quant_length rx_close_length)

text \<open>\<open>std::regex re(text)\<close>, for a text anchored at both ends.\<close>

definition rx_compile :: "string \<Rightarrow> rx option" where
  "rx_compile s = (case s of [] \<Rightarrow> None | c # t \<Rightarrow> if c = CHR ''^'' then rx_parse [] REmpty t else None)"

end
