(* ===== verification/Router.thy ===== *)
theory Router
  imports Http Std_Regex
begin

text \<open>
  The router of src/http/router.cpp and include/ccl2/http/router.h: the translation of a path
  template into a regular expression with its parameter names, the query-string loop, the
  application of a rule to a path, the route table, and the dispatch of a request.
\<close>

section \<open>Path templates\<close>

record rule_t =
  keys :: "string list"
  re :: rx

text \<open>
  The exceptions of \<open>http_router_path_parse\<close>: its own \<open>runtime_error\<close>, and an expression that
  \<open>std::regex\<close> rejects or that is outside the modelled grammar.
\<close>

datatype route_error = Empty_param_name string | Bad_regex

definition find_from :: "char \<Rightarrow> string \<Rightarrow> nat \<Rightarrow> nat option" where
  "find_from c s i =
     (let n = i + length (takeWhile (\<lambda>x. x \<noteq> c) (drop i s)) in if n < length s then Some n else None)"

text \<open>The end of a parameter: \<open>npos\<close> makes \<open>substr\<close> and \<open>replace\<close> run to the end of the string.\<close>

definition param_end :: "string \<Rightarrow> nat option \<Rightarrow> nat option \<Rightarrow> nat" where
  "param_end s slash next_colon =
     (case (slash, next_colon) of
        (None, None) \<Rightarrow> length s
      | (Some a, None) \<Rightarrow> a
      | (None, Some b) \<Rightarrow> b
      | (Some a, Some b) \<Rightarrow> min a b)"

definition param_re :: string where
  "param_re = [CHR ''('', CHR 0x5C, CHR ''S'', CHR ''+'', CHR '')'']"

lemma find_from_Some:
  assumes "find_from c s i = Some p"
  shows "i \<le> p" "p < length s" "s ! p = c"
proof -
  let ?n = "length (takeWhile (\<lambda>x. x \<noteq> c) (drop i s))"
  have p: "p = i + ?n" "i + ?n < length s"
    using assms by (auto simp: find_from_def Let_def split: if_splits)
  then have "\<not> (drop i s ! ?n \<noteq> c)" by (intro nth_length_takeWhile) simp
  with p show "i \<le> p" "p < length s" "s ! p = c" by auto
qed

definition colons :: "string \<Rightarrow> nat" where
  "colons s = length (filter (\<lambda>c. c = CHR '':'') s)"

lemma colons_drop_mono: "i \<le> j \<Longrightarrow> colons (drop j s) \<le> colons (drop i s)"
proof -
  assume "i \<le> j"
  then have "drop i s = take (j - i) (drop i s) @ drop j s"
    by (metis append_take_drop_id drop_drop le_add_diff_inverse2)
  then show ?thesis by (metis colons_def filter_append le_add2 length_append)
qed

text \<open>
  The loop rewrites \<open>regex\<close> in place, from the position of the last colon; \<open>None\<close> is the thrown
  exception.
\<close>

function path_parse_loop :: "string \<Rightarrow> nat \<Rightarrow> string list \<Rightarrow> (string \<times> string list) option" where
  "path_parse_loop regex start_pos ks =
     (case find_from CHR '':'' regex start_pos of
        None \<Rightarrow> Some (regex, ks)
      | Some p \<Rightarrow>
          (let end_pos = param_end regex (find_from CHR ''/'' regex p) (find_from CHR '':'' regex (p + 1));
               key_name = take (end_pos - p - 1) (drop (p + 1) regex)
           in if key_name = [] then None
              else path_parse_loop (take p regex @ param_re @ drop end_pos regex) p (ks @ [key_name])))"
  by pat_completeness auto
termination
proof (relation "measure (\<lambda>(s, i, ks). colons (drop i s))", goal_cases)
  case (2 regex start ks p e key)
  then have p: "start \<le> p" "p < length regex" "regex ! p = CHR '':''"
    using find_from_Some by blast+
  have e: "Suc p \<le> e"
    using 2(2,3,4) by (cases "e \<le> p + 1") auto
  have "colons (drop e regex) \<le> colons (drop (Suc p) regex)"
    using e by (rule colons_drop_mono)
  also have "\<dots> < colons (drop p regex)"
    using p by (simp add: Cons_nth_drop_Suc [symmetric] colons_def)
  also have "\<dots> \<le> colons (drop start regex)"
    using p(1) by (rule colons_drop_mono)
  finally show ?case using p by (simp add: param_re_def colons_def)
qed simp

declare path_parse_loop.simps [simp del]

definition http_router_path_parse :: "string \<Rightarrow> route_error + rule_t" where
  "http_router_path_parse path =
     (case path_parse_loop (CHR ''^'' # path) 0 [] of
        None \<Rightarrow> Inl (Empty_param_name (cstr path))
      | Some (regex, ks) \<Rightarrow>
          (case rx_compile (regex @ ''$'') of
             None \<Rightarrow> Inl Bad_regex
           | Some r \<Rightarrow> Inr \<lparr>keys = ks, re = r\<rparr>))"

section \<open>Query strings\<close>

type_synonym extra_param = "(string \<times> string) list"

function http_router_query_parse :: "string \<Rightarrow> extra_param \<Rightarrow> bool \<times> extra_param" where
  "http_router_query_parse s out =
     (if s = [] then (True, out)
      else let len = length (takeWhile (\<lambda>c. c \<noteq> CHR ''&'') s);
               j = length (takeWhile (\<lambda>c. c \<noteq> CHR ''='') (take len s))
           in if len \<le> j + 1 then (False, out)
              else http_router_query_parse (drop (len + 1) s)
                     (smap_emplace (<) (take j s) (take (len - j - 1) (drop (j + 1) s)) out))"
  by pat_completeness auto
termination by (relation "measure (\<lambda>(s, out). length s)") auto

declare http_router_query_parse.simps [simp del]

section \<open>Applying a rule\<close>

text \<open>\<open>for (key : rule.keys) out.emplace(key, cm[i++].str())\<close>.\<close>

fun emplace_keys :: "string list \<Rightarrow> string option list \<Rightarrow> extra_param \<Rightarrow> extra_param" where
  "emplace_keys (k # ks) (g # gs) out = emplace_keys ks gs (smap_emplace (<) k (sub_str g) out)"
| "emplace_keys ks gs out = out"

definition http_router_path_apply_rule :: "string \<Rightarrow> rule_t \<Rightarrow> extra_param \<Rightarrow> bool \<times> extra_param" where
  "http_router_path_apply_rule path rule out =
     (case regex_match False (re rule) (cstr path) of
        None \<Rightarrow> (False, out)
      | Some cm \<Rightarrow>
          if length cm \<noteq> length (keys rule) then (False, out)
          else (True, emplace_keys (keys rule) cm out))"

section \<open>The route table\<close>

text \<open>
  A handler is a coroutine that ends with a response or an exception of type \<open>'e\<close>; \<open>'w\<close> is the
  state of the program around the router.
\<close>

type_synonym ('w, 'e) handler = "request \<Rightarrow> extra_param \<Rightarrow> 'w \<Rightarrow> ('e + response) \<times> 'w"

record ('w, 'e) api_route_t =
  r_method :: verb
  r_rule :: rule_t
  r_handler :: "('w, 'e) handler"

record ('w, 'e) router =
  rt_prefix :: string
  rt_routes :: "('w, 'e) api_route_t list"

definition router_init :: "('w, 'e) router" where
  "router_init = \<lparr>rt_prefix = [], rt_routes = []\<rparr>"

definition set_prefix :: "string \<Rightarrow> ('w, 'e) router \<Rightarrow> ('w, 'e) router" where
  "set_prefix p rt = rt\<lparr>rt_prefix := p\<rparr>"

definition add_route ::
  "verb \<Rightarrow> string \<Rightarrow> ('w, 'e) handler \<Rightarrow> ('w, 'e) router \<Rightarrow> route_error + ('w, 'e) router" where
  "add_route m path h rt =
     (case http_router_path_parse path of
        Inl e \<Rightarrow> Inl e
      | Inr rule \<Rightarrow>
          Inr (rt\<lparr>rt_routes := rt_routes rt @ [\<lparr>r_method = m, r_rule = rule, r_handler = h\<rparr>]\<rparr>))"

text \<open>A synchronous handler, which returns or throws, is wrapped into a coroutine.\<close>

definition add_sync_route ::
  "verb \<Rightarrow> string \<Rightarrow> (request \<Rightarrow> extra_param \<Rightarrow> 'e + response) \<Rightarrow> ('w, 'e) router
     \<Rightarrow> route_error + ('w, 'e) router" where
  "add_sync_route m path h rt = add_route m path (\<lambda>req params w. (h req params, w)) rt"

section \<open>Error responses\<close>

text \<open>\<open>ver\<close> is \<open>BOOST_BEAST_VERSION_STRING\<close>.\<close>

definition error_response :: "string \<Rightarrow> nat \<Rightarrow> string \<Rightarrow> request \<Rightarrow> response" where
  "error_response ver status body req =
     content_length (length body)
       \<lparr>res_status = status, res_version = req_version req, res_keep_alive = req_keep_alive req,
        res_fields = set_field ''Content-Type'' ''text/html'' (set_field ''Server'' ver []),
        res_body = body\<rparr>"

definition not_found :: "string \<Rightarrow> request \<Rightarrow> response" where
  "not_found ver req =
     error_response ver 404 (''The resource '' @ [CHR 0x27] @ req_target req @ [CHR 0x27] @ '' was not found.'') req"

definition server_error :: "string \<Rightarrow> request \<Rightarrow> string \<Rightarrow> response" where
  "server_error ver req what = error_response ver 500 (''An error occurred: '' @ [CHR 0x27] @ what @ [CHR 0x27]) req"

definition bad_request :: "string \<Rightarrow> request \<Rightarrow> string \<Rightarrow> response" where
  "bad_request ver req why = error_response ver 400 why req"

section \<open>Dispatch\<close>

text \<open>
  The loop over the routes of \<open>handle_request\<close>.  \<open>extra_params\<close> is one variable for all
  iterations.
\<close>

fun route_loop ::
  "string \<Rightarrow> string \<Rightarrow> url_t \<Rightarrow> ('w, 'e) api_route_t list \<Rightarrow> extra_param \<Rightarrow> request \<Rightarrow> 'w
     \<Rightarrow> ('e + response) \<times> 'w" where
  "route_loop ver pre u [] params req w = (Inr (not_found ver req), w)"
| "route_loop ver pre u (r # rs) params req w =
     (if r_method r \<noteq> Verb_unknown \<and> r_method r \<noteq> req_method req
      then route_loop ver pre u rs params req w
      else case http_router_path_apply_rule (drop (length pre) (u_path u)) (r_rule r) params of
          (False, params1) \<Rightarrow> route_loop ver pre u rs params1 req w
        | (True, params1) \<Rightarrow>
            if u_query u = [] then r_handler r req params1 w
            else (case http_router_query_parse (u_query u) params1 of
                (True, params2) \<Rightarrow> (Inr (bad_request ver req ''Illegal request-target''), w)
              | (False, params2) \<Rightarrow> r_handler r req params2 w))"

definition handle_request ::
  "string \<Rightarrow> ('w, 'e) router \<Rightarrow> request \<Rightarrow> 'w \<Rightarrow> ('e + response) \<times> 'w" where
  "handle_request ver rt req w =
     (let (ok, u) = url_parse_requri (req_target req) url_init
      in if \<not> ok then (Inr (bad_request ver req ''Illegal request-target''), w)
         else if prefix (rt_prefix rt) (u_path u)
         then route_loop ver (rt_prefix rt) u (rt_routes rt) [] req w
         else (Inr (not_found ver req), w))"

end
