(* ===== verification/Router_Templates.thy ===== *)
theory Router_Templates
  imports Router
begin

text \<open>
  Path templates as the documentation of \<open>http_router_path_parse\<close> describes them, and the rule
  they are translated into: which paths it matches and what it captures.
\<close>

section \<open>Templates\<close>

datatype seg = Lit char | Param string

fun template_text :: "seg list \<Rightarrow> string" where
  "template_text [] = []"
| "template_text (Lit c # t) = c # template_text t"
| "template_text (Param k # t) = CHR '':'' # k @ template_text t"

fun template_keys :: "seg list \<Rightarrow> string list" where
  "template_keys [] = []"
| "template_keys (Lit c # t) = template_keys t"
| "template_keys (Param k # t) = k # template_keys t"

text \<open>The path obtained by writing values for the parameters.\<close>

fun template_fill :: "seg list \<Rightarrow> string list \<Rightarrow> string" where
  "template_fill [] vs = []"
| "template_fill (Lit c # t) vs = c # template_fill t vs"
| "template_fill (Param k # t) vs = (case vs of [] \<Rightarrow> [] | v # vs' \<Rightarrow> v @ template_fill t vs')"

fun wf_template :: "seg list \<Rightarrow> bool" where
  "wf_template [] = True"
| "wf_template (Lit c # t) = (rx_plain c \<and> c \<noteq> CHR '':'' \<and> wf_template t)"
| "wf_template (Param k # t) =
     (k \<noteq> [] \<and> CHR '':'' \<notin> set k \<and> CHR ''/'' \<notin> set k
      \<and> (case t of [] \<Rightarrow> True | Lit c # _ \<Rightarrow> c = CHR ''/'' | Param _ # _ \<Rightarrow> True) \<and> wf_template t)"

text \<open>What a parameter can stand for.\<close>

definition param_value :: "string \<Rightarrow> bool" where
  "param_value v \<longleftrightarrow> v \<noteq> [] \<and> (\<forall>c \<in> set v. \<not> is_space c)"

section \<open>The text of the regular expression\<close>

fun regex_text :: "seg list \<Rightarrow> string" where
  "regex_text [] = []"
| "regex_text (Lit c # t) = c # regex_text t"
| "regex_text (Param k # t) = param_re @ regex_text t"

lemma find_from_skip:
  assumes "i \<le> length pre" "c \<notin> set (drop i pre)"
  shows "find_from c (pre @ s) i =
    (if c \<in> set s then Some (length pre + length (takeWhile (\<lambda>x. x \<noteq> c) s)) else None)"
proof -
  have "takeWhile (\<lambda>x. x \<noteq> c) (drop i (pre @ s)) = drop i pre @ takeWhile (\<lambda>x. x \<noteq> c) s"
    using assms by (auto intro!: takeWhile_append2)
  moreover have "length (takeWhile (\<lambda>x. x \<noteq> c) s) < length s \<longleftrightarrow> c \<in> set s"
    by (induction s) auto
  ultimately show ?thesis using assms(1) by (simp add: find_from_def Let_def)
qed

lemma param_end_template:
  fixes pre rest :: string
  assumes "CHR '':'' \<notin> set k" "CHR ''/'' \<notin> set k"
    and "rest = [] \<or> hd rest = CHR ''/'' \<or> hd rest = CHR '':''"
  defines "s \<equiv> pre @ CHR '':'' # k @ rest"
  shows "param_end s (find_from CHR ''/'' s (length pre)) (find_from CHR '':'' s (length pre + 1))
    = length pre + 1 + length k"
proof -
  have s: "s = (pre @ CHR '':'' # k) @ rest" by (simp add: s_def)
  have slash: "find_from CHR ''/'' s (length pre) =
      (if CHR ''/'' \<in> set rest then Some (length pre + 1 + length k + length (takeWhile (\<lambda>x. x \<noteq> CHR ''/'') rest))
       else None)"
    unfolding s by (subst find_from_skip) (use assms(2) in auto)
  have colon: "find_from CHR '':'' s (length pre + 1) =
      (if CHR '':'' \<in> set rest then Some (length pre + 1 + length k + length (takeWhile (\<lambda>x. x \<noteq> CHR '':'') rest))
       else None)"
    unfolding s by (subst find_from_skip) (use assms(1) in auto)
  show ?thesis
    using assms(3) unfolding slash colon by (cases rest) (auto simp: param_end_def s_def)
qed

lemma template_text_next:
  "wf_template (Param k # t) \<Longrightarrow>
     template_text t = [] \<or> hd (template_text t) = CHR ''/'' \<or> hd (template_text t) = CHR '':''"
  by (cases t rule: template_text.cases) auto

lemma path_parse_loop_template:
  "wf_template t \<Longrightarrow> i \<le> length pre \<Longrightarrow> CHR '':'' \<notin> set (drop i pre) \<Longrightarrow>
     path_parse_loop (pre @ template_text t) i ks = Some (pre @ regex_text t, ks @ template_keys t)"
proof (induction t arbitrary: pre i ks)
  case Nil
  have "find_from CHR '':'' pre i = None"
    using find_from_skip [OF Nil(2,3), of "[]"] by simp
  then show ?case by (simp add: path_parse_loop.simps)
next
  case (Cons x t)
  show ?case
  proof (cases x)
    case (Lit c)
    then show ?thesis using Cons.IH [where pre = "pre @ [c]" and i = i and ks = ks] Cons.prems by auto
  next
    case (Param k)
    let ?s = "pre @ CHR '':'' # k @ template_text t"
    have k: "k \<noteq> []" "CHR '':'' \<notin> set k" "CHR ''/'' \<notin> set k" "wf_template t"
      using Cons.prems Param by auto
    have find: "find_from CHR '':'' ?s i = Some (length pre)"
      using find_from_skip [OF Cons.prems(2,3)] by simp
    have "param_end ?s (find_from CHR ''/'' ?s (length pre)) (find_from CHR '':'' ?s (length pre + 1))
        = length pre + 1 + length k"
      using Cons.prems(1) template_text_next unfolding Param
      by (intro param_end_template [OF k(2,3)]) blast
    then have "path_parse_loop ?s i ks
        = path_parse_loop ((pre @ param_re) @ template_text t) (length pre) (ks @ [k])"
      by (subst path_parse_loop.simps) (simp add: find k(1))
    also have "\<dots> = Some ((pre @ param_re) @ regex_text t, (ks @ [k]) @ template_keys t)"
      by (rule Cons.IH [OF k(4)]) (auto simp: param_re_def)
    finally show ?thesis using Param by simp
  qed
qed

section \<open>The compiled rule\<close>

definition param_rx :: rx where
  "param_rx = RGroup (RSeq REmpty (RRep True 1 NotSpace))"

fun template_rx :: "rx \<Rightarrow> seg list \<Rightarrow> rx" where
  "template_rx r [] = r"
| "template_rx r (Lit c # t) = template_rx (RSeq r (RChar (Is c))) t"
| "template_rx r (Param k # t) = template_rx (RSeq r param_rx) t"

definition template_rule :: "seg list \<Rightarrow> rule_t" where
  "template_rule t = \<lparr>keys = template_keys t, re = template_rx REmpty t\<rparr>"

abbreviation no_quant :: "string \<Rightarrow> bool" where
  "no_quant s \<equiv> hd s \<notin> {CHR ''*'', CHR ''+'', CHR ''?'', CHR ''{''}"

lemma rx_quant_none: "no_quant s \<Longrightarrow> rx_quant cs s = Some (RChar cs, s)"
  by (cases s) auto

lemma rx_close_none: "no_quant s \<Longrightarrow> rx_close r s = Some (r, s)"
  by (cases s) (auto simp: rx_close_def)

lemma regex_text_no_quant: "wf_template t \<Longrightarrow> no_quant (regex_text t @ ''$'')"
  by (cases t rule: regex_text.cases) (auto simp: rx_plain_def param_re_def)

lemma rx_parse_plain:
  assumes "rx_plain c" "no_quant s"
  shows "rx_parse stack cur (c # s) = rx_parse stack (RSeq cur (RChar (Is c))) s"
proof -
  have "c \<noteq> CHR ''$''" "c \<noteq> CHR ''(''" "c \<noteq> CHR '')''" "c \<noteq> CHR 0x5C" "c \<noteq> CHR ''.''"
    using assms(1) by (auto simp: rx_plain_def)
  then show ?thesis
    using assms by (simp add: rx_quant_none)
qed

lemma rx_parse_param:
  assumes "no_quant s"
  shows "rx_parse [] cur (param_re @ s) = rx_parse [] (RSeq cur param_rx) s"
  using assms by (simp add: param_re_def param_rx_def rd_def rx_close_none)

lemma rx_parse_template:
  "wf_template t \<Longrightarrow> rx_parse [] cur (regex_text t @ ''$'') = Some (template_rx cur t)"
proof (induction cur t rule: template_rx.induct)
  case (2 r c t)
  then show ?case
    using rx_parse_plain [OF _ regex_text_no_quant, of c t "[]" r] by (simp del: rx_parse.simps)
next
  case (3 r k t)
  then show ?case
    using rx_parse_param [OF regex_text_no_quant, of t r] by (simp del: rx_parse.simps)
qed simp

lemma path_parse_template:
  assumes "wf_template t"
  shows "http_router_path_parse (template_text t) = Inr (template_rule t)"
proof -
  have "path_parse_loop (CHR ''^'' # template_text t) 0 [] = Some (CHR ''^'' # regex_text t, template_keys t)"
    using path_parse_loop_template [OF assms, of 0 "[CHR ''^'']" "[]"] by simp
  then show ?thesis
    using rx_parse_template [OF assms]
    by (simp add: http_router_path_parse_def rx_compile_def template_rule_def del: rx_parse.simps)
qed

section \<open>The paths a rule matches\<close>

lemma acc_param: "rx_acc False param_rx u c \<longleftrightarrow> param_value u \<and> c = [Some u]"
  by (auto simp: param_rx_def rx_acc_simps param_value_def list_all_iff Suc_le_eq)

lemma acc_template:
  "rx_acc False (template_rx r t) w c \<longleftrightarrow>
     (\<exists>u cu vs. rx_acc False r u cu \<and> length vs = length (template_keys t)
        \<and> (\<forall>v \<in> set vs. param_value v) \<and> w = u @ template_fill t vs \<and> c = cu @ map Some vs)"
proof (induction r t arbitrary: w c rule: template_rx.induct)
  case (2 r x t)
  then show ?case by (fastforce simp: rx_acc_simps)
next
  case (3 r k t)
  show ?case
  proof
    assume "rx_acc False (template_rx r (Param k # t)) w c"
    then obtain u cu vs v where "rx_acc False r u cu" "length vs = length (template_keys t)"
      "\<forall>v \<in> set vs. param_value v" "param_value v"
      "w = (u @ v) @ template_fill t vs" "c = (cu @ [Some v]) @ map Some vs"
      by (auto simp: "3.IH" rx_acc_simps(3) acc_param)
    then show "\<exists>u cu vs. rx_acc False r u cu \<and> length vs = length (template_keys (Param k # t))
        \<and> (\<forall>v \<in> set vs. param_value v) \<and> w = u @ template_fill (Param k # t) vs
        \<and> c = cu @ map Some vs"
      by (intro exI [of _ u] exI [of _ cu] exI [of _ "v # vs"]) simp
  next
    assume "\<exists>u cu vs. rx_acc False r u cu \<and> length vs = length (template_keys (Param k # t))
        \<and> (\<forall>v \<in> set vs. param_value v) \<and> w = u @ template_fill (Param k # t) vs
        \<and> c = cu @ map Some vs"
    then obtain u cu v vs where "rx_acc False r u cu" "length vs = length (template_keys t)"
      "\<forall>v \<in> set vs. param_value v" "param_value v"
      "w = (u @ v) @ template_fill t vs" "c = (cu @ [Some v]) @ map Some vs"
      by (auto simp: length_Suc_conv)
    moreover from this have "rx_acc False (RSeq r param_rx) (u @ v) (cu @ [Some v])"
      by (auto simp: rx_acc_simps(3) acc_param)
    ultimately show "rx_acc False (template_rx r (Param k # t)) w c"
      unfolding template_rx.simps "3.IH" by blast
  qed
qed (auto simp: rx_acc_simps)

lemma acc_template_rule:
  "rx_acc False (re (template_rule t)) w c \<longleftrightarrow>
     (\<exists>vs. length vs = length (template_keys t) \<and> (\<forall>v \<in> set vs. param_value v)
        \<and> w = template_fill t vs \<and> c = map Some vs)"
  by (auto simp: template_rule_def acc_template rx_acc_simps)

lemma emplace_keys_some:
  "length vs = length ks \<Longrightarrow>
     emplace_keys ks (map Some vs) out = smap_insert_all (<) (zip ks vs) out"
  by (induction ks vs arbitrary: out rule: list_induct2') (auto simp: sub_str_def)

text \<open>The rule of a template matches the filled templates only.\<close>

lemma apply_rule_match:
  "http_router_path_apply_rule path (template_rule t) out = (True, out') \<longleftrightarrow>
     (\<exists>vs. regex_match False (re (template_rule t)) (cstr path) = Some (map Some vs)
        \<and> length vs = length (template_keys t) \<and> (\<forall>v \<in> set vs. param_value v)
        \<and> cstr path = template_fill t vs \<and> out' = smap_insert_all (<) (zip (template_keys t) vs) out)"
  (is "?l \<longleftrightarrow> ?r")
proof
  assume ?l
  then obtain cm where cm: "regex_match False (re (template_rule t)) (cstr path) = Some cm"
    and out: "out' = emplace_keys (template_keys t) cm out"
    by (auto simp: http_router_path_apply_rule_def template_rule_def split: option.splits if_splits)
  from regex_match_sound [OF cm] obtain vs where
    "length vs = length (template_keys t)" "\<forall>v \<in> set vs. param_value v"
    "cstr path = template_fill t vs" "cm = map Some vs"
    by (auto simp: acc_template_rule)
  with cm out show ?r by (intro exI [of _ vs]) (simp add: emplace_keys_some)
next
  assume ?r
  then show ?l
    by (auto simp: http_router_path_apply_rule_def template_rule_def emplace_keys_some)
qed

lemma apply_rule_frame:
  "http_router_path_apply_rule path rule out = (False, out') \<Longrightarrow> out' = out"
  by (auto simp: http_router_path_apply_rule_def split: option.splits if_splits)

section \<open>Values without a slash are recovered\<close>

fun delimited :: "seg list \<Rightarrow> bool" where
  "delimited [] = True"
| "delimited (Lit c # t) = delimited t"
| "delimited (Param k # t) = ((t = [] \<or> hd t = Lit CHR ''/'') \<and> delimited t)"

abbreviation slashes :: "string \<Rightarrow> nat" where
  "slashes s \<equiv> length (filter (\<lambda>c. c = CHR ''/'') s)"

lemma slashes_0: "slashes s = 0 \<longleftrightarrow> CHR ''/'' \<notin> set s"
  by (auto simp: filter_empty_conv)

lemma slashes_fill:
  "length vs = length (template_keys t) \<Longrightarrow>
     slashes (template_fill t vs) = slashes (template_fill t (map (\<lambda>_. []) vs)) + slashes (concat vs)"
  by (induction t vs rule: template_fill.induct) (auto split: list.splits)

lemma fill_unique_plain:
  "length us = length (template_keys t) \<Longrightarrow> length vs = length (template_keys t) \<Longrightarrow> delimited t \<Longrightarrow>
   CHR ''/'' \<notin> set (concat us) \<Longrightarrow> CHR ''/'' \<notin> set (concat vs) \<Longrightarrow>
   template_fill t us = template_fill t vs \<Longrightarrow> us = vs"
proof (induction t arbitrary: us vs)
  case (Cons x t)
  show ?case
  proof (cases x)
    case (Lit c)
    then show ?thesis using Cons by auto
  next
    case (Param k)
    then obtain u us' v vs' where uv: "us = u # us'" "vs = v # vs'"
      using Cons.prems(1,2) by (cases us; cases vs) auto
    have next_slash: "template_fill t ws = [] \<or> hd (template_fill t ws) = CHR ''/''" for ws
      using Cons.prems(3) Param by (cases t) auto
    have tw: "takeWhile (\<lambda>c. c \<noteq> CHR ''/'') (w @ template_fill t ws) = w" if "CHR ''/'' \<notin> set w" for w ws
    proof -
      have "takeWhile (\<lambda>c. c \<noteq> CHR ''/'') (template_fill t ws) = []"
        using next_slash [of ws] by (cases "template_fill t ws") auto
      moreover have "takeWhile (\<lambda>c. c \<noteq> CHR ''/'') (w @ template_fill t ws)
          = w @ takeWhile (\<lambda>c. c \<noteq> CHR ''/'') (template_fill t ws)"
        using that by (intro takeWhile_append2) auto
      ultimately show ?thesis by simp
    qed
    have eq: "u @ template_fill t us' = v @ template_fill t vs'"
      using Cons.prems(6) Param uv by simp
    then have "u = v"
      using tw [of u us'] tw [of v vs'] Cons.prems(4,5) uv by auto
    with eq have "template_fill t us' = template_fill t vs'" by simp
    then have "us' = vs'"
      using Cons.IH [of us' vs'] Cons.prems Param uv by auto
    with \<open>u = v\<close> uv show ?thesis by simp
  qed
qed simp

lemma fill_unique:
  assumes "length us = length (template_keys t)" "length vs = length (template_keys t)" "delimited t"
    and "CHR ''/'' \<notin> set (concat vs)" "template_fill t us = template_fill t vs"
  shows "us = vs"
proof -
  have "map (\<lambda>_. []) us = map (\<lambda>_. [] :: string) vs"
    using assms(1,2) by (simp add: map_replicate_const)
  then have "slashes (concat us) = slashes (concat vs)"
    using slashes_fill [OF assms(1)] slashes_fill [OF assms(2)] assms(5) by simp
  then have "CHR ''/'' \<notin> set (concat us)"
    using assms(4) slashes_0 by metis
  then show ?thesis using fill_unique_plain assms by blast
qed

section \<open>Empty parameter names\<close>

text \<open>Some colon is followed by a slash, by another colon or by nothing.\<close>

fun empty_name :: "string \<Rightarrow> bool" where
  "empty_name [] = False"
| "empty_name (c # s) =
     (c = CHR '':'' \<and> (s = [] \<or> hd s = CHR ''/'' \<or> hd s = CHR '':'') \<or> empty_name s)"

lemma empty_name_no_colon: "CHR '':'' \<notin> set s \<Longrightarrow> \<not> empty_name s"
  by (induction s) auto

lemma empty_name_append: "CHR '':'' \<notin> set a \<Longrightarrow> empty_name (a @ s) = empty_name s"
  by (induction a) auto

lemma path_parse_loop_None:
  "i \<le> length pre \<Longrightarrow> CHR '':'' \<notin> set (drop i pre) \<Longrightarrow>
     path_parse_loop (pre @ s) i ks = None \<longleftrightarrow> empty_name s"
proof (induction "length s" arbitrary: s pre i ks rule: less_induct)
  case less
  show ?case
  proof (cases "CHR '':'' \<in> set s")
    case False
    then show ?thesis
      using find_from_skip [OF less.prems, of s] empty_name_no_colon [of s]
      by (simp add: path_parse_loop.simps)
  next
    case True
    then obtain a b where s: "s = a @ CHR '':'' # b" "CHR '':'' \<notin> set a"
      by (meson split_list_first)
    define k where "k = takeWhile (\<lambda>c. c \<noteq> CHR '':'' \<and> c \<noteq> CHR ''/'') b"
    define rest where "rest = dropWhile (\<lambda>c. c \<noteq> CHR '':'' \<and> c \<noteq> CHR ''/'') b"
    have b: "b = k @ rest" by (simp add: k_def rest_def)
    have k: "CHR '':'' \<notin> set k" "CHR ''/'' \<notin> set k" by (auto simp: k_def dest: set_takeWhileD)
    have rest: "rest = [] \<or> hd rest = CHR ''/'' \<or> hd rest = CHR '':''"
      using hd_dropWhile [of "\<lambda>c. c \<noteq> CHR '':'' \<and> c \<noteq> CHR ''/''" b] by (auto simp: rest_def)
    let ?p = "pre @ a" let ?s = "(pre @ a) @ CHR '':'' # k @ rest"
    have find: "find_from CHR '':'' ?s i = Some (length ?p)"
      using find_from_skip [of i ?p "CHR '':''" "CHR '':'' # k @ rest"] less.prems s(2) by simp
    have pend: "param_end ?s (find_from CHR ''/'' ?s (length ?p)) (find_from CHR '':'' ?s (length ?p + 1))
        = length ?p + 1 + length k"
      by (rule param_end_template [OF k rest])
    have step: "path_parse_loop ?s i ks =
        (if k = [] then None
         else path_parse_loop ((?p @ param_re) @ rest) (length ?p) (ks @ [k]))"
      by (subst path_parse_loop.simps) (use find pend in simp)
    have "empty_name s \<longleftrightarrow> k = [] \<or> empty_name rest"
    proof (cases k)
      case Nil
      then show ?thesis using rest by (simp add: s b empty_name_append)
    next
      case (Cons c k')
      then have "empty_name (CHR '':'' # k @ rest) = empty_name (k @ rest)"
        using k by auto
      also have "\<dots> = empty_name rest" by (rule empty_name_append [OF k(1)])
      finally show ?thesis
        using Cons by (simp add: s b empty_name_append [OF s(2)] del: empty_name.simps)
    qed
    moreover have "path_parse_loop ((?p @ param_re) @ rest) (length ?p) (ks @ [k]) = None \<longleftrightarrow> empty_name rest"
      by (rule less.hyps) (auto simp: s b param_re_def)
    ultimately show ?thesis using step by (simp add: s b)
  qed
qed

text \<open>
  A template is rejected with the documented exception exactly when some parameter name is empty;
  the loop, which rewrites the text it is scanning, always terminates and never mistakes text it
  has inserted for a parameter.
\<close>

lemma path_parse_empty_name:
  "(\<exists>msg. http_router_path_parse path = Inl (Empty_param_name msg)) = empty_name path"
  using path_parse_loop_None [of 0 "[CHR ''^'']" path "[]"]
  by (auto simp: http_router_path_parse_def split: option.splits)

section \<open>Properties of matching\<close>

text \<open>
  C17. A rule matches only filled templates: when the rule compiled from a template matches a path,
  there is one non-empty value without white space per parameter, writing the values into the
  template gives the path back, and the parameters are added under their names in order.
\<close>

theorem apply_rule_sound:
  assumes "wf_template t" "http_router_path_parse (template_text t) = Inr rule"
    and "http_router_path_apply_rule path rule out = (True, out')"
  shows "\<exists>vs. length vs = length (template_keys t)
    \<and> (\<forall>v \<in> set vs. v \<noteq> [] \<and> (\<forall>c \<in> set v. \<not> is_space c))
    \<and> cstr path = template_fill t vs
    \<and> out' = smap_insert_all (<) (zip (template_keys t) vs) out"
proof -
  have "rule = template_rule t" using assms(2) path_parse_template [OF assms(1)] by simp
  with assms(3) show ?thesis by (auto simp: apply_rule_match param_value_def)
qed

text \<open>The template of the documentation, \<open>/user/:id/:name\<close>.\<close>

definition user_template :: "seg list" where
  "user_template = map Lit ''/user/'' @ [Param ''id'', Lit CHR ''/'', Param ''name'']"

lemma user_template_wf: "wf_template user_template" "delimited user_template"
  by (simp_all add: user_template_def rx_plain_def)

lemma user_template_rule:
  "http_router_path_parse ''/user/:id/:name'' = Inr (template_rule user_template)"
  using path_parse_template [OF user_template_wf(1)] by (simp add: user_template_def)

lemma template_fill_no_NUL:
  "wf_template t \<Longrightarrow> \<forall>v \<in> set vs. NUL \<notin> set v \<Longrightarrow> NUL \<notin> set (template_fill t vs)"
  by (induction t vs rule: template_fill.induct) (auto simp: rx_plain_def split: list.splits)

lemma apply_rule_user:
  "\<exists>out. http_router_path_apply_rule ''/user/1/J'' (template_rule user_template) [] = (True, out)"
proof -
  have "rx_acc False (re (template_rule user_template)) ''/user/1/J'' (map Some [''1'', ''J''])"
    unfolding acc_template_rule
    by (intro exI [of _ "[''1'', ''J'']"])
      (simp add: user_template_def param_value_def is_space_def less_eq_char_def)
  from regex_match_complete [OF this] obtain cm where
    cm: "regex_match False (re (template_rule user_template)) ''/user/1/J'' = Some cm" by blast
  from regex_match_sound [OF cm] have "length cm = 2"
    by (auto simp: acc_template_rule user_template_def)
  with cm show ?thesis
    by (simp add: http_router_path_apply_rule_def template_rule_def user_template_def cstr_Cons)
qed

text \<open>
  C5. Round trip: writing values without white space, slash or NUL for the parameters of a template
  and applying its rule gives every parameter its value back (the first one, if a name is used
  twice).  Parameters must be followed by a slash or end the template.
\<close>

theorem apply_rule_roundtrip:
  assumes "wf_template t" "delimited t" "length vs = length (template_keys t)"
    and "\<forall>v \<in> set vs. v \<noteq> [] \<and> (\<forall>c \<in> set v. \<not> is_space c \<and> c \<noteq> CHR ''/'' \<and> c \<noteq> NUL)"
  shows "\<exists>rule out. http_router_path_parse (template_text t) = Inr rule
    \<and> http_router_path_apply_rule (template_fill t vs) rule [] = (True, out)
    \<and> (\<forall>k. smap_find (<) k out = map_of (zip (template_keys t) vs) k)"
proof -
  let ?w = "template_fill t vs"
  have pv: "\<forall>v \<in> set vs. param_value v" using assms(4) by (auto simp: param_value_def)
  then have acc: "rx_acc False (re (template_rule t)) ?w (map Some vs)"
    using assms(3) by (auto simp: acc_template_rule)
  have NUL: "NUL \<notin> set ?w" by (rule template_fill_no_NUL) (use assms in auto)
  obtain cm where cm: "regex_match False (re (template_rule t)) ?w = Some cm"
    using regex_match_complete [OF acc] by blast
  from regex_match_sound [OF cm] obtain us where
    us: "length us = length (template_keys t)" "?w = template_fill t us" "cm = map Some us"
    by (auto simp: acc_template_rule)
  have "us = vs"
    using fill_unique [OF us(1) assms(3,2)] us(2) assms(4) by auto
  then have "http_router_path_apply_rule ?w (template_rule t) []
      = (True, smap_insert_all (<) (zip (template_keys t) vs) [])"
    unfolding apply_rule_match using cm us(3) assms(3) pv NUL by (intro exI [of _ vs]) simp
  then show ?thesis
    using path_parse_template [OF assms(1)] std_less.find_initialiser_map_of
    by (intro exI conjI allI)
qed

theorem apply_rule_roundtrip_witness:
  "\<exists>rule out. http_router_path_parse (template_text user_template) = Inr rule
    \<and> http_router_path_apply_rule (template_fill user_template [''1'', ''J'']) rule [] = (True, out)
    \<and> (\<forall>k. smap_find (<) k out = map_of (zip (template_keys user_template) [''1'', ''J'']) k)"
proof -
  have "length [''1'', ''J''] = length (template_keys user_template)"
    by (simp add: user_template_def)
  moreover have "\<forall>v \<in> set [''1'', ''J'']. v \<noteq> []
      \<and> (\<forall>c \<in> set v. \<not> is_space c \<and> c \<noteq> CHR ''/'' \<and> c \<noteq> NUL)"
    by code_simp
  ultimately show ?thesis by (rule apply_rule_roundtrip [OF user_template_wf])
qed

theorem apply_rule_sound_witness:
  "\<exists>vs. length vs = length (template_keys user_template) \<and> ''/user/1/J'' = template_fill user_template vs"
proof -
  obtain out where "http_router_path_apply_rule ''/user/1/J'' (template_rule user_template) [] = (True, out)"
    using apply_rule_user by blast
  from apply_rule_sound [OF user_template_wf(1) path_parse_template [OF user_template_wf(1)] this]
  have "\<exists>vs. length vs = length (template_keys user_template) \<and> cstr ''/user/1/J'' = template_fill user_template vs"
    by blast
  then show ?thesis by (simp add: cstr_Cons)
qed

end
