(* ===== verification/Router_Dispatch.thy ===== *)
theory Router_Dispatch
  imports Router_Templates
begin

text \<open>
  The query-string loop against its field-by-field specification, and the dispatch of a request
  against the reference "first route whose method and path match".
\<close>

section \<open>Fields of a query string\<close>

function query_fields :: "string \<Rightarrow> string list" where
  "query_fields q =
     (if q = [] then []
      else let f = takeWhile (\<lambda>c. c \<noteq> CHR ''&'') q in f # query_fields (drop (length f + 1) q))"
  by pat_completeness auto
termination by (relation "measure length") auto

declare query_fields.simps [simp del]

definition field_key :: "string \<Rightarrow> string" where
  "field_key f = takeWhile (\<lambda>c. c \<noteq> CHR ''='') f"

definition field_value :: "string \<Rightarrow> string" where
  "field_value f = drop (length (field_key f) + 1) f"

definition field_ok :: "string \<Rightarrow> bool" where
  "field_ok f \<longleftrightarrow> field_value f \<noteq> []"

lemma takeWhile_take_length: "take (length (takeWhile P s)) s = takeWhile P s"
  by (metis takeWhile_eq_take)

lemma http_router_query_parse_step:
  assumes "s \<noteq> []"
  defines "f \<equiv> takeWhile (\<lambda>c. c \<noteq> CHR ''&'') s"
  shows "http_router_query_parse s out =
    (if field_ok f
     then http_router_query_parse (drop (length f + 1) s)
            (smap_emplace (<) (field_key f) (field_value f) out)
     else (False, out))"
proof -
  have f: "take (length f) s = f" by (simp add: f_def takeWhile_take_length)
  have key: "take (length (field_key f)) s = field_key f"
    by (metis append_eq_conv_conj append_assoc append_take_drop_id f field_key_def takeWhile_dropWhile_id)
  have val: "take (length f - length (field_key f) - 1) (drop (length (field_key f) + 1) s) = field_value f"
    using drop_take [of "length (field_key f) + 1" "length f" s] f
    by (simp add: field_value_def)
  have ok: "field_ok f \<longleftrightarrow> \<not> length f \<le> length (field_key f) + 1"
    by (simp add: field_ok_def field_value_def)
  show ?thesis
    using assms(1) key val
    by (subst http_router_query_parse.simps)
      (simp add: Let_def ok f_def [symmetric] f field_key_def [symmetric])
qed

lemma query_parse_fields:
  "http_router_query_parse q out =
     (list_all field_ok (query_fields q),
      smap_insert_all (<) (map (\<lambda>f. (field_key f, field_value f)) (takeWhile field_ok (query_fields q))) out)"
proof (induction "length q" arbitrary: q out rule: less_induct)
  case less
  show ?case
  proof (cases "q = []")
    case True
    then show ?thesis by (simp add: http_router_query_parse.simps query_fields.simps)
  next
    case False
    let ?f = "takeWhile (\<lambda>c. c \<noteq> CHR ''&'') q"
    have "query_fields q = ?f # query_fields (drop (length ?f + 1) q)"
      using False by (subst query_fields.simps) (simp add: Let_def)
    moreover have "length (drop (length ?f + 1) q) < length q" using False by simp
    ultimately show ?thesis
      using less.hyps by (simp add: http_router_query_parse_step [OF False])
  qed
qed

text \<open>
  C18. The query loop splits at \<open>&\<close> and accepts exactly the strings all of whose fields are a key, an
  equals sign and a non-empty value; the parameters it adds are those of the fields before the
  first bad one, in order, an earlier value of a key winning.
\<close>

theorem http_router_query_parse_fields:
  "http_router_query_parse q out =
     (list_all field_ok (query_fields q),
      smap_insert_all (<) (map (\<lambda>f. (field_key f, field_value f)) (takeWhile field_ok (query_fields q))) out)"
  by (rule query_parse_fields)

fun query_text :: "(string \<times> string) list \<Rightarrow> string" where
  "query_text [] = []"
| "query_text [(k, v)] = k @ CHR ''='' # v"
| "query_text ((k, v) # kvs) = k @ CHR ''='' # v @ CHR ''&'' # query_text kvs"

definition query_pair :: "string \<times> string \<Rightarrow> bool" where
  "query_pair kv \<longleftrightarrow> CHR ''='' \<notin> set (fst kv) \<and> CHR ''&'' \<notin> set (fst kv)
     \<and> snd kv \<noteq> [] \<and> CHR ''&'' \<notin> set (snd kv)"

lemma query_fields_text:
  "\<forall>kv \<in> set kvs. query_pair kv \<Longrightarrow> query_fields (query_text kvs) = map (\<lambda>(k, v). k @ CHR ''='' # v) kvs"
proof (induction kvs rule: query_text.induct)
  case (2 k v)
  then have "takeWhile (\<lambda>c. c \<noteq> CHR ''&'') (k @ CHR ''='' # v) = k @ CHR ''='' # v"
    by (auto simp: query_pair_def takeWhile_eq_all_conv)
  then show ?case
    by (subst query_fields.simps)
      (simp only: Let_def query_text.simps, simp add: query_fields.simps del: takeWhile_append)
next
  case (3 k v kv kvs)
  let ?f = "k @ CHR ''='' # v"
  have "takeWhile (\<lambda>c. c \<noteq> CHR ''&'') (?f @ CHR ''&'' # query_text (kv # kvs))
      = ?f @ takeWhile (\<lambda>c. c \<noteq> CHR ''&'') (CHR ''&'' # query_text (kv # kvs))"
    using "3.prems" by (intro takeWhile_append2) (auto simp: query_pair_def)
  then show ?case using 3 by (subst query_fields.simps) (simp add: Let_def)
qed (simp add: query_fields.simps)

lemma field_pair:
  assumes "query_pair (k, v)"
  shows "field_key (k @ CHR ''='' # v) = k" "field_value (k @ CHR ''='' # v) = v"
    "field_ok (k @ CHR ''='' # v)"
proof -
  show key: "field_key (k @ CHR ''='' # v) = k"
    using assms by (auto simp: field_key_def query_pair_def takeWhile_tail takeWhile_eq_all_conv)
  show val: "field_value (k @ CHR ''='' # v) = v" by (simp add: field_value_def key)
  show "field_ok (k @ CHR ''='' # v)" using assms val by (simp add: field_ok_def query_pair_def)
qed

text \<open>
  Round trip: a query string written from key and value pairs is accepted and every key gets the
  first value it was written with.
\<close>

lemma query_parse_roundtrip:
  assumes "\<forall>kv \<in> set kvs. query_pair kv"
  shows "\<exists>out. http_router_query_parse (query_text kvs) [] = (True, out)
    \<and> (\<forall>k. smap_find (<) k out = map_of kvs k)"
proof -
  have ok: "field_ok f" if "f \<in> set (query_fields (query_text kvs))" for f
    using that assms by (auto simp: query_fields_text [OF assms] intro: field_pair(3))
  then have "list_all field_ok (query_fields (query_text kvs))"
    and tw: "takeWhile field_ok (query_fields (query_text kvs)) = query_fields (query_text kvs)"
    by (auto simp: list_all_iff takeWhile_eq_all_conv)
  moreover have "map (\<lambda>f. (field_key f, field_value f)) (query_fields (query_text kvs)) = kvs"
    unfolding query_fields_text [OF assms]
    using assms by (auto simp: field_pair intro!: map_idI)
  ultimately have "http_router_query_parse (query_text kvs) [] = (True, smap_insert_all (<) kvs [])"
    by (simp add: query_parse_fields tw)
  then show ?thesis using std_less.find_initialiser_map_of by blast
qed

lemma query_parse_roundtrip_witness:
  "\<exists>out. http_router_query_parse (query_text [(''address'', ''aa''), (''phone'', ''12=6'')]) [] = (True, out)
    \<and> (\<forall>k. smap_find (<) k out = map_of [(''address'', ''aa''), (''phone'', ''12=6'')] k)"
  by (rule query_parse_roundtrip) (simp add: query_pair_def)

section \<open>Dispatch\<close>

text \<open>The route accepts the method and its rule matches the path after the prefix.\<close>

definition route_hit :: "string \<Rightarrow> url_t \<Rightarrow> request \<Rightarrow> ('w, 'e) api_route_t \<Rightarrow> bool" where
  "route_hit pre u req r \<longleftrightarrow>
     (r_method r = Verb_unknown \<or> r_method r = req_method req)
     \<and> fst (http_router_path_apply_rule (drop (length pre) (u_path u)) (r_rule r) [])"

lemma route_loop_find:
  "route_loop ver pre u rs [] req w =
     (case List.find (route_hit pre u req) rs of
        None \<Rightarrow> (Inr (not_found ver req), w)
      | Some r \<Rightarrow>
          (let params = snd (http_router_path_apply_rule (drop (length pre) (u_path u)) (r_rule r) []);
               (ok, all_params) = http_router_query_parse (u_query u) params
           in if u_query u = [] then r_handler r req params w
              else if ok then (Inr (bad_request ver req ''Illegal request-target''), w)
              else r_handler r req all_params w))"
proof (induction rs)
  case (Cons r rs)
  obtain ok params where res:
    "http_router_path_apply_rule (drop (length pre) (u_path u)) (r_rule r) [] = (ok, params)" by fastforce
  then have "\<not> ok \<Longrightarrow> params = []"
    using apply_rule_frame by (cases ok) auto
  then show ?case
    using Cons res by (cases ok) (auto simp: route_hit_def Let_def split: prod.split)
qed simp

text \<open>
  C3. Dispatch: a target that is not a URI gets a 400, one outside the prefix or matched by no route a
  404, and otherwise the first registered route whose method and template match decides, whatever
  the routes before it did.  Its handler gets the captured parameters; with a query string it is
  reached only when the query is malformed, a well-formed query being answered with a 400.
\<close>

theorem handle_request_first_match:
  "handle_request ver rt req w =
     (let (uri_ok, u) = url_parse_requri (req_target req) url_init
      in if \<not> uri_ok then (Inr (bad_request ver req ''Illegal request-target''), w)
         else if \<not> prefix (rt_prefix rt) (u_path u) then (Inr (not_found ver req), w)
         else case List.find (route_hit (rt_prefix rt) u req) (rt_routes rt) of
                None \<Rightarrow> (Inr (not_found ver req), w)
              | Some r \<Rightarrow>
                  (let params = snd (http_router_path_apply_rule
                                       (drop (length (rt_prefix rt)) (u_path u)) (r_rule r) []);
                       (ok, all_params) = http_router_query_parse (u_query u) params
                   in if u_query u = [] then r_handler r req params w
                      else if ok then (Inr (bad_request ver req ''Illegal request-target''), w)
                      else r_handler r req all_params w))"
  by (simp add: handle_request_def route_loop_find split: prod.split)

text \<open>
  Registering a route never changes what an earlier one answers: it is appended to the table, the
  prefix and the earlier routes stay, and a template that is rejected registers nothing.
\<close>

lemma add_route_appends:
  "(case add_route m path h rt of
      Inl e \<Rightarrow> http_router_path_parse path = Inl e
    | Inr rt' \<Rightarrow> rt_prefix rt' = rt_prefix rt
        \<and> (\<exists>r. rt_routes rt' = rt_routes rt @ [r] \<and> r_method r = m \<and> r_handler r = h
             \<and> http_router_path_parse path = Inr (r_rule r)))"
  by (auto simp: add_route_def split: sum.split)

section \<open>The query check is inverted\<close>

definition demo_req :: "string \<Rightarrow> request" where
  "demo_req target = \<lparr>req_method = Verb_get, req_target = target, req_version = 11,
     req_keep_alive = True, req_fields = [], req_body = []\<rparr>"

definition demo_route :: "(extra_param list, unit) api_route_t" where
  "demo_route = \<lparr>r_method = Verb_get, r_rule = template_rule [Lit CHR ''/'', Param ''id''],
     r_handler = (\<lambda>req params w. (Inr (bad_request [] req ''handled''), params # w))\<rparr>"

text \<open>
  Dispatch of \<open>/7?a=b\<close> on a table with the one route \<open>/:id\<close>: the request is refused although its
  query is well-formed, and \<open>/7?a\<close>, whose query is not, reaches the handler.
\<close>

lemma handle_request_query_inverted:
  "fst (handle_request [] (\<lparr>rt_prefix = [], rt_routes = [demo_route]\<rparr>) (demo_req ''/7?a=b'') [])
     = Inr (bad_request [] (demo_req ''/7?a=b'') ''Illegal request-target'')
   \<and> snd (handle_request [] (\<lparr>rt_prefix = [], rt_routes = [demo_route]\<rparr>) (demo_req ''/7?a'') [])
     = [[(''id'', ''7'')]]"
  by code_simp

end
