(* ===== verification/Session.thy ===== *)
theory Session
  imports Router Mime
begin

text \<open>
  The HTTP server of src/http/session.cpp: the static file handler, the choice between static
  routes and the router, and the session coroutine as a state machine over the outcomes of its
  asynchronous operations.
\<close>

section \<open>Paths of static files\<close>

text \<open>\<open>rfind\<close> of one character: the suffix from its last occurrence on.\<close>

definition from_last :: "char \<Rightarrow> string \<Rightarrow> string option" where
  "from_last c s = (if c \<in> set s then Some (c # rev (takeWhile (\<lambda>x. x \<noteq> c) (rev s))) else None)"

definition mime_type :: "string \<Rightarrow> string" where
  "mime_type path =
     (let ext = (case from_last CHR ''.'' path of None \<Rightarrow> [] | Some e \<Rightarrow> e) in get_mime_type ext)"

definition path_cat :: "string \<Rightarrow> string \<Rightarrow> string" where
  "path_cat base path =
     (if base = [] then path
      else (if last base = CHR ''/'' then butlast base else base) @ path)"

text \<open>
  The file a request for \<open>path\<close> under \<open>doc_root\<close> opens: \<open>None\<close> when the path is refused.
  \<open>path.back()\<close> of an empty string is undefined.
\<close>

definition static_file_path :: "string \<Rightarrow> string \<Rightarrow> ub + string option" where
  "static_file_path path doc_root =
     (if path \<noteq> [] \<and> (hd path \<noteq> CHR ''/'' \<or> sublist ''..'' path) then Inr None
      else let p = path_cat doc_root path
           in if p = [] then Inl Out_of_bounds
              else Inr (Some (if last p = CHR ''/'' then p @ ''index.html'' else p)))"

section \<open>The static file handler\<close>

text \<open>Opening a file: its contents, \<open>no_such_file_or_directory\<close>, or another error with its message.\<close>

datatype open_result = File string | No_such_file | Open_error string

definition file_response :: "string \<Rightarrow> request \<Rightarrow> string \<Rightarrow> string \<Rightarrow> response" where
  "file_response ver req path contents =
     content_length (length contents)
       \<lparr>res_status = 200, res_version = req_version req, res_keep_alive = req_keep_alive req,
        res_fields = set_field ''Content-Type'' (mime_type path) (set_field ''Server'' ver []),
        res_body = (if req_method req = Verb_head then [] else contents)\<rparr>"

definition static_file_handler ::
  "string \<Rightarrow> (string \<Rightarrow> open_result) \<Rightarrow> request \<Rightarrow> string \<Rightarrow> string \<Rightarrow> ub + response" where
  "static_file_handler ver fs req path doc_root =
     (case static_file_path path doc_root of
        Inl e \<Rightarrow> Inl e
      | Inr None \<Rightarrow> Inr (bad_request ver req ''Illegal request-target'')
      | Inr (Some p) \<Rightarrow>
          Inr (case fs (cstr p) of
                 No_such_file \<Rightarrow> not_found ver req
               | Open_error msg \<Rightarrow> server_error ver req msg
               | File contents \<Rightarrow> file_response ver req p contents))"

section \<open>The server\<close>

text \<open>
  What leaves a coroutine as an exception: a \<open>boost::system::system_error\<close> with its code, or
  something else.
\<close>

datatype io_error = Connection_reset | Timed_out | End_of_stream | Not_connected | Io_error nat

datatype exn = System_error io_error | Other_exn string

record options_t =
  opt_timeout :: int
  opt_body_limit :: int

record 'w server =
  sv_router :: "('w, exn) router"
  sv_options :: options_t
  sv_static :: "(string \<times> string) list"

definition server_init :: "options_t \<Rightarrow> 'w server" where
  "server_init opts = \<lparr>sv_router = router_init, sv_options = opts, sv_static = []\<rparr>"

definition serve_static :: "string \<Rightarrow> string \<Rightarrow> 'w server \<Rightarrow> 'w server" where
  "serve_static path doc_root sv = sv\<lparr>sv_static := smap_emplace (<) path doc_root (sv_static sv)\<rparr>"

definition set_route_prefix :: "string \<Rightarrow> 'w server \<Rightarrow> 'w server" where
  "set_route_prefix p sv = sv\<lparr>sv_router := set_prefix p (sv_router sv)\<rparr>"

definition server_route ::
  "verb \<Rightarrow> string \<Rightarrow> ('w, exn) handler \<Rightarrow> 'w server \<Rightarrow> route_error + 'w server" where
  "server_route m path h sv =
     (case add_route m path h (sv_router sv) of Inl e \<Rightarrow> Inl e | Inr rt \<Rightarrow> Inr (sv\<lparr>sv_router := rt\<rparr>))"

definition static_prefix :: "string \<Rightarrow> string" where
  "static_prefix k = (if k = ''/'' then k else k @ ''/'')"

definition find_static :: "string \<Rightarrow> 'w server \<Rightarrow> (string \<times> string) option" where
  "find_static requri sv = List.find (\<lambda>kv. prefix (static_prefix (fst kv)) requri) (sv_static sv)"

definition req_is_a_upload :: "request \<Rightarrow> bool" where
  "req_is_a_upload h \<longleftrightarrow>
     req_method h = Verb_post \<and> prefix ''multipart/form-data'' (get_field ''Content-Type'' (req_fields h))"

text \<open>The answer to one request: a static file or the router.\<close>

definition respond ::
  "string \<Rightarrow> (string \<Rightarrow> open_result) \<Rightarrow> 'w server \<Rightarrow> request \<Rightarrow> 'w \<Rightarrow> ub + (exn + response) \<times> 'w" where
  "respond ver fs sv req w =
     (case find_static (req_target req) sv of
        Some (k, doc_root) \<Rightarrow>
          (case static_file_handler ver fs req (drop (length k) (req_target req)) doc_root of
             Inl e \<Rightarrow> Inl e
           | Inr r \<Rightarrow> Inr (Inr r, w))
      | None \<Rightarrow> Inr (handle_request ver (sv_router sv) req w))"

section \<open>The session\<close>

text \<open>
  Where the coroutine is suspended, or how it ended: \<open>Closed\<close> after the shutdown, \<open>Dropped\<close> by
  \<open>co_return\<close> in the catch clause, \<open>Thrown\<close> with an exception, \<open>Undefined\<close> in undefined behaviour.
\<close>

datatype session_state =
    Reading_header
  | Reading_body request
  | Writing response
  | Closed
  | Dropped
  | Thrown exn
  | Undefined ub

text \<open>The outcome of the operation the session waits for.\<close>

datatype io = Got_header request | Got_request request | Sent | Failed io_error

definition on_exception :: "exn \<Rightarrow> session_state" where
  "on_exception e =
     (case e of
        System_error ec \<Rightarrow>
          (if ec = Connection_reset \<or> ec = Timed_out then Dropped
           else if ec \<noteq> End_of_stream then Thrown e else Closed)
      | Other_exn _ \<Rightarrow> Thrown e)"

definition session_timeout :: "'w server \<Rightarrow> int" where
  "session_timeout sv =
     (if 0 < opt_timeout (sv_options sv) then opt_timeout (sv_options sv) else 2147483647)"

definition session_body_limit :: "'w server \<Rightarrow> int option" where
  "session_body_limit sv =
     (if 0 < opt_body_limit (sv_options sv) then Some (opt_body_limit (sv_options sv)) else None)"

text \<open>One resumption of the coroutine; \<open>None\<close> where the outcome does not fit the operation.\<close>

fun session_step ::
  "string \<Rightarrow> (string \<Rightarrow> open_result) \<Rightarrow> 'w server \<Rightarrow> session_state \<times> 'w \<Rightarrow> io
     \<Rightarrow> (session_state \<times> 'w) option" where
  "session_step ver fs sv (Reading_header, w) (Got_header h) =
     Some (if req_is_a_upload h then Reading_header else Reading_body h, w)"
| "session_step ver fs sv (Reading_body h, w) (Got_request req) =
     (case respond ver fs sv req w of
        Inl e \<Rightarrow> Some (Undefined e, w)
      | Inr (Inl e, w') \<Rightarrow> Some (on_exception e, w')
      | Inr (Inr r, w') \<Rightarrow> Some (Writing r, w'))"
| "session_step ver fs sv (Writing r, w) Sent =
     Some (if res_keep_alive r then Reading_header else Closed, w)"
| "session_step ver fs sv (Reading_header, w) (Failed ec) = Some (on_exception (System_error ec), w)"
| "session_step ver fs sv (Reading_body h, w) (Failed ec) = Some (on_exception (System_error ec), w)"
| "session_step ver fs sv (Writing r, w) (Failed ec) = Some (on_exception (System_error ec), w)"
| "session_step ver fs sv st ev = None"

text \<open>
  A run of a session: the events, with the responses completely written, from the accepted
  connection on.
\<close>

inductive session_run ::
  "string \<Rightarrow> (string \<Rightarrow> open_result) \<Rightarrow> 'w server \<Rightarrow> 'w \<Rightarrow> io list \<Rightarrow> response list
     \<Rightarrow> session_state \<times> 'w \<Rightarrow> bool" for ver fs sv w where
  start: "session_run ver fs sv w [] [] (Reading_header, w)"
| step: "session_run ver fs sv w evs rs (st, w1) \<Longrightarrow> session_step ver fs sv (st, w1) ev = Some (st', w2) \<Longrightarrow>
     rs' = rs @ (case (st, ev) of (Writing r, Sent) \<Rightarrow> [r] | _ \<Rightarrow> []) \<Longrightarrow>
     session_run ver fs sv w (evs @ [ev]) rs' (st', w2)"

end
