(* ===== verification/Session_Runs.thy ===== *)
theory Session_Runs
  imports Session
begin

text \<open>
  Properties of the server: static files stay below their root, responses are the answers to the
  requests in order, and a session outlives only keep-alive responses.
\<close>

section \<open>Static files\<close>

abbreviation doc_base :: "string \<Rightarrow> string" where
  "doc_base root \<equiv> (if root \<noteq> [] \<and> last root = CHR ''/'' then butlast root else root)"

lemma dotdot_append:
  "sublist ''..'' (a @ b) \<longleftrightarrow> sublist ''..'' a \<or> sublist ''..'' b
     \<or> (a \<noteq> [] \<and> b \<noteq> [] \<and> last a = CHR ''.'' \<and> hd b = CHR ''.'')"
proof (induction a)
  case (Cons x a)
  show ?case
  proof (cases a)
    case Nil
    then show ?thesis by (cases b) (auto simp: sublist_Cons_right)
  next
    case (Cons y a')
    then show ?thesis using Cons.IH by (auto simp: sublist_Cons_right)
  qed
qed simp

lemma dotdot_butlast: "\<not> sublist ''..'' s \<Longrightarrow> \<not> sublist ''..'' (butlast s)"
  by (metis append_butlast_last_id butlast.simps(1) dotdot_append)

lemma path_cat_base: "path_cat root path = doc_base root @ path"
  by (simp add: path_cat_def)

lemma static_file_path_Some:
  "static_file_path path root = Inr (Some p) \<longleftrightarrow>
     (path = [] \<or> hd path = CHR ''/'' \<and> \<not> sublist ''..'' path) \<and> doc_base root @ path \<noteq> []
     \<and> p = doc_base root @ path @ (if last (doc_base root @ path) = CHR ''/'' then ''index.html'' else [])"
  unfolding static_file_path_def path_cat_base Let_def by auto

text \<open>
  C6. A static request opens the document root followed by the requested path, with \<open>index.html\<close>
  added to a directory, and nothing else: if the root itself contains no dot-dot, neither does the
  name of the file, so it cannot leave the root.
\<close>

theorem static_file_confined:
  assumes "static_file_path path root = Inr (Some p)" "\<not> sublist ''..'' root"
  shows "\<not> sublist ''..'' p
    \<and> (p = doc_base root @ path \<or> p = doc_base root @ path @ ''index.html'' \<and> last (doc_base root @ path) = CHR ''/'')
    \<and> (path = [] \<or> hd path = CHR ''/'')"
proof -
  let ?q = "doc_base root @ path"
  have path: "path = [] \<or> hd path = CHR ''/'' \<and> \<not> sublist ''..'' path"
    and p: "p = ?q @ (if last ?q = CHR ''/'' then ''index.html'' else [])"
    using assms(1) by (auto simp: static_file_path_Some)
  have "\<not> sublist ''..'' (doc_base root)" using assms(2) dotdot_butlast by auto
  then have "\<not> sublist ''..'' ?q" using path by (auto simp: dotdot_append)
  moreover have "\<not> sublist ''..'' ''index.html''" by code_simp
  ultimately have "\<not> sublist ''..'' p" unfolding p by (auto simp: dotdot_append)
  with p path show ?thesis by auto
qed

theorem static_file_confined_witness:
  "\<not> sublist ''..'' ''www/a/index.html''"
proof -
  have "static_file_path ''/a/'' ''www/'' = Inr (Some ''www/a/index.html'')" "\<not> sublist ''..'' ''www/''"
    by code_simp+
  from static_file_confined [OF this] show ?thesis by blast
qed


definition demo_server :: "nat server" where
  "demo_server = serve_static ''/s'' ''www/'' (server_init \<lparr>opt_timeout = 30, opt_body_limit = -1\<rparr>)"

definition get_req :: "string \<Rightarrow> bool \<Rightarrow> request" where
  "get_req target ka = \<lparr>req_method = Verb_get, req_target = target, req_version = 11,
     req_keep_alive = ka, req_fields = [], req_body = []\<rparr>"


text \<open>
  A server whose only static route is \<open>/\<close> refuses every file: the route's slash is cut off the
  path, which the handler then rejects for not starting with one.
\<close>

lemma root_static_refuses:
  assumes "sv_static sv = [(''/'', root)]" "req_target req = CHR ''/'' # c # rest" "c \<noteq> CHR ''/''"
  shows "respond ver fs sv req w = Inr (Inr (bad_request ver req ''Illegal request-target''), w)"
  using assms by (simp add: respond_def find_static_def static_prefix_def static_file_handler_def static_file_path_def)

lemma root_static_refuses_witness:
  "respond ''beast'' (\<lambda>_. File ''x=1'') (serve_static ''/'' ''www'' (server_init \<lparr>opt_timeout = 30, opt_body_limit = -1\<rparr>))
      (get_req ''/a.js'' True) (0 :: nat)
    = Inr (Inr (bad_request ''beast'' (get_req ''/a.js'' True) ''Illegal request-target''), 0)"
  by (rule root_static_refuses [where root = "''www''" and c = "CHR ''a''" and rest = "''.js''"])
    (simp_all add: serve_static_def server_init_def get_req_def)

section \<open>Sessions\<close>

inductive_cases session_runE: "session_run ver fs sv w evs rs (st, w')"

definition ended :: "session_state \<Rightarrow> bool" where
  "ended st \<longleftrightarrow> (case st of Reading_header \<Rightarrow> False | Reading_body _ \<Rightarrow> False | Writing _ \<Rightarrow> False | _ \<Rightarrow> True)"

lemma ended_simps [simp]:
  "\<not> ended Reading_header" "\<not> ended (Reading_body h)" "\<not> ended (Writing r)"
  "ended Closed" "ended Dropped" "ended (Thrown e)" "ended (Undefined u)" "ended (on_exception e)"
  by (auto simp: ended_def on_exception_def split: exn.split)

lemma session_step_ended: "ended st \<Longrightarrow> session_step ver fs sv (st, w) ev = None"
  by (cases st; cases ev) simp_all

definition pending :: "session_state \<Rightarrow> response list" where
  "pending st = (case st of Writing r \<Rightarrow> [r] | _ \<Rightarrow> [])"

lemma pending_simps [simp]:
  "pending Reading_header = []" "pending (Reading_body h) = []" "pending (Writing r) = [r]"
  by (simp_all add: pending_def)

fun requests :: "io list \<Rightarrow> request list" where
  "requests [] = []"
| "requests (Got_request q # evs) = q # requests evs"
| "requests (ev # evs) = requests evs"

lemma requests_snoc:
  "requests (evs @ [ev]) = requests evs @ (case ev of Got_request q \<Rightarrow> [q] | _ \<Rightarrow> [])"
  by (induction evs rule: requests.induct) (auto split: io.split)

text \<open>The reference: the requests answered one after the other, until one fails.\<close>

fun answers :: "string \<Rightarrow> (string \<Rightarrow> open_result) \<Rightarrow> 'w server \<Rightarrow> 'w \<Rightarrow> request list \<Rightarrow> response list \<times> 'w" where
  "answers ver fs sv w [] = ([], w)"
| "answers ver fs sv w (q # qs) =
     (case respond ver fs sv q w of
        Inl e \<Rightarrow> ([], w)
      | Inr (Inl e, w1) \<Rightarrow> ([], w1)
      | Inr (Inr r, w1) \<Rightarrow> (let (rs, w2) = answers ver fs sv w1 qs in (r # rs, w2)))"

lemma answers_snoc:
  "answers ver fs sv w qs = (rs, w1) \<Longrightarrow> length rs = length qs \<Longrightarrow>
     answers ver fs sv w (qs @ [q]) =
       (case respond ver fs sv q w1 of
          Inl e \<Rightarrow> (rs, w1)
        | Inr (Inl e, w2) \<Rightarrow> (rs, w2)
        | Inr (Inr r, w2) \<Rightarrow> (rs @ [r], w2))"
proof (induction qs arbitrary: w rs)
  case (Cons p qs)
  then show ?case
    by (cases "respond ver fs sv p w" rule: sum.exhaust)
      (auto split: sum.splits prod.splits)
qed (auto split: sum.split prod.split)

lemma session_run_answers:
  "session_run ver fs sv w evs rs (st, w1) \<Longrightarrow>
     (if ended st then prefix rs (fst (answers ver fs sv w (requests evs)))
      else answers ver fs sv w (requests evs) = (rs @ pending st, w1)
        \<and> length (rs @ pending st) = length (requests evs))"
proof (induction evs rs "(st, w1)" arbitrary: st w1 rule: session_run.induct)
  case (step evs rs st w1 ev st' w2 rs')
  have open_st: "\<not> ended st" using step.hyps(3) by (metis option.distinct(1) session_step_ended)
  then have inv: "answers ver fs sv w (requests evs) = (rs @ pending st, w1)"
    "length (rs @ pending st) = length (requests evs)"
    using step.hyps(2) by simp_all
  show ?case
  proof (cases st)
    case Reading_header
    then show ?thesis
      using step.hyps(3,4) inv by (cases ev) (auto simp: requests_snoc)
  next
    case (Reading_body h)
    then show ?thesis
      using step.hyps(3,4) inv answers_snoc [OF inv]
      by (cases ev) (auto simp: requests_snoc split: sum.splits prod.splits)
  next
    case (Writing r)
    then show ?thesis
      using step.hyps(3,4) inv by (cases ev) (auto simp: requests_snoc)
  qed (use open_st in auto)
qed auto

text \<open>
  C4. The responses a session has written are the answers to the requests it has read, in order and
  without a gap; while the session is alive at most one answer, the one being written, is missing.
\<close>

theorem session_answers_in_order:
  assumes "session_run ver fs sv w evs rs (st, w')"
  shows "prefix rs (fst (answers ver fs sv w (requests evs)))
    \<and> (\<not> ended st \<longrightarrow> fst (answers ver fs sv w (requests evs)) = rs @ pending st
         \<and> length (requests evs) = length rs + length (pending st))"
  using session_run_answers [OF assms] by (auto split: if_splits)

lemma session_run_keep_alive:
  "session_run ver fs sv w evs rs (st, w1) \<Longrightarrow>
     (if ended st then \<forall>r \<in> set (butlast rs). res_keep_alive r else \<forall>r \<in> set rs. res_keep_alive r)"
proof (induction evs rs "(st, w1)" arbitrary: st w1 rule: session_run.induct)
  case (step evs rs st w1 ev st' w2 rs')
  have "\<not> ended st" using step.hyps(3) by (metis option.distinct(1) session_step_ended)
  then have inv: "\<forall>r \<in> set rs. res_keep_alive r" using step.hyps(2) by simp
  then have "\<forall>r \<in> set (butlast rs). res_keep_alive r" by (auto dest: in_set_butlastD)
  with inv show ?case
    using step.hyps(3,4) \<open>\<not> ended st\<close>
    by (cases st; cases ev) (auto split: if_splits sum.splits prod.splits)
qed simp

text \<open>
  A session goes on only after keep-alive responses: every response it has written, except possibly
  the last one of a session that has ended, allows the connection to be reused.
\<close>

lemma session_keep_alive:
  assumes "session_run ver fs sv w evs rs (st, w')"
  shows "(\<forall>r \<in> set (butlast rs). res_keep_alive r) \<and> (\<not> ended st \<longrightarrow> (\<forall>r \<in> set rs. res_keep_alive r))"
  using session_run_keep_alive [OF assms] by (auto split: if_splits dest: in_set_butlastD)

text \<open>
  C20. A session is closed by a shutdown in three cases only: the peer ended the stream, the last
  response written does not keep the connection alive, or a handler threw the end-of-stream error.
\<close>

theorem session_closed_cause:
  assumes "session_run ver fs sv w evs rs (Closed, w')"
  shows "evs \<noteq> [] \<and> (case last evs of
      Failed ec \<Rightarrow> ec = End_of_stream
    | Sent \<Rightarrow> rs \<noteq> [] \<and> \<not> res_keep_alive (last rs)
    | Got_request q \<Rightarrow> (\<exists>w1 w2. respond ver fs sv q w1 = Inr (Inl (System_error End_of_stream), w2))
    | Got_header h \<Rightarrow> False)"
proof -
  from assms obtain evs1 ev rs1 st w1 where "evs = evs1 @ [ev]"
    "session_step ver fs sv (st, w1) ev = Some (Closed, w')"
    "rs = rs1 @ (case (st, ev) of (Writing r, Sent) \<Rightarrow> [r] | _ \<Rightarrow> [])"
    by (cases rule: session_runE) auto
  then show ?thesis
    by (cases st; cases ev)
      (auto simp: on_exception_def split: if_splits sum.splits prod.splits exn.splits)
qed

section \<open>A run\<close>

definition demo_evs :: "bool \<Rightarrow> io list" where
  "demo_evs ka = [Got_header (get_req ''/x'' ka), Got_request (get_req ''/x'' ka), Sent]"

abbreviation demo_reply :: "bool \<Rightarrow> response" where
  "demo_reply ka \<equiv> not_found [] (get_req ''/x'' ka)"

lemma demo_respond:
  "respond [] (\<lambda>_. No_such_file) demo_server (get_req ''/x'' ka) 0 = Inr (Inr (demo_reply ka), 0)"
proof -
  have "find_static (req_target (get_req ''/x'' ka)) demo_server = None"
    "handle_request [] (sv_router demo_server) (get_req ''/x'' ka) 0 = (Inr (demo_reply ka), 0)"
    by (cases ka; code_simp)+
  then show ?thesis by (simp add: respond_def)
qed

lemma demo_run:
  "session_run [] (\<lambda>_. No_such_file) demo_server 0 (demo_evs ka) [demo_reply ka]
     (if ka then Reading_header else Closed, 0)"
  (is "session_run _ ?fs _ _ _ _ _")
proof -
  let ?q = "get_req ''/x'' ka"
  have up: "\<not> req_is_a_upload ?q" by (cases ka; code_simp)
  have ka: "res_keep_alive (demo_reply ka) = ka" by (cases ka; code_simp)
  have "session_run [] ?fs demo_server 0 [Got_header ?q] [] (Reading_body ?q, 0)"
    using step [OF start, of "[]" ?fs demo_server 0 "Got_header ?q"] up by fastforce
  then have "session_run [] ?fs demo_server 0 [Got_header ?q, Got_request ?q] [] (Writing (demo_reply ka), 0)"
    using step [of "[]" ?fs demo_server 0 "[Got_header ?q]" "[]" "Reading_body ?q" 0 "Got_request ?q"]
      demo_respond by fastforce
  then show ?thesis
    using step [of "[]" ?fs demo_server 0 "[Got_header ?q, Got_request ?q]" "[]" "Writing (demo_reply ka)" 0 Sent]
      ka by (fastforce simp: demo_evs_def)
qed

lemmas bye_run = demo_run [of False, simplified]

theorem session_answers_in_order_witness:
  "prefix [demo_reply False]
     (fst (answers [] (\<lambda>_. No_such_file) demo_server 0 (requests (demo_evs False))))"
  using session_answers_in_order [OF bye_run] by blast

lemma session_keep_alive_witness: "res_keep_alive (demo_reply True)"
  using session_keep_alive [OF demo_run [of True, simplified]] by simp

theorem session_closed_cause_witness:
  "last (demo_evs False) = Sent \<and> \<not> res_keep_alive (last [demo_reply False])"
proof -
  have l: "last (demo_evs False) = Sent" by (simp add: demo_evs_def)
  show ?thesis using session_closed_cause [OF bye_run] by (simp add: l)
qed

text \<open>The header of a form upload is dropped: nothing is read or answered, the next header is awaited.\<close>

lemma upload_ignored:
  "req_is_a_upload h \<Longrightarrow> session_step ver fs sv (Reading_header, w) (Got_header h) = Some (Reading_header, w)"
  by simp

end
