(* ===== verification/Listener.thy ===== *)
theory Listener
  imports Session_Runs
begin

text \<open>
  The server around the sessions (src/http/session.cpp): \<open>do_launch\<close> spawns the coroutine that
  listens, which spawns a session for every accepted connection.  The sessions interleave and
  share the state the handlers work on.
\<close>

section \<open>State\<close>

text \<open>The calls of \<open>do_listen\<close> in their order, each of which may throw; nobody looks at the exception.\<close>

datatype listen_state = Opening | Setting_option | Binding | Starting | Accepting | Stopped exn

text \<open>
  \<open>hs_sessions\<close> holds the sessions in the order of their connections, \<open>hs_wire\<close> what was sent on
  which connection, \<open>hs_stderr\<close> the messages printed.
\<close>

record 'w http_server =
  hs_listen :: listen_state
  hs_sessions :: "session_state list"
  hs_world :: 'w
  hs_wire :: "(nat \<times> response) list"
  hs_stderr :: "string list"

text \<open>\<open>make_address\<close> parses the address; a bad one throws out of \<open>do_launch\<close>.\<close>

definition do_launch ::
  "(string \<Rightarrow> io_error + 'a) \<Rightarrow> string \<Rightarrow> nat \<Rightarrow> 'w \<Rightarrow> exn + ('a \<times> nat) \<times> 'w http_server" where
  "do_launch make_address address port w =
     (case make_address address of
        Inl ec \<Rightarrow> Inl (System_error ec)
      | Inr addr \<Rightarrow>
          Inr ((addr, port),
            \<lparr>hs_listen = Opening, hs_sessions = [], hs_world = w, hs_wire = [], hs_stderr = []\<rparr>))"

section \<open>Steps\<close>

fun listen_step :: "listen_state \<Rightarrow> io_error option \<Rightarrow> listen_state" where
  "listen_step (Stopped e) r = Stopped e"
| "listen_step st (Some ec) = Stopped (System_error ec)"
| "listen_step Opening None = Setting_option"
| "listen_step Setting_option None = Binding"
| "listen_step Binding None = Starting"
| "listen_step Starting None = Accepting"
| "listen_step Accepting None = Accepting"

text \<open>The outcome of the call the listener is at, or of the operation a session waits for.\<close>

datatype hs_event = Listen_result "io_error option" | Session_event nat io

text \<open>What the completion handler of a session prints.\<close>

definition session_report :: "(exn \<Rightarrow> string) \<Rightarrow> session_state \<Rightarrow> string list" where
  "session_report what st = (case st of Thrown e \<Rightarrow> [''Error in session: '' @ what e] | _ \<Rightarrow> [])"

definition sent_by :: "session_state \<Rightarrow> io \<Rightarrow> response list" where
  "sent_by st ev = (case (st, ev) of (Writing r, Sent) \<Rightarrow> [r] | _ \<Rightarrow> [])"

fun hs_step ::
  "string \<Rightarrow> (string \<Rightarrow> open_result) \<Rightarrow> (exn \<Rightarrow> string) \<Rightarrow> 'w server \<Rightarrow> 'w http_server \<Rightarrow> hs_event
     \<Rightarrow> 'w http_server option" where
  "hs_step ver fs what sv hs (Listen_result r) =
     (case hs_listen hs of
        Stopped e \<Rightarrow> None
      | st \<Rightarrow>
          Some (hs\<lparr>hs_listen := listen_step st r,
                   hs_sessions := hs_sessions hs @ (if st = Accepting \<and> r = None then [Reading_header] else [])\<rparr>))"
| "hs_step ver fs what sv hs (Session_event i ev) =
     (if i < length (hs_sessions hs)
      then
        (case session_step ver fs sv (hs_sessions hs ! i, hs_world hs) ev of
           None \<Rightarrow> None
         | Some (st, w) \<Rightarrow>
             Some (hs\<lparr>hs_sessions := (hs_sessions hs)[i := st], hs_world := w,
                      hs_wire := hs_wire hs @ map (Pair i) (sent_by (hs_sessions hs ! i) ev),
                      hs_stderr := hs_stderr hs @ session_report what st\<rparr>))
      else None)"

fun hs_exec ::
  "string \<Rightarrow> (string \<Rightarrow> open_result) \<Rightarrow> (exn \<Rightarrow> string) \<Rightarrow> 'w server \<Rightarrow> 'w http_server \<Rightarrow> hs_event list
     \<Rightarrow> 'w http_server option" where
  "hs_exec ver fs what sv hs [] = Some hs"
| "hs_exec ver fs what sv hs (ev # evs) =
     (case hs_step ver fs what sv hs ev of
        None \<Rightarrow> None
      | Some hs' \<Rightarrow> hs_exec ver fs what sv hs' evs)"

section \<open>One session among the others\<close>

text \<open>A session whose surroundings put the shared state into any value before each of its steps.\<close>

fun env_exec ::
  "string \<Rightarrow> (string \<Rightarrow> open_result) \<Rightarrow> 'w server \<Rightarrow> session_state \<Rightarrow> ('w \<times> io) list
     \<Rightarrow> (session_state \<times> response list) option" where
  "env_exec ver fs sv st [] = Some (st, [])"
| "env_exec ver fs sv st ((w, ev) # wes) =
     (case session_step ver fs sv (st, w) ev of
        None \<Rightarrow> None
      | Some (st', w') \<Rightarrow>
          (case env_exec ver fs sv st' wes of
             None \<Rightarrow> None
           | Some (st'', rs) \<Rightarrow> Some (st'', sent_by st ev @ rs)))"

fun events_of :: "nat \<Rightarrow> hs_event list \<Rightarrow> io list" where
  "events_of i [] = []"
| "events_of i (Session_event j ev # evs) = (if j = i then ev # events_of i evs else events_of i evs)"
| "events_of i (Listen_result r # evs) = events_of i evs"

definition wire_of :: "nat \<Rightarrow> 'w http_server \<Rightarrow> response list" where
  "wire_of i hs = map snd (filter (\<lambda>x. fst x = i) (hs_wire hs))"

definition session_at :: "nat \<Rightarrow> 'w http_server \<Rightarrow> session_state" where
  "session_at i hs = (if i < length (hs_sessions hs) then hs_sessions hs ! i else Reading_header)"

text \<open>A step leaves every other session alone.\<close>

lemma hs_step_other:
  "hs_step ver fs what sv hs ev = Some hs' \<Longrightarrow> (\<forall>io. ev \<noteq> Session_event i io) \<Longrightarrow>
   session_at i hs' = session_at i hs \<and> wire_of i hs' = wire_of i hs"
  by (cases ev)
    (auto simp: session_at_def wire_of_def nth_append filter_map comp_def split: listen_state.splits if_splits option.splits)

lemma hs_step_own:
  "hs_step ver fs what sv hs (Session_event i io) = Some hs' \<Longrightarrow>
   \<exists>w'. session_step ver fs sv (session_at i hs, hs_world hs) io = Some (session_at i hs', w')
     \<and> wire_of i hs' = wire_of i hs @ sent_by (session_at i hs) io"
  by (auto simp: session_at_def wire_of_def comp_def filter_map split: if_splits option.splits)

lemma hs_exec_env:
  "hs_exec ver fs what sv hs evs = Some hs' \<Longrightarrow>
   \<exists>wes rs. map snd wes = events_of i evs \<and> env_exec ver fs sv (session_at i hs) wes = Some (session_at i hs', rs)
     \<and> wire_of i hs' = wire_of i hs @ rs"
proof (induction evs arbitrary: hs)
  case (Cons ev evs)
  then obtain hs1 where s: "hs_step ver fs what sv hs ev = Some hs1" "hs_exec ver fs what sv hs1 evs = Some hs'"
    by (auto split: option.splits)
  obtain wes rs where IH: "map snd wes = events_of i evs"
    "env_exec ver fs sv (session_at i hs1) wes = Some (session_at i hs', rs)" "wire_of i hs' = wire_of i hs1 @ rs"
    using Cons.IH [OF s(2)] by blast
  show ?case
  proof (cases "\<exists>io. ev = Session_event i io")
    case True
    then obtain io where io: "ev = Session_event i io" by blast
    obtain w' where w': "session_step ver fs sv (session_at i hs, hs_world hs) io = Some (session_at i hs1, w')"
      "wire_of i hs1 = wire_of i hs @ sent_by (session_at i hs) io"
      using hs_step_own s(1) unfolding io by blast
    show ?thesis
      by (rule exI [of _ "(hs_world hs, io) # wes"]) (use IH w' in \<open>simp add: io\<close>)
  next
    case False
    then have "session_at i hs1 = session_at i hs" "wire_of i hs1 = wire_of i hs"
      using hs_step_other [OF s(1)] by blast+
    moreover have "events_of i (ev # evs) = events_of i evs" using False by (cases ev) auto
    ultimately show ?thesis using IH by auto
  qed
qed simp

fun env_requests :: "('w \<times> io) list \<Rightarrow> ('w \<times> request) list" where
  "env_requests [] = []"
| "env_requests ((w, Got_request q) # wes) = (w, q) # env_requests wes"
| "env_requests (_ # wes) = env_requests wes"

text \<open>Each request answered in the state it finds, until one fails.\<close>

fun answers_in :: "string \<Rightarrow> (string \<Rightarrow> open_result) \<Rightarrow> 'w server \<Rightarrow> ('w \<times> request) list \<Rightarrow> response list" where
  "answers_in ver fs sv [] = []"
| "answers_in ver fs sv ((w, q) # qs) =
     (case respond ver fs sv q w of
        Inr (Inr r, w') \<Rightarrow> r # answers_in ver fs sv qs
      | _ \<Rightarrow> [])"

lemma env_exec_ended: "ended st \<Longrightarrow> env_exec ver fs sv st wes = Some (st', rs) \<Longrightarrow> wes = [] \<and> st' = st \<and> rs = []"
  by (cases wes) (auto simp: session_step_ended)

lemma env_exec_answers:
  "env_exec ver fs sv st wes = Some (st', rs) \<Longrightarrow>
   (if ended st' then prefix rs (pending st @ answers_in ver fs sv (env_requests wes))
    else pending st @ answers_in ver fs sv (env_requests wes) = rs @ pending st')"
proof (induction wes arbitrary: st rs)
  case (Cons we wes)
  obtain w ev where we: "we = (w, ev)" by force
  obtain st1 w1 rs1 where s: "session_step ver fs sv (st, w) ev = Some (st1, w1)"
    "env_exec ver fs sv st1 wes = Some (st', rs1)" "rs = sent_by st ev @ rs1"
    using Cons.prems by (auto simp: we split: option.splits)
  note IH = Cons.IH [OF s(2)]
  show ?case
  proof (cases "ended st1")
    case True
    then show ?thesis
      using env_exec_ended [OF True s(2)] s(1,3)
      by (cases st; cases ev) (auto simp: we sent_by_def pending_def split: if_splits sum.splits prod.splits)
  next
    case False
    then show ?thesis
      using IH s(1,3)
      by (cases st; cases ev) (auto simp: we sent_by_def pending_def split: if_splits sum.splits prod.splits)
  qed
qed simp

lemma map_snd_env_requests: "map snd (env_requests wes) = requests (map snd wes)"
  by (induction wes rule: env_requests.induct) auto

lemma hs_exec_append:
  "hs_exec ver fs what sv hs (es @ es') =
     (case hs_exec ver fs what sv hs es of None \<Rightarrow> None | Some hs' \<Rightarrow> hs_exec ver fs what sv hs' es')"
  by (induction es arbitrary: hs) (auto split: option.split)

lemma hs_exec_stopped:
  "hs_exec ver fs what sv hs evs = Some hs' \<Longrightarrow> hs_listen hs = Stopped e \<Longrightarrow>
   hs_listen hs' = Stopped e \<and> (\<forall>r. Listen_result r \<notin> set evs)"
proof (induction evs arbitrary: hs)
  case (Cons ev evs)
  then show ?case by (cases ev) (auto split: option.splits if_splits)
qed simp

text \<open>Two connections, their requests interleaved.\<close>

definition demo_hs :: "nat http_server" where
  "demo_hs = \<lparr>hs_listen = Opening, hs_sessions = [], hs_world = 0, hs_wire = [], hs_stderr = []\<rparr>"

definition demo_accept :: "hs_event list" where
  "demo_accept = replicate 6 (Listen_result None)"

definition demo_mix :: "hs_event list" where
  "demo_mix = demo_accept @
     [Session_event 0 (Got_header (get_req ''/x'' True)), Session_event 1 (Got_header (get_req ''/x'' False)),
      Session_event 1 (Got_request (get_req ''/x'' False)), Session_event 0 (Got_request (get_req ''/x'' True)),
      Session_event 1 Sent, Session_event 0 Sent]"

lemma demo_not_upload: "\<not> req_is_a_upload (get_req ''/x'' ka)"
  by (cases ka; code_simp)

lemma demo_reply_ka: "res_keep_alive (demo_reply ka) = ka"
  by (cases ka; code_simp)

lemma demo_accept_exec:
  "hs_exec [] fs what sv demo_hs (demo_accept @ evs) =
     hs_exec [] fs what sv (demo_hs\<lparr>hs_listen := Accepting, hs_sessions := [Reading_header, Reading_header]\<rparr>) evs"
  by (simp add: demo_accept_def demo_hs_def numeral_eq_Suc)

lemma demo_mix_exec:
  "hs_exec [] (\<lambda>_. No_such_file) (\<lambda>e. []) demo_server demo_hs demo_mix =
     Some \<lparr>hs_listen = Accepting, hs_sessions = [Reading_header, Closed], hs_world = 0,
           hs_wire = [(1, demo_reply False), (0, demo_reply True)], hs_stderr = []\<rparr>"
  unfolding demo_mix_def demo_accept_exec
  by (simp add: demo_hs_def demo_not_upload demo_respond demo_reply_ka session_report_def sent_by_def)

section \<open>Properties\<close>

text \<open>
  C36. However the sessions of a server interleave, what a connection receives is the answers to
  the requests read from that connection, in order and without a gap, each computed in the
  shared state of its moment; no response goes to another connection.
\<close>

theorem hs_sessions_isolated:
  assumes "do_launch make_address address port w = Inr (ep, hs0)" "hs_exec ver fs what sv hs0 evs = Some hs"
  shows "\<exists>qs. map snd qs = requests (events_of i evs) \<and> prefix (wire_of i hs) (answers_in ver fs sv qs)
    \<and> (ended (session_at i hs) \<or> answers_in ver fs sv qs = wire_of i hs @ pending (session_at i hs))"
proof -
  have hs0: "session_at i hs0 = Reading_header" "wire_of i hs0 = []"
    using assms(1) by (auto simp: do_launch_def session_at_def wire_of_def split: sum.splits)
  obtain wes rs where wes: "map snd wes = events_of i evs" "wire_of i hs = rs"
    "env_exec ver fs sv Reading_header wes = Some (session_at i hs, rs)"
    using hs_exec_env [OF assms(2), of i] by (auto simp: hs0)
  show ?thesis
    using env_exec_answers [OF wes(3)] wes(1,2)
    by (intro exI [of _ "env_requests wes"]) (auto simp: map_snd_env_requests split: if_splits)
qed

theorem hs_sessions_isolated_witness:
  "\<exists>qs. map snd qs = [get_req ''/x'' True] \<and> prefix [demo_reply True] (answers_in [] (\<lambda>_. No_such_file) demo_server qs)
     \<and> answers_in [] (\<lambda>_. No_such_file) demo_server qs = [demo_reply True]"
  using hs_sessions_isolated [of "\<lambda>a. Inr a" "[]" 80 "0 :: nat" "([], 80)" demo_hs, OF _ demo_mix_exec, of 0]
  by (simp add: do_launch_def demo_hs_def demo_mix_def demo_accept_def wire_of_def session_at_def numeral_eq_Suc)



end
