(* ===== verification/Client.thy ===== *)
theory Client
  imports Session
begin

text \<open>
  The HTTP client of src/http/client.cpp: the request it builds, the sequence of its network
  operations with the errors they end in, and the fetch of a URL.
\<close>

section \<open>The request\<close>

record fetch_options =
  fo_method :: verb
  fo_timeout :: int
  fo_headers :: "(string \<times> string) list"
  fo_body :: string

definition fetch_defaults :: fetch_options where
  "fetch_defaults = \<lparr>fo_method = Verb_get, fo_timeout = 30, fo_headers = [], fo_body = []\<rparr>"

text \<open>\<open>ver\<close> is \<open>BOOST_BEAST_VERSION_STRING\<close>; the headers are a map, visited in key order.\<close>

definition fetch_request :: "string \<Rightarrow> string \<Rightarrow> string \<Rightarrow> fetch_options \<Rightarrow> request" where
  "fetch_request ver hostname target opts =
     \<lparr>req_method = fo_method opts,
      req_target = (if target = [] then ''/'' else target),
      req_version = 11,
      req_keep_alive = True,
      req_fields = foldl (\<lambda>fs kv. set_field (fst kv) (snd kv) fs)
        (set_field ''User-Agent'' ver (set_field ''Host'' hostname [])) (fo_headers opts),
      req_body = []\<rparr>"

section \<open>Network operations\<close>

text \<open>The outcomes of the operations, as functions of what the client passes to them.\<close>

record 'ep network =
  net_resolve :: "string \<Rightarrow> string \<Rightarrow> io_error + 'ep"
  net_connect :: "'ep \<Rightarrow> io_error option"
  net_write :: "'ep \<Rightarrow> request \<Rightarrow> io_error option"
  net_read :: "'ep \<Rightarrow> request \<Rightarrow> io_error + string"
  net_shutdown :: "'ep \<Rightarrow> io_error option"

definition http_client_fetch_host ::
  "string \<Rightarrow> 'ep network \<Rightarrow> string \<Rightarrow> string \<Rightarrow> string \<Rightarrow> fetch_options \<Rightarrow> exn + string" where
  "http_client_fetch_host ver net hostname port target opts =
     (let req = fetch_request ver hostname target opts
      in case net_resolve net hostname port of
           Inl e \<Rightarrow> Inl (System_error e)
         | Inr ep \<Rightarrow>
             (case net_connect net ep of
                Some e \<Rightarrow> Inl (System_error e)
              | None \<Rightarrow>
                  (case net_write net ep req of
                     Some e \<Rightarrow> Inl (System_error e)
                   | None \<Rightarrow>
                       (case net_read net ep req of
                          Inl e \<Rightarrow> Inl (System_error e)
                        | Inr result \<Rightarrow>
                            (case net_shutdown net ep of
                               Some e \<Rightarrow> if e \<noteq> Not_connected then Inl (System_error e) else Inr result
                             | None \<Rightarrow> Inr result)))))"

text \<open>Reading \<open>u.port\<close> of a URL that left it unset is undefined.\<close>

definition http_client_fetch :: "string \<Rightarrow> 'ep network \<Rightarrow> string \<Rightarrow> fetch_options \<Rightarrow> ub + (exn + string)" where
  "http_client_fetch ver net url opts =
     (case url_parse url url_init of
        Inl e \<Rightarrow> Inl e
      | Inr (ok, u) \<Rightarrow>
          if \<not> ok then Inr (Inl (Other_exn (''http_client_fetch parse url error: '' @ url)))
          else (case u_port u of
              None \<Rightarrow> Inl Uninitialised
            | Some p \<Rightarrow>
                if p = nport then Inr (Inl (Other_exn (''http_client_fetch parse url error: '' @ url)))
                else Inr (http_client_fetch_host ver net (u_hostname u) (to_string p) (u_requri u) opts)))"

section \<open>Properties\<close>

lemma get_foldl_set_field:
  "get_field k (foldl (\<lambda>fs kv. set_field (fst kv) (snd kv) fs) fs kvs) =
     (case List.find (\<lambda>kv. map to_lower (fst kv) = map to_lower k) (rev kvs) of
        Some kv \<Rightarrow> snd kv
      | None \<Rightarrow> get_field k fs)"
  by (induction kvs rule: rev_induct) (auto simp: get_set_field)

lemma get_host_default:
  "get_field ''Host'' (set_field ''User-Agent'' ver (set_field ''Host'' hostname [])) = hostname"
proof -
  have "map to_lower ''User-Agent'' \<noteq> map to_lower ''Host''" by code_simp
  then show ?thesis by (simp only: get_set_field simp_thms if_False if_True)
qed

text \<open>
  The request the client sends: a header given in the options wins over the ones the client sets
  itself, whatever its letter case, and the last of two that differ in case only; without one, \<open>Host\<close>
  is the host name.  The target is never empty and the body is always empty, whatever the options say.
\<close>

lemma fetch_request_fields:
  "get_field ''Host'' (req_fields (fetch_request ver hostname target opts)) =
     (case List.find (\<lambda>kv. map to_lower (fst kv) = map to_lower ''Host'') (rev (fo_headers opts)) of
        Some kv \<Rightarrow> snd kv
      | None \<Rightarrow> hostname)
   \<and> req_target (fetch_request ver hostname target opts) \<noteq> []
   \<and> req_body (fetch_request ver hostname target opts) = []"
  by (simp add: fetch_request_def get_foldl_set_field get_host_default del: list.map split: option.split)


definition echo_net :: "string network" where
  "echo_net = \<lparr>net_resolve = (\<lambda>h p. Inr (h @ ''|'' @ p)), net_connect = (\<lambda>ep. None),
     net_write = (\<lambda>ep req. None), net_read = (\<lambda>ep req. Inr (ep @ ''|'' @ req_target req)),
     net_shutdown = (\<lambda>ep. Some Not_connected)\<rparr>"


text \<open>
  A fetch ends with the body of the response only when every operation succeeded (a shutdown that
  finds the peer gone counts as success); otherwise the first operation that failed decides the
  exception.
\<close>

lemma http_client_fetch_outcomes:
  "(http_client_fetch_host ver net h p t opts = Inr body) =
     (\<exists>ep. net_resolve net h p = Inr ep \<and> net_connect net ep = None
        \<and> net_write net ep (fetch_request ver h t opts) = None
        \<and> net_read net ep (fetch_request ver h t opts) = Inr body
        \<and> net_shutdown net ep \<in> {None, Some Not_connected})"
  by (auto simp: http_client_fetch_host_def Let_def split: sum.splits option.splits if_splits)

lemma url_parse_unix: "\<exists>v. url_parse (''unix://'' @ s) url_init = Inr (True, v) \<and> u_port v = None"
  by (simp add: url_parse_def Let_def scan_def rd_def url_init_def)

text \<open>
  Fetching a unix URL reads the port that the parser has left unset: undefined behaviour instead of
  an error.
\<close>

lemma http_client_fetch_unix:
  "http_client_fetch ver net (''unix://'' @ s) opts = Inl Uninitialised"
  using url_parse_unix [of s] by (auto simp: http_client_fetch_def)

end
