(* ===== verification/Multipart.thy ===== *)
theory Multipart
  imports Std_Regex
begin

text \<open>
  The multipart/form-data parser of include/ccl2/http/multipart_parser.h: the byte buffer with
  its two positions, the helpers on header lines, and the state machine of \<open>parse\<close>.
\<close>

section \<open>The buffer\<close>

record mbuf =
  mb_data :: string
  mb_spos :: nat
  mb_epos :: nat

definition mbuf_empty :: mbuf where
  "mbuf_empty = \<lparr>mb_data = [], mb_spos = 0, mb_epos = 0\<rparr>"

definition buf_size :: "mbuf \<Rightarrow> nat" where
  "buf_size b = mb_epos b - mb_spos b"

text \<open>\<open>buf_.substr(buf_spos_, l)\<close>; \<open>buf_data()\<close> with a length is the same bytes.\<close>

definition buf_head :: "nat \<Rightarrow> mbuf \<Rightarrow> string" where
  "buf_head l b = take l (drop (mb_spos b) (mb_data b))"

definition buf_erase :: "nat \<Rightarrow> mbuf \<Rightarrow> mbuf" where
  "buf_erase n b = b\<lparr>mb_spos := mb_spos b + n\<rparr>"

text \<open>The comparison loop of \<open>start_with\<close>.\<close>

fun match_at :: "string \<Rightarrow> nat \<Rightarrow> string \<Rightarrow> bool" where
  "match_at a p [] = True"
| "match_at a p (x # xs) = (a ! p = x \<and> match_at a (p + 1) xs)"

definition start_with :: "string \<Rightarrow> nat \<Rightarrow> nat \<Rightarrow> string \<Rightarrow> bool" where
  "start_with a spos epos s = (if epos - spos < length s then False else match_at a spos s)"

definition buf_start_with :: "string \<Rightarrow> mbuf \<Rightarrow> bool" where
  "buf_start_with s b = start_with (mb_data b) (mb_spos b) (mb_epos b) s"

text \<open>The inner loop of \<open>buf_find\<close>: the next position of one character before the end.\<close>

function find_char :: "string \<Rightarrow> nat \<Rightarrow> char \<Rightarrow> nat \<Rightarrow> nat option" where
  "find_char a epos c pos =
     (if epos \<le> pos then None else if a ! pos = c then Some pos else find_char a epos c (pos + 1))"
  by pat_completeness auto
termination by (relation "measure (\<lambda>(a, epos, c, pos). epos - pos)") auto

declare find_char.simps [simp del]

lemma from_Suc: "(\<forall>q. pos \<le> q \<and> q < n \<longrightarrow> P q) \<longleftrightarrow> (pos < n \<longrightarrow> P pos) \<and> (\<forall>q. Suc pos \<le> q \<and> q < n \<longrightarrow> P q)"
  by (metis Suc_leD Suc_leI le_refl order_le_less)

lemma find_char_Some:
  "find_char a epos c pos = Some p \<Longrightarrow> pos \<le> p \<and> p < epos \<and> a ! p = c \<and> (\<forall>q. pos \<le> q \<and> q < p \<longrightarrow> a ! q \<noteq> c)"
proof (induction a epos c pos rule: find_char.induct)
  case (1 a epos c pos)
  show ?case
  proof (cases "epos \<le> pos \<or> a ! pos = c")
    case True
    then show ?thesis using "1.prems" by (auto simp: find_char.simps [of a epos c pos] split: if_splits)
  next
    case False
    then have "find_char a epos c (pos + 1) = Some p"
      using "1.prems" by (simp add: find_char.simps [of a epos c pos])
    then show ?thesis using "1.IH" False by (subst from_Suc) simp
  qed
qed

lemma find_char_None: "find_char a epos c pos = None \<Longrightarrow> \<forall>q. pos \<le> q \<and> q < epos \<longrightarrow> a ! q \<noteq> c"
proof (induction a epos c pos rule: find_char.induct)
  case (1 a epos c pos)
  show ?case
  proof (cases "epos \<le> pos")
    case False
    then have "a ! pos \<noteq> c" "find_char a epos c (pos + 1) = None"
      using "1.prems" by (auto simp: find_char.simps [of a epos c pos] split: if_splits)
    then show ?thesis using "1.IH" False by (subst from_Suc) simp
  qed auto
qed

text \<open>The outer loop; the result is the offset from \<open>buf_spos_\<close>, or the size.\<close>

function find_loop :: "string \<Rightarrow> mbuf \<Rightarrow> nat \<Rightarrow> nat" where
  "find_loop s b off =
     (if mb_epos b \<le> off then buf_size b
      else case find_char (mb_data b) (mb_epos b) (hd s) off of
             None \<Rightarrow> buf_size b
           | Some pos \<Rightarrow>
               if mb_epos b - pos < length s then buf_size b
               else if start_with (mb_data b) pos (mb_epos b) s then pos - mb_spos b
               else find_loop s b (pos + 1))"
  by pat_completeness auto
termination
  by (relation "measure (\<lambda>(s, b, off). mb_epos b - off)") (auto dest: find_char_Some)

declare find_loop.simps [simp del]

text \<open>\<open>s.front()\<close> of an empty pattern is undefined.\<close>

definition buf_find :: "string \<Rightarrow> mbuf \<Rightarrow> ub + nat" where
  "buf_find s b = (if s = [] then Inl Out_of_bounds else Inr (find_loop s b (mb_spos b)))"

text \<open>The two loops of \<open>buf_append\<close>.\<close>

function copy_down :: "string \<Rightarrow> nat \<Rightarrow> nat \<Rightarrow> nat \<Rightarrow> string" where
  "copy_down a spos i n = (if i < n then copy_down (a[i := a ! (spos + i)]) spos (i + 1) n else a)"
  by pat_completeness auto
termination by (relation "measure (\<lambda>(a, spos, i, n). n - i)") auto

declare copy_down.simps [simp del]

fun write_at :: "string \<Rightarrow> nat \<Rightarrow> string \<Rightarrow> string" where
  "write_at a p [] = a"
| "write_at a p (c # cs) = write_at (a[p := c]) (p + 1) cs"

definition buf_append :: "string \<Rightarrow> mbuf \<Rightarrow> mbuf" where
  "buf_append d b =
     (let remaining = buf_size b;
          a1 = (if 0 < remaining \<and> 0 < mb_spos b then copy_down (mb_data b) (mb_spos b) 0 remaining
                else mb_data b);
          a2 = (if length a1 < remaining + length d
                then a1 @ replicate (remaining + length d - length a1) NUL else a1)
      in \<lparr>mb_data = write_at a2 remaining d, mb_spos = 0, mb_epos = remaining + length d\<rparr>)"

section \<open>Header lines\<close>

definition is_space_or_tab :: "char \<Rightarrow> bool" where
  "is_space_or_tab c \<longleftrightarrow> c = CHR '' '' \<or> c = CHR 0x09"

definition trim_range :: "string \<Rightarrow> nat \<times> nat" where
  "trim_range s =
     (length (takeWhile is_space_or_tab s), length s - length (takeWhile is_space_or_tab (rev s)))"

definition trim_copy :: "string \<Rightarrow> string" where
  "trim_copy s = (let (left, right) = trim_range s in take (right - left) (drop left s))"

definition start_with_case_ignore :: "string \<Rightarrow> string \<Rightarrow> bool" where
  "start_with_case_ignore a b \<longleftrightarrow>
     \<not> length a < length b \<and> list_all2 (\<lambda>x y. to_lower x = to_lower y) (take (length b) a) b"

text \<open>The expression for \<open>Content-Disposition\<close>, and its text in the source.\<close>

definition disposition_text :: string where
  "disposition_text =
     ''^Content-Disposition:'' @ [CHR 0x5C] @ ''s*form-data;'' @ [CHR 0x5C] @ ''s*name='' @ [CHR 0x22]
     @ ''(.*?)'' @ [CHR 0x22] @ ''(?:;'' @ [CHR 0x5C] @ ''s*filename='' @ [CHR 0x22] @ ''(.*?)''
     @ [CHR 0x22] @ '')?(?:;'' @ [CHR 0x5C] @ ''s*filename'' @ [CHR 0x5C] @ ''*='' @ [CHR 0x5C]
     @ ''S+)?'' @ [CHR 0x5C] @ ''s*$''"

definition match_disposition :: "string \<Rightarrow> string option list option" where
  "match_disposition header =
     (case rx_compile disposition_text of None \<Rightarrow> None | Some r \<Rightarrow> regex_match True r header)"

section \<open>The parser\<close>

record form_data =
  fd_name :: string
  fd_content :: string
  fd_filename :: string
  fd_content_type :: string

datatype mp_state = Initial_boundary | New_entry | Headers | Body | Boundary

record parser =
  mp_dash_boundary_crlf :: string
  mp_crlf_dash_boundary :: string
  mp_state :: mp_state
  mp_valid :: bool
  mp_file :: form_data
  mp_buf :: mbuf

abbreviation crlf :: string where "crlf \<equiv> [CR, LF]"
abbreviation dash :: string where "dash \<equiv> ''--''"
abbreviation dash_crlf :: string where "dash_crlf \<equiv> dash @ crlf"

definition parser_init :: parser where
  "parser_init = \<lparr>mp_dash_boundary_crlf = [], mp_crlf_dash_boundary = [], mp_state = Initial_boundary,
     mp_valid = False, mp_file = \<lparr>fd_name = [], fd_content = [], fd_filename = [], fd_content_type = []\<rparr>,
     mp_buf = mbuf_empty\<rparr>"

definition set_boundary :: "string \<Rightarrow> parser \<Rightarrow> parser" where
  "set_boundary boundary p =
     p\<lparr>mp_dash_boundary_crlf := dash @ boundary @ crlf, mp_crlf_dash_boundary := crlf @ dash @ boundary\<rparr>"

definition is_valid :: "parser \<Rightarrow> bool" where
  "is_valid p \<longleftrightarrow> mp_valid p"

definition clear_file_info :: "form_data \<Rightarrow> form_data" where
  "clear_file_info f = f\<lparr>fd_name := [], fd_filename := [], fd_content_type := []\<rparr>"

definition erase :: "nat \<Rightarrow> parser \<Rightarrow> parser" where
  "erase n p = p\<lparr>mp_buf := buf_erase n (mp_buf p)\<rparr>"

text \<open>
  The callbacks run on the state \<open>'w\<close> of the program around the parser.  An iteration of the loop
  goes on, or \<open>parse\<close> returns.
\<close>

type_synonym 'w content_receiver = "string \<Rightarrow> 'w \<Rightarrow> bool \<times> 'w"
type_synonym 'w header_receiver = "form_data \<Rightarrow> 'w \<Rightarrow> bool \<times> 'w"

datatype 'w outcome = Continue parser 'w | Return bool parser 'w

text \<open>One header line: \<open>None\<close> when it is neither a content type nor a content disposition.\<close>

definition header_line :: "string \<Rightarrow> form_data \<Rightarrow> form_data option" where
  "header_line header f =
     (if start_with_case_ignore header ''content-type:''
      then Some (f\<lparr>fd_content_type := trim_copy (drop (length ''content-type:'') header)\<rparr>)
      else case match_disposition header of
             None \<Rightarrow> None
           | Some m \<Rightarrow> Some (f\<lparr>fd_name := sub_str (m ! 0), fd_filename := sub_str (m ! 1)\<rparr>))"

text \<open>The loop over the header lines of an entry, at the position \<open>pos\<close> of the next line end.\<close>

lemma buf_find_le: "buf_find s b = Inr n \<Longrightarrow> n \<le> buf_size b"
proof -
  have "mb_spos b \<le> off \<Longrightarrow> find_loop s b off \<le> buf_size b" for off
  proof (induction s b off rule: find_loop.induct)
    case (1 s b off)
    show ?case
    proof (cases "find_char (mb_data b) (mb_epos b) (hd s) off")
      case (Some pos)
      then have "mb_spos b \<le> pos" "pos < mb_epos b" using "1.prems" find_char_Some by fastforce+
      then show ?thesis
        using "1.IH" [OF _ Some] Some by (subst find_loop.simps) (auto simp: buf_size_def)
    qed (simp add: find_loop.simps)
  qed
  then show "buf_find s b = Inr n \<Longrightarrow> n \<le> buf_size b"
    by (auto simp: buf_find_def split: if_splits)
qed

function header_loop ::
  "'w header_receiver \<Rightarrow> nat \<Rightarrow> parser \<Rightarrow> 'w \<Rightarrow> ub + 'w outcome" where
  "header_loop hcb pos p w =
     (if \<not> pos < buf_size (mp_buf p) then Inr (Return True p w)
      else if pos = 0 then
        (case hcb (mp_file p) w of
           (False, w') \<Rightarrow> Inr (Return False (p\<lparr>mp_valid := False\<rparr>) w')
         | (True, w') \<Rightarrow> Inr (Continue ((erase (length crlf) p)\<lparr>mp_state := Body\<rparr>) w'))
      else case header_line (buf_head pos (mp_buf p)) (mp_file p) of
             None \<Rightarrow> Inr (Return False (p\<lparr>mp_valid := False\<rparr>) w)
           | Some f \<Rightarrow>
               (let p1 = erase (pos + length crlf) (p\<lparr>mp_file := f\<rparr>)
                in case buf_find crlf (mp_buf p1) of
                     Inl e \<Rightarrow> Inl e
                   | Inr pos1 \<Rightarrow> header_loop hcb pos1 p1 w))"
  by pat_completeness auto
termination
  by (relation "measure (\<lambda>(hcb, pos, p, w). buf_size (mp_buf p))")
    (auto simp: erase_def buf_erase_def buf_size_def)

declare header_loop.simps [simp del]

definition mp_step ::
  "'w content_receiver \<Rightarrow> 'w header_receiver \<Rightarrow> parser \<Rightarrow> 'w \<Rightarrow> ub + 'w outcome" where
  "mp_step ccb hcb p w =
     (case mp_state p of
        Initial_boundary \<Rightarrow>
          (case buf_find (mp_dash_boundary_crlf p) (mp_buf p) of
             Inl e \<Rightarrow> Inl e
           | Inr pos \<Rightarrow>
               (let p1 = erase pos p; k = length (mp_dash_boundary_crlf p)
                in if buf_size (mp_buf p1) < k then Inr (Return True p1 w)
                   else if \<not> buf_start_with (mp_dash_boundary_crlf p) (mp_buf p1)
                   then Inr (Return False p1 w)
                   else Inr (Continue ((erase k p1)\<lparr>mp_state := New_entry\<rparr>) w)))
      | New_entry \<Rightarrow>
          Inr (Continue (p\<lparr>mp_file := clear_file_info (mp_file p), mp_state := Headers\<rparr>) w)
      | Headers \<Rightarrow>
          (case buf_find crlf (mp_buf p) of
             Inl e \<Rightarrow> Inl e
           | Inr pos \<Rightarrow> if 8192 < pos then Inr (Return False p w) else header_loop hcb pos p w)
      | Body \<Rightarrow>
          (let k = length (mp_crlf_dash_boundary p)
           in if buf_size (mp_buf p) < k then Inr (Return True p w)
              else case buf_find (mp_crlf_dash_boundary p) (mp_buf p) of
                     Inl e \<Rightarrow> Inl e
                   | Inr pos \<Rightarrow>
                       if pos < buf_size (mp_buf p) then
                         (case ccb (buf_head pos (mp_buf p)) w of
                            (False, w') \<Rightarrow> Inr (Return False (p\<lparr>mp_valid := False\<rparr>) w')
                          | (True, w') \<Rightarrow> Inr (Continue ((erase (pos + k) p)\<lparr>mp_state := Boundary\<rparr>) w'))
                       else let len = buf_size (mp_buf p) - k
                            in if 0 < len then
                                 (case ccb (buf_head len (mp_buf p)) w of
                                    (False, w') \<Rightarrow> Inr (Return False (p\<lparr>mp_valid := False\<rparr>) w')
                                  | (True, w') \<Rightarrow> Inr (Return True (erase len p) w'))
                               else Inr (Return True p w))
      | Boundary \<Rightarrow>
          (if buf_size (mp_buf p) < length crlf then Inr (Return True p w)
           else if buf_start_with crlf (mp_buf p)
           then Inr (Continue ((erase (length crlf) p)\<lparr>mp_state := New_entry\<rparr>) w)
           else if buf_size (mp_buf p) < length dash_crlf then Inr (Return True p w)
           else if buf_start_with dash_crlf (mp_buf p)
           then (let p1 = (erase (length dash_crlf) p)\<lparr>mp_valid := True\<rparr>
                 in Inr (Continue (erase (buf_size (mp_buf p1)) p1) w))
           else Inr (Return True p w)))"

text \<open>
  Every iteration that goes on makes the window shorter, but for \<open>New_entry\<close>, which is left at once.
\<close>

definition mp_measure :: "parser \<Rightarrow> nat" where
  "mp_measure p = 2 * buf_size (mp_buf p) + (if mp_state p = New_entry then 1 else 0)"

lemma buf_size_erase [simp]: "buf_size (mp_buf (erase n p)) = buf_size (mp_buf p) - n"
  by (simp add: erase_def buf_erase_def buf_size_def)

lemma erase_fields [simp]:
  "mp_state (erase n p) = mp_state p" "mp_file (erase n p) = mp_file p" "mp_valid (erase n p) = mp_valid p"
  "mp_dash_boundary_crlf (erase n p) = mp_dash_boundary_crlf p"
  "mp_crlf_dash_boundary (erase n p) = mp_crlf_dash_boundary p"
  by (simp_all add: erase_def)

lemma header_loop_Continue:
  "header_loop hcb pos p w = Inr (Continue p' w') \<Longrightarrow>
     mp_state p' = Body \<and> buf_size (mp_buf p') < buf_size (mp_buf p)"
proof (induction hcb pos p w rule: header_loop.induct)
  case (1 hcb pos p w)
  show ?case
  proof (cases "pos < buf_size (mp_buf p) \<and> pos \<noteq> 0")
    case False
    then show ?thesis
      using "1.prems" by (subst (asm) header_loop.simps) (auto split: if_splits prod.splits bool.splits)
  next
    case True
    then obtain f pos1 where f: "header_line (buf_head pos (mp_buf p)) (mp_file p) = Some f"
      and find: "buf_find crlf (mp_buf (erase (pos + length crlf) (p\<lparr>mp_file := f\<rparr>))) = Inr pos1"
      and rec: "header_loop hcb pos1 (erase (pos + length crlf) (p\<lparr>mp_file := f\<rparr>)) w = Inr (Continue p' w')"
      using "1.prems" by (subst (asm) header_loop.simps) (auto simp: Let_def split: option.splits sum.splits)
    show ?thesis
      using "1.IH" [OF _ _ f refl find] rec True by fastforce
  qed
qed

lemma mp_step_measure:
  assumes "mp_step ccb hcb p w = Inr (Continue p' w')" "buf_size (mp_buf p) \<noteq> 0"
  shows "mp_measure p' < mp_measure p"
proof (cases "mp_state p")
  case Initial_boundary
  have "Suc (2 * (s - (f + length x))) < 2 * s" if "x \<noteq> []" "\<not> s - f < length x" for s f and x :: string
    using that by (cases x) auto
  with Initial_boundary show ?thesis
    using assms by (auto simp: mp_step_def mp_measure_def Let_def buf_find_def split: if_splits)
next
  case Headers
  then show ?thesis
    using assms by (auto simp: mp_step_def mp_measure_def split: sum.splits if_splits dest!: header_loop_Continue)
qed (use assms in \<open>auto simp: mp_step_def mp_measure_def Let_def buf_find_def
  split: sum.splits if_splits prod.splits bool.splits\<close>)

function mp_loop ::
  "'w content_receiver \<Rightarrow> 'w header_receiver \<Rightarrow> parser \<Rightarrow> 'w \<Rightarrow> ub + bool \<times> parser \<times> 'w" where
  "mp_loop ccb hcb p w =
     (if buf_size (mp_buf p) = 0 then Inr (True, p, w)
      else case mp_step ccb hcb p w of
             Inl e \<Rightarrow> Inl e
           | Inr (Return ok p' w') \<Rightarrow> Inr (ok, p', w')
           | Inr (Continue p' w') \<Rightarrow> mp_loop ccb hcb p' w')"
  by pat_completeness auto
termination
  by (relation "measure (\<lambda>(ccb, hcb, p, w). mp_measure p)") (auto intro: mp_step_measure)

declare mp_loop.simps [simp del]

definition mp_parse ::
  "'w content_receiver \<Rightarrow> 'w header_receiver \<Rightarrow> string \<Rightarrow> parser \<Rightarrow> 'w \<Rightarrow> ub + bool \<times> parser \<times> 'w" where
  "mp_parse ccb hcb d p w = mp_loop ccb hcb (p\<lparr>mp_buf := buf_append d (mp_buf p)\<rparr>) w"

end
