(* ===== verification/Multipart_Buffer.thy ===== *)
theory Multipart_Buffer
  imports Multipart
begin

text \<open>
  The buffer of the multipart parser as an interface: the window between the two positions is a
  string, to which bytes are appended at the end and from which they are erased at the front.
  The locale states the laws, with their consequences; the interpretation proves them of the
  model of the buffer.
\<close>

section \<open>The first occurrence of a word\<close>

fun first_pos :: "string \<Rightarrow> string \<Rightarrow> nat" where
  "first_pos s [] = 0"
| "first_pos s (c # x) = (if prefix s (c # x) then 0 else Suc (first_pos s x))"

lemma first_pos_le: "first_pos s x \<le> length x"
  by (induction x) auto

lemma first_pos_hit: "first_pos s x < length x \<Longrightarrow> prefix s (drop (first_pos s x) x)"
  by (induction x) auto

lemma first_pos_before: "i < first_pos s x \<Longrightarrow> \<not> prefix s (drop i x)"
  by (induction x arbitrary: i) (auto simp: less_Suc_eq_0_disj split: if_splits)

lemma first_pos_skip:
  "k \<le> length x \<Longrightarrow> \<forall>i < k. \<not> prefix s (drop i x) \<Longrightarrow> first_pos s x = k + first_pos s (drop k x)"
proof (induction k arbitrary: x)
  case (Suc k)
  then obtain c y where x: "x = c # y" by (cases x) auto
  have "\<forall>i < k. \<not> prefix s (drop i y)" using Suc.prems(2) x by (metis Suc_mono drop_Suc_Cons)
  moreover have "\<not> prefix s x" using Suc.prems(2) by (metis drop0 zero_less_Suc)
  ultimately show ?case using Suc.IH [of y] Suc.prems(1) x by simp
qed simp

lemma first_pos_none: "\<forall>i < length x. \<not> prefix s (drop i x) \<Longrightarrow> first_pos s x = length x"
  using first_pos_skip [of "length x" x s] by simp

lemma first_pos_at:
  assumes "s \<noteq> []" "\<forall>i < length pre. \<not> prefix s (drop i (pre @ s @ post))"
  shows "first_pos s (pre @ s @ post) = length pre"
proof -
  have "first_pos s (s @ post) = 0" using assms(1) by (cases s) auto
  then show ?thesis
    using first_pos_skip [of "length pre" "pre @ s @ post" s] assms(2) by simp
qed

section \<open>The interface\<close>

locale window_buffer =
  fixes wf :: "'b \<Rightarrow> bool" and view :: "'b \<Rightarrow> string"
    and append :: "string \<Rightarrow> 'b \<Rightarrow> 'b" and erase :: "nat \<Rightarrow> 'b \<Rightarrow> 'b" and size :: "'b \<Rightarrow> nat"
    and head :: "nat \<Rightarrow> 'b \<Rightarrow> string" and starts :: "string \<Rightarrow> 'b \<Rightarrow> bool"
    and find :: "string \<Rightarrow> 'b \<Rightarrow> ub + nat"
  assumes append_wf: "wf b \<Longrightarrow> wf (append d b)"
    and append_view: "wf b \<Longrightarrow> view (append d b) = view b @ d"
    and erase_wf: "wf b \<Longrightarrow> n \<le> length (view b) \<Longrightarrow> wf (erase n b)"
    and erase_view: "wf b \<Longrightarrow> n \<le> length (view b) \<Longrightarrow> view (erase n b) = drop n (view b)"
    and size_view: "wf b \<Longrightarrow> size b = length (view b)"
    and head_view: "wf b \<Longrightarrow> n \<le> length (view b) \<Longrightarrow> head n b = take n (view b)"
    and starts_view: "wf b \<Longrightarrow> starts s b \<longleftrightarrow> prefix s (view b)"
    and find_view: "wf b \<Longrightarrow> s \<noteq> [] \<Longrightarrow> find s b = Inr (first_pos s (view b))"
begin

text \<open>Nothing is lost between what is taken from the front and what stays.\<close>

lemma head_erase: "wf b \<Longrightarrow> n \<le> length (view b) \<Longrightarrow> head n b @ view (erase n b) = view b"
  by (simp add: head_view erase_view)

lemma find_le: "wf b \<Longrightarrow> s \<noteq> [] \<Longrightarrow> find s b = Inr n \<Longrightarrow> n \<le> length (view b)"
  using first_pos_le by (auto simp: find_view)

text \<open>A word found below the size is at the front once what is before it has been erased.\<close>

lemma find_starts:
  "wf b \<Longrightarrow> s \<noteq> [] \<Longrightarrow> find s b = Inr n \<Longrightarrow> n < size b \<Longrightarrow> starts s (erase n b)"
  using first_pos_hit first_pos_le
  by (auto simp: find_view starts_view erase_wf erase_view size_view)

lemma find_at:
  assumes "wf b" "view b = pre @ s @ post" "s \<noteq> []" "\<forall>i < length pre. \<not> prefix s (drop i (view b))"
  shows "find s b = Inr (length pre)" "wf (erase (length pre + length s) b)"
    "view (erase (length pre + length s) b) = post" "head (length pre) b = pre"
    "size b = length pre + length s + length post"
  using assms first_pos_at [of s pre post]
  by (auto simp: find_view erase_view erase_wf head_view size_view)

text \<open>Chunks may be appended one by one or at once.\<close>

lemma append_chunks:
  "wf b \<Longrightarrow> wf (foldl (\<lambda>b d. append d b) b ds) \<and> view (foldl (\<lambda>b d. append d b) b ds) = view b @ concat ds"
  by (induction ds arbitrary: b) (auto simp: append_wf append_view)

end

section \<open>The model of the buffer\<close>

definition wf_buf :: "mbuf \<Rightarrow> bool" where
  "wf_buf b \<longleftrightarrow> mb_spos b \<le> mb_epos b \<and> mb_epos b \<le> length (mb_data b)"

definition window :: "mbuf \<Rightarrow> string" where
  "window b = take (mb_epos b - mb_spos b) (drop (mb_spos b) (mb_data b))"

lemma length_window: "wf_buf b \<Longrightarrow> length (window b) = buf_size b"
  by (auto simp: wf_buf_def window_def buf_size_def)

lemma drop_window: "drop k (window b) = take (mb_epos b - (mb_spos b + k)) (drop (mb_spos b + k) (mb_data b))"
  by (simp add: window_def drop_take add.commute)

lemma match_at_take: "p + length s \<le> length a \<Longrightarrow> match_at a p s \<longleftrightarrow> take (length s) (drop p a) = s"
proof (induction s arbitrary: p)
  case (Cons c s)
  then have "drop p a = a ! p # drop (p + 1) a"
    by (simp add: Cons_nth_drop_Suc)
  then show ?case using Cons by auto
qed simp

lemma prefix_take: "prefix s y \<longleftrightarrow> take (length s) y = s"
  by (metis append_eq_conv_conj append_take_drop_id prefix_def)

lemma start_with_prefix:
  assumes "wf_buf b" "mb_spos b + k \<le> mb_epos b"
  shows "start_with (mb_data b) (mb_spos b + k) (mb_epos b) s \<longleftrightarrow> prefix s (drop k (window b))"
proof (cases "mb_epos b - (mb_spos b + k) < length s")
  case True
  then show ?thesis by (auto simp: start_with_def drop_window dest: prefix_length_le)
next
  case False
  then have "mb_spos b + k + length s \<le> length (mb_data b)" using assms by (simp add: wf_buf_def)
  then show ?thesis
    using False by (simp add: start_with_def drop_window match_at_take prefix_take min_def)
qed

lemma copy_down_nth:
  "0 < spos \<Longrightarrow> spos + n \<le> length a \<Longrightarrow>
     length (copy_down a spos i n) = length a
     \<and> (\<forall>j < length a. copy_down a spos i n ! j = (if i \<le> j \<and> j < n then a ! (spos + j) else a ! j))"
proof (induction a spos i n rule: copy_down.induct)
  case (1 a spos i n)
  then show ?case
    by (subst (1 2) copy_down.simps) (auto simp: nth_list_update not_less_eq_eq dest: le_antisym)
qed

lemma write_at_eq: "p + length d \<le> length a \<Longrightarrow> write_at a p d = take p a @ d @ drop (p + length d) a"
proof (induction d arbitrary: a p)
  case (Cons c d)
  then show ?case
    by (simp add: take_write_Suc)
qed simp

lemma buf_append_window:
  assumes "wf_buf b"
  shows "wf_buf (buf_append d b)" "window (buf_append d b) = window b @ d"
proof -
  let ?r = "buf_size b"
  define a1 where "a1 = (if 0 < ?r \<and> 0 < mb_spos b then copy_down (mb_data b) (mb_spos b) 0 ?r else mb_data b)"
  define a2 where "a2 = (if length a1 < ?r + length d then a1 @ replicate (?r + length d - length a1) NUL else a1)"
  have b: "mb_spos b + ?r \<le> length (mb_data b)" using assms by (auto simp: wf_buf_def buf_size_def)
  have a1: "length a1 = length (mb_data b)"
    using copy_down_nth [of "mb_spos b" ?r "mb_data b" 0] b by (auto simp: a1_def)
  have "take ?r a1 = window b"
  proof (rule nth_equalityI)
    show "length (take ?r a1) = length (window b)"
      using b by (simp add: a1 length_window [OF assms])
    show "take ?r a1 ! i = window b ! i" if "i < length (take ?r a1)" for i
      using that b copy_down_nth [of "mb_spos b" ?r "mb_data b" 0]
      by (auto simp: a1_def window_def buf_size_def)
  qed
  then have a2: "take ?r a2 = window b" "?r + length d \<le> length a2"
    using b by (auto simp: a2_def a1)
  have "buf_append d b = \<lparr>mb_data = write_at a2 ?r d, mb_spos = 0, mb_epos = ?r + length d\<rparr>"
    by (simp only: buf_append_def Let_def a1_def [symmetric] a2_def [symmetric])
  moreover define x where "x = window b"
  moreover have "length x = ?r" by (simp add: x_def length_window [OF assms])
  ultimately have "buf_append d b
      = \<lparr>mb_data = x @ d @ drop (?r + length d) a2, mb_spos = 0, mb_epos = length x + length d\<rparr>"
    and "?r = length x"
    using a2 by (simp_all add: write_at_eq)
  moreover have "window \<lparr>mb_data = m, mb_spos = 0, mb_epos = e\<rparr> = take e m" for m e
    by (simp add: window_def)
  ultimately show "wf_buf (buf_append d b)" "window (buf_append d b) = window b @ d"
    by (simp_all add: wf_buf_def x_def [symmetric])
qed

lemma nth_window: "wf_buf b \<Longrightarrow> i < buf_size b \<Longrightarrow> mb_data b ! (mb_spos b + i) = window b ! i"
  by (simp add: window_def buf_size_def wf_buf_def)

lemma prefix_drop_hd: "prefix s (drop i x) \<Longrightarrow> s \<noteq> [] \<Longrightarrow> x ! i = hd s"
  by (cases s) (auto simp: prefix_def nth_via_drop)

text \<open>No occurrence of the pattern starts before the first place of its first character.\<close>

lemma find_char_window_None:
  assumes "wf_buf b" "s \<noteq> []" "find_char (mb_data b) (mb_epos b) (hd s) (mb_spos b + k) = None"
  shows "\<forall>i. k \<le> i \<and> i < buf_size b \<longrightarrow> \<not> prefix s (drop i (window b))"
proof (intro allI impI)
  fix i assume i: "k \<le> i \<and> i < buf_size b"
  then have "mb_data b ! (mb_spos b + i) \<noteq> hd s"
    using find_char_None [OF assms(3)] assms(1) by (auto simp: wf_buf_def buf_size_def)
  then show "\<not> prefix s (drop i (window b))" using i nth_window [OF assms(1)] prefix_drop_hd [OF _ assms(2)] by metis
qed

lemma find_char_window_Some:
  assumes "wf_buf b" "s \<noteq> []" "find_char (mb_data b) (mb_epos b) (hd s) (mb_spos b + k) = Some pos"
  obtains m where "pos = mb_spos b + m" "k \<le> m" "m < buf_size b"
    "\<forall>i. k \<le> i \<and> i < m \<longrightarrow> \<not> prefix s (drop i (window b))"
proof -
  have pos: "mb_spos b + k \<le> pos" "pos < mb_epos b" "\<forall>q. mb_spos b + k \<le> q \<and> q < pos \<longrightarrow> mb_data b ! q \<noteq> hd s"
    using find_char_Some [OF assms(3)] by blast+
  then obtain m where m: "pos = mb_spos b + m" "k \<le> m" "m < buf_size b"
    using assms(1) by (auto simp: le_iff_add wf_buf_def buf_size_def)
  have "\<not> prefix s (drop i (window b))" if "k \<le> i" "i < m" for i
    using that pos(3) m nth_window [OF assms(1), of i] prefix_drop_hd [OF _ assms(2), of i "window b"] by auto
  then show thesis using that m by blast
qed

lemma first_pos_from:
  assumes "k \<le> m" "m \<le> length x" "\<forall>i. k \<le> i \<and> i < m \<longrightarrow> \<not> prefix s (drop i x)"
  shows "k + first_pos s (drop k x) = m + first_pos s (drop m x)"
proof -
  have "first_pos s (drop k x) = (m - k) + first_pos s (drop (m - k) (drop k x))"
    by (rule first_pos_skip) (use assms in \<open>auto simp: add.commute\<close>)
  then show ?thesis using assms(1) by simp
qed

lemma find_loop_window:
  "wf_buf b \<Longrightarrow> s \<noteq> [] \<Longrightarrow> off = mb_spos b + k \<Longrightarrow> k \<le> buf_size b \<Longrightarrow>
     find_loop s b off = k + first_pos s (drop k (window b))"
proof (induction s b off arbitrary: k rule: find_loop.induct)
  case (1 s b off)
  let ?x = "window b"
  note step = find_loop.simps [of s b off]
  have len: "length ?x = buf_size b" using "1.prems"(1) by (rule length_window)
  have epos: "mb_epos b = mb_spos b + buf_size b" using "1.prems"(1) by (simp add: wf_buf_def buf_size_def)
  have none: "find_loop s b off = k + first_pos s (drop k ?x)"
    if "\<forall>i. k \<le> i \<and> i < buf_size b \<longrightarrow> \<not> prefix s (drop i ?x)" "find_loop s b off = buf_size b"
    using first_pos_none [of "drop k ?x" s] that "1.prems"(4) len by (auto simp: add.commute)
  show ?case
  proof (cases "find_char (mb_data b) (mb_epos b) (hd s) off")
    case None
    then have "find_loop s b off = buf_size b" by (simp add: step)
    then show ?thesis
      using find_char_window_None [OF "1.prems"(1,2), of k] None "1.prems"(3) by (intro none) simp_all
  next
    case (Some pos)
    then obtain m where m: "pos = mb_spos b + m" "k \<le> m" "m < buf_size b"
      and before: "\<forall>i. k \<le> i \<and> i < m \<longrightarrow> \<not> prefix s (drop i ?x)"
      unfolding "1.prems"(3) by (rule find_char_window_Some [OF "1.prems"(1,2)])
    have off: "\<not> mb_epos b \<le> off" using m epos "1.prems"(3) by simp
    note start = start_with_prefix [OF "1.prems"(1), of m s]
    consider (short) "mb_epos b - pos < length s"
      | (hit) "\<not> mb_epos b - pos < length s" "prefix s (drop m ?x)"
      | (miss) "\<not> mb_epos b - pos < length s" "\<not> prefix s (drop m ?x)" by blast
    then show ?thesis
    proof cases
      case short
      have "\<not> prefix s (drop i ?x)" if "m \<le> i" "i < buf_size b" for i
        using prefix_length_le [of s "drop i ?x"] that short m epos len by auto
      with before have "\<forall>i. k \<le> i \<and> i < buf_size b \<longrightarrow> \<not> prefix s (drop i ?x)" using not_le by blast
      then show ?thesis using short Some off by (intro none) (simp_all add: step)
    next
      case hit
      then have "first_pos s (drop m ?x) = 0" using m len by (cases "drop m ?x") auto
      then show ?thesis using first_pos_from [OF m(2) _ before] hit m Some off start epos len by (simp add: step)
    next
      case miss
      have "find_loop s b (pos + 1) = (m + 1) + first_pos s (drop (m + 1) ?x)"
        using "1.IH" [OF off Some miss(1), of "m + 1"] miss(2) start epos "1.prems" m by simp
      moreover have "k + first_pos s (drop k ?x) = (m + 1) + first_pos s (drop (m + 1) ?x)"
        by (rule first_pos_from) (use m len before miss(2) in \<open>auto simp: less_Suc_eq\<close>)
      ultimately show ?thesis using miss m Some off start epos by (simp add: step)
    qed
  qed
qed

interpretation wb: window_buffer wf_buf window buf_append buf_erase buf_size buf_head buf_start_with buf_find
proof
  fix b :: mbuf and n :: nat and s d :: string
  assume wf: "wf_buf b"
  show "wf_buf (buf_append d b)" "window (buf_append d b) = window b @ d"
    by (rule buf_append_window [OF wf])+
  show "buf_size b = length (window b)" by (simp add: length_window [OF wf])
  show "buf_start_with s b \<longleftrightarrow> prefix s (window b)"
    using start_with_prefix [OF wf, of 0 s] wf by (simp add: buf_start_with_def wf_buf_def)
  show "buf_find s b = Inr (first_pos s (window b))" if "s \<noteq> []"
    using find_loop_window [OF wf that, of _ 0] that by (simp add: buf_find_def)
  assume n: "n \<le> length (window b)"
  then have "n \<le> mb_epos b - mb_spos b" using length_window [OF wf] by (simp add: buf_size_def)
  then show "wf_buf (buf_erase n b)" using wf by (auto simp: wf_buf_def buf_erase_def)
  show "window (buf_erase n b) = drop n (window b)"
    by (simp add: buf_erase_def window_def drop_take add.commute)
  show "buf_head n b = take n (window b)"
    using \<open>n \<le> mb_epos b - mb_spos b\<close> by (simp add: buf_head_def window_def min_def)
qed

end
