(* ===== verification/Multipart_Message.thy ===== *)
theory Multipart_Message
  imports Multipart_Parse
begin

text \<open>
  What the multipart parser does with messages: a whole message in one chunk is taken apart into
  its entries, the content of an entry may be cut anywhere, and the first boundary may not.
\<close>

section \<open>Recording callbacks\<close>

datatype event = Header form_data | Content string

definition rec_content :: "string \<Rightarrow> event list \<Rightarrow> bool \<times> event list" where
  "rec_content d w = (True, w @ [Content d])"

definition rec_header :: "form_data \<Rightarrow> event list \<Rightarrow> bool \<times> event list" where
  "rec_header f w = (True, w @ [Header f])"

abbreviation rec_loop :: "parser \<Rightarrow> event list \<Rightarrow> ub + bool \<times> parser \<times> event list" where
  "rec_loop \<equiv> mp_loop rec_content rec_header"

text \<open>The parser in a given state, with a given window.\<close>

definition at :: "string \<Rightarrow> mp_state \<Rightarrow> string \<Rightarrow> parser \<Rightarrow> bool" where
  "at bd st x p \<longleftrightarrow> wf_parser bd p \<and> mp_state p = st \<and> view p = x \<and> fd_content (mp_file p) = []"

lemma atD: "at bd st x p \<Longrightarrow> wf_parser bd p" "at bd st x p \<Longrightarrow> mp_state p = st"
  "at bd st x p \<Longrightarrow> view p = x" "at bd st x p \<Longrightarrow> buf_size (mp_buf p) = length x"
  by (auto simp: at_def size_parser)

lemma at_patterns:
  "at bd st x p \<Longrightarrow> mp_dash_boundary_crlf p = dash @ bd @ crlf"
  "at bd st x p \<Longrightarrow> mp_crlf_dash_boundary p = crlf @ dash @ bd"
  by (auto simp: at_def wf_parser_def)

lemma at_erase:
  "at bd st (x @ y) p \<Longrightarrow> length x = n \<Longrightarrow> at bd st' y ((erase n p)\<lparr>mp_state := st'\<rparr>)"
  using erase_parser [of bd p n] by (auto simp: at_def)

lemma at_append: "at bd st x p \<Longrightarrow> at bd st (x @ d) (p\<lparr>mp_buf := buf_append d (mp_buf p)\<rparr>)"
  using append_parser by (auto simp: at_def)

lemma at_empty_loop: "at bd st [] p \<Longrightarrow> mp_loop ccb hcb p w = Inr (True, p, w)"
  by (subst mp_loop.simps) (simp add: atD(4))

lemma loop_Continue:
  assumes "at bd st x p" "x \<noteq> []" "mp_step ccb hcb p w = Inr (Continue p' w')"
  shows "mp_loop ccb hcb p w = mp_loop ccb hcb p' w'"
  using assms by (subst mp_loop.simps) (simp add: atD(4))

lemma loop_Return:
  assumes "at bd st x p" "x \<noteq> []" "mp_step ccb hcb p w = Inr (Return ok p' w')"
  shows "mp_loop ccb hcb p w = Inr (ok, p', w')"
  using assms by (subst mp_loop.simps) (simp add: atD(4))

section \<open>The first boundary\<close>

lemma prefix_drop_sublist: "prefix s (drop i x) \<Longrightarrow> sublist s x"
  by (metis append_take_drop_id prefix_def sublist_appendI)

lemma first_pos_absent: "\<not> sublist s x \<Longrightarrow> first_pos s x = length x"
  using prefix_drop_sublist by (blast intro: first_pos_none)

text \<open>
  Before the first boundary line: a chunk that does not complete it is thrown away whole, with
  everything kept from earlier chunks, and \<open>parse\<close> reports success; a boundary line cut by the end of
  a chunk is therefore never recognised.
\<close>

lemma initial_boundary_dropped:
  assumes "wf_parser bd p" "mp_state p = Initial_boundary"
    and "\<not> sublist (dash @ bd @ crlf) (window (mp_buf p) @ d)"
  shows "\<exists>p'. mp_parse ccb hcb d p w = Inr (True, p', w)
    \<and> wf_parser bd p' \<and> mp_state p' = Initial_boundary \<and> window (mp_buf p') = []"
proof -
  let ?p = "p\<lparr>mp_buf := buf_append d (mp_buf p)\<rparr>" and ?x = "view p @ d"
  have wf: "wf_parser bd ?p" and view: "view ?p = ?x" using append_parser [OF assms(1)] by auto
  have find: "buf_find (mp_dash_boundary_crlf ?p) (mp_buf ?p) = Inr (length ?x)"
    using find_parser [OF wf, of "mp_dash_boundary_crlf ?p"] first_pos_absent [OF assms(3)] assms(1) view
    by (simp add: wf_parser_def)
  have e: "wf_parser bd (erase (length ?x) ?p)" "view (erase (length ?x) ?p) = []"
    using erase_parser [OF wf, of "length ?x"] view by auto
  have size: "buf_size (mp_buf ?p) = length ?x" using size_parser [OF wf] view by simp
  show ?thesis
  proof (cases "?x = []")
    case True
    then have "mp_parse ccb hcb d p w = Inr (True, ?p, w)"
      unfolding mp_parse_def using size by (subst mp_loop.simps) simp
    then show ?thesis using wf view True assms(2) by auto
  next
    case False
    have "mp_step ccb hcb ?p w = Inr (Return True (erase (length ?x) ?p) w)"
      using assms(1,2) find size_parser [OF e(1)] e(2)
      by (simp add: mp_step_def Let_def wf_parser_def del: buf_size_erase)
    then have "mp_parse ccb hcb d p w = Inr (True, erase (length ?x) ?p, w)"
      unfolding mp_parse_def using False size by (subst mp_loop.simps) auto
    then show ?thesis using e assms(2) by auto
  qed
qed

lemma initial_boundary_dropped_witness:
  "\<exists>p'. mp_parse rec_content rec_header ''--B'' (set_boundary ''B'' parser_init) [] = Inr (True, p', [])
    \<and> window (mp_buf p') = []"
proof -
  let ?p = "set_boundary ''B'' parser_init"
  have "mp_state ?p = Initial_boundary" "\<not> sublist (dash @ ''B'' @ crlf) (window (mp_buf ?p) @ ''--B'')"
    by code_simp+
  from initial_boundary_dropped [OF wf_parser_init this, of rec_content rec_header "[]"]
  show ?thesis by blast
qed

lemma step_Initial:
  assumes "at bd Initial_boundary (dash @ bd @ crlf @ x) p"
  shows "\<exists>p'. at bd New_entry x p' \<and> mp_loop ccb hcb p w = mp_loop ccb hcb p' w"
proof -
  let ?s = "dash @ bd @ crlf"
  note wf = atD(1) [OF assms] and pat = at_patterns(1) [OF assms]
  have "first_pos ?s (view p) = 0"
    using first_pos_at [of ?s "[]" x] atD(3) [OF assms] by simp
  then have find: "buf_find ?s (mp_buf p) = Inr 0" using find_parser [OF wf, of ?s] by simp
  have e: "erase 0 p = p" by (simp add: erase_def buf_erase_def)
  let ?p' = "(erase (length ?s) p)\<lparr>mp_state := New_entry\<rparr>"
  have "buf_start_with ?s (mp_buf p)" using starts_parser [OF wf] atD(3) [OF assms] by simp
  then have "mp_step ccb hcb p w = Inr (Continue ?p' w)"
    using find e atD(2,4) [OF assms] by (simp add: mp_step_def Let_def pat)
  moreover have "at bd New_entry x ?p'" using at_erase [of bd _ ?s x p] assms by simp
  ultimately show ?thesis using loop_Continue [OF assms] by fastforce
qed

section \<open>Header lines\<close>

definition header_block :: "string list \<Rightarrow> string" where
  "header_block hs = concat (map (\<lambda>h. h @ crlf) hs) @ crlf"

fun header_file :: "string list \<Rightarrow> form_data \<Rightarrow> form_data option" where
  "header_file [] f = Some f"
| "header_file (h # hs) f = (case header_line h f of None \<Rightarrow> None | Some g \<Rightarrow> header_file hs g)"

definition line_ok :: "string \<Rightarrow> bool" where
  "line_ok h \<longleftrightarrow> h \<noteq> [] \<and> \<not> sublist crlf h"

lemma header_line_content: "header_line h f = Some g \<Longrightarrow> fd_content g = fd_content f"
  by (auto simp: header_line_def split: if_splits option.splits)

lemma line_end:
  assumes "line_ok h"
  shows "first_pos crlf (h @ crlf @ x) = length h"
proof (rule first_pos_at)
  show "\<forall>i < length h. \<not> prefix crlf (drop i (h @ crlf @ x))"
  proof (intro allI impI notI)
    fix i assume i: "i < length h" and p: "prefix crlf (drop i (h @ crlf @ x))"
    then obtain c r where d: "drop i h = c # r" by (metis Cons_nth_drop_Suc)
    with p i have "c = CR" by simp
    moreover have "r \<noteq> [] \<Longrightarrow> hd r = LF" using p i d by (cases r) auto
    moreover have "r \<noteq> []" using p i d by (cases r) auto
    ultimately have "prefix crlf (drop i h)" using d by (cases r) auto
    then have "sublist crlf h" by (metis append_take_drop_id prefix_imp_sublist sublist_append)
    then show False using assms by (simp add: line_ok_def)
  qed
qed simp

lemma header_loop_block:
  "at bd Headers (header_block hs @ x) p \<Longrightarrow> \<forall>h \<in> set hs. line_ok h \<Longrightarrow>
   header_file hs (mp_file p) = Some f \<Longrightarrow>
     \<exists>p'. header_loop rec_header (first_pos crlf (view p)) p w = Inr (Continue p' (w @ [Header f]))
       \<and> at bd Body x p'"
proof (induction hs arbitrary: p)
  case Nil
  have "first_pos crlf (view p) = 0" using Nil.prems(1) by (simp add: atD(3) header_block_def)
  moreover have "at bd Body x ((erase 2 p)\<lparr>mp_state := Body\<rparr>)"
    using at_erase [of bd Headers crlf x p 2] Nil.prems(1) by (simp add: header_block_def)
  ultimately show ?case
    using Nil.prems
    by (subst header_loop.simps) (simp add: atD(4) header_block_def rec_header_def numeral_2_eq_2)
next
  case (Cons h hs)
  let ?rest = "header_block hs @ x"
  have view: "view p = h @ crlf @ ?rest" using Cons.prems(1) by (simp add: atD(3) header_block_def)
  have pos: "first_pos crlf (view p) = length h" "0 < length h"
    unfolding view using line_end Cons.prems(2) by (auto simp: line_ok_def)
  obtain g where g: "header_line h (mp_file p) = Some g" "header_file hs g = Some f"
    using Cons.prems(3) by (auto split: option.splits)
  let ?p1 = "erase (length h + length crlf) (p\<lparr>mp_file := g\<rparr>)"
  have at1: "at bd Headers ?rest ?p1"
    using Cons.prems(1) header_line_content [OF g(1)]
      erase_parser [of bd "p\<lparr>mp_file := g\<rparr>" "length h + length crlf"] view
    by (auto simp: at_def)
  have "header_loop rec_header (length h) p w = header_loop rec_header (first_pos crlf (view ?p1)) ?p1 w"
    using pos g(1) find_parser [OF atD(1) [OF at1], of crlf] head_parser [OF atD(1) [OF Cons.prems(1)], of "length h"]
      size_parser [OF atD(1) [OF Cons.prems(1)]] view
    by (subst header_loop.simps) simp
  then show ?case
    using Cons.IH [OF at1] Cons.prems(2) g(2) pos(1) by simp
qed

section \<open>Entries\<close>

text \<open>The boundary does not occur in the content, nor across its end.\<close>

definition body_ok :: "string \<Rightarrow> string \<Rightarrow> bool" where
  "body_ok bd y \<longleftrightarrow> first_pos (crlf @ dash @ bd) (y @ crlf @ dash @ bd) = length y"

lemma body_ok_before:
  assumes "body_ok bd y" "i < length y"
  shows "\<not> prefix (crlf @ dash @ bd) (drop i (y @ crlf @ dash @ bd @ x))"
proof
  let ?s = "crlf @ dash @ bd"
  assume p: "prefix ?s (drop i (y @ crlf @ dash @ bd @ x))"
  then have "prefix ?s (drop i (y @ ?s) @ x)" using assms(2) by simp
  then have "prefix ?s (drop i (y @ ?s))"
    by (rule prefix_length_prefix) (use assms(2) in auto)
  then show False
    using first_pos_before [of i ?s "y @ ?s"] assms by (simp add: body_ok_def)
qed

lemma body_found: "body_ok bd y \<Longrightarrow> first_pos (crlf @ dash @ bd) (y @ crlf @ dash @ bd @ x) = length y"
  using first_pos_at [of "crlf @ dash @ bd" y x] body_ok_before by simp

lemma step_Body:
  assumes "at bd Body (y @ crlf @ dash @ bd @ x) p" "body_ok bd y"
  shows "\<exists>p'. at bd Boundary x p' \<and> rec_loop p w = rec_loop p' (w @ [Content y])"
proof -
  let ?s = "crlf @ dash @ bd"
  note wf = atD(1) [OF assms(1)] and pat = at_patterns(2) [OF assms(1)]
  have find: "buf_find ?s (mp_buf p) = Inr (length y)"
    using find_parser [OF wf, of ?s] body_found [OF assms(2)] by (simp add: atD(3) [OF assms(1)])
  have head: "buf_head (length y) (mp_buf p) = y"
    using head_parser [OF wf, of "length y"] by (simp add: atD(3) [OF assms(1)])
  let ?p' = "(erase (length y + length ?s) p)\<lparr>mp_state := Boundary\<rparr>"
  have "mp_step rec_content rec_header p w = Inr (Continue ?p' (w @ [Content y]))"
    using find head atD(2,4) [OF assms(1)] by (simp add: mp_step_def Let_def pat rec_content_def)
  moreover have "at bd Boundary x ?p'"
    using at_erase [of bd Body "y @ ?s" x p] assms(1) by simp
  ultimately show ?thesis using loop_Continue [OF assms(1)] by fastforce
qed

text \<open>An entry: its header lines and its content; the file information it is announced with.\<close>

type_synonym entry = "string list \<times> string"

definition no_file :: form_data where
  "no_file = \<lparr>fd_name = [], fd_content = [], fd_filename = [], fd_content_type = []\<rparr>"

definition entry_ok :: "string \<Rightarrow> entry \<Rightarrow> bool" where
  "entry_ok bd e \<longleftrightarrow> (\<forall>h \<in> set (fst e). line_ok h) \<and> (fst e = [] \<or> length (hd (fst e)) \<le> 8192)
     \<and> header_file (fst e) no_file \<noteq> None \<and> body_ok bd (snd e)"

definition entry_text :: "string \<Rightarrow> entry \<Rightarrow> string" where
  "entry_text bd e = header_block (fst e) @ snd e @ crlf @ dash @ bd"

definition entry_events :: "entry \<Rightarrow> event list" where
  "entry_events e = [Header (the (header_file (fst e) no_file)), Content (snd e)]"

lemma first_header: "line_ok h \<Longrightarrow> first_pos crlf (header_block (h # hs) @ x) = length h"
  using line_end [of h "header_block hs @ x"] by (simp add: header_block_def)

lemma step_entry:
  assumes "at bd New_entry (entry_text bd e @ x) p" "entry_ok bd e"
  shows "\<exists>p'. at bd Boundary x p' \<and> rec_loop p w = rec_loop p' (w @ entry_events e)"
proof -
  obtain hs y where e: "e = (hs, y)" by (cases e)
  obtain f where f: "header_file hs no_file = Some f" using assms(2) e by (auto simp: entry_ok_def)
  let ?p1 = "p\<lparr>mp_file := clear_file_info (mp_file p), mp_state := Headers\<rparr>"
  let ?y = "y @ crlf @ dash @ bd @ x"
  have fresh: "mp_file ?p1 = no_file"
    using assms(1) by (cases "mp_file p") (simp add: at_def clear_file_info_def no_file_def)
  have at1: "at bd Headers (header_block hs @ ?y) ?p1"
    using assms(1) fresh by (simp add: at_def e entry_text_def no_file_def)
  have loop1: "rec_loop p w = rec_loop ?p1 w"
    using loop_Continue [OF assms(1), of rec_content rec_header w ?p1 w] assms(1)
    by (simp add: mp_step_def atD(2) entry_text_def header_block_def)
  have lines: "\<forall>h \<in> set hs. line_ok h" using assms(2) e by (simp add: entry_ok_def)
  have hf: "header_file hs (mp_file ?p1) = Some f" by (simp only: fresh f)
  obtain p2 where at2: "at bd Body ?y p2"
    and hdr: "header_loop rec_header (first_pos crlf (view ?p1)) ?p1 w = Inr (Continue p2 (w @ [Header f]))"
    using header_loop_block [OF at1 lines hf, of w] by (elim exE conjE)
  have limit: "\<not> 8192 < first_pos crlf (view ?p1)"
  proof (cases hs)
    case Nil
    then show ?thesis using atD(3) [OF at1] by (simp add: header_block_def)
  next
    case (Cons h hs')
    then show ?thesis
      using atD(3) [OF at1] first_header [of h hs' ?y] assms(2) e by (simp add: entry_ok_def)
  qed
  have "mp_step rec_content rec_header ?p1 w = Inr (Continue p2 (w @ [Header f]))"
    using hdr limit find_parser [OF atD(1) [OF at1], of crlf] by (simp add: mp_step_def)
  then have loop2: "rec_loop ?p1 w = rec_loop p2 (w @ [Header f])"
    by (rule loop_Continue [OF at1, rotated]) (simp add: header_block_def)
  obtain p3 where "at bd Boundary x p3" "rec_loop p2 (w @ [Header f]) = rec_loop p3 ((w @ [Header f]) @ [Content y])"
    using step_Body [OF at2, of "w @ [Header f]"] assms(2) e by (auto simp: entry_ok_def)
  then show ?thesis using loop1 loop2 f e by (auto simp: entry_events_def)
qed

section \<open>Whole messages\<close>

text \<open>The entries after the first boundary line: each ends with a boundary, the last one is closed.\<close>

fun entries_text :: "string \<Rightarrow> entry list \<Rightarrow> string" where
  "entries_text bd [] = []"
| "entries_text bd [e] = entry_text bd e @ dash_crlf"
| "entries_text bd (e # es) = entry_text bd e @ crlf @ entries_text bd es"

definition message_text :: "string \<Rightarrow> entry list \<Rightarrow> string" where
  "message_text bd es = dash @ bd @ crlf @ entries_text bd es"

lemma step_next_entry:
  assumes "at bd Boundary (crlf @ x) p"
  shows "\<exists>p'. at bd New_entry x p' \<and> rec_loop p w = rec_loop p' w"
proof -
  let ?p' = "(erase 2 p)\<lparr>mp_state := New_entry\<rparr>"
  have "buf_start_with crlf (mp_buf p)" using starts_parser [OF atD(1) [OF assms]] atD(3) [OF assms] by simp
  then have "mp_step rec_content rec_header p w = Inr (Continue ?p' w)"
    using atD(2,4) [OF assms] by (simp add: mp_step_def numeral_2_eq_2)
  moreover have "at bd New_entry x ?p'" using at_erase [of bd Boundary crlf x p 2] assms by simp
  ultimately show ?thesis using loop_Continue [OF assms] by fastforce
qed

lemma step_close:
  assumes "at bd Boundary dash_crlf p"
  shows "\<exists>p'. at bd Boundary [] p' \<and> mp_valid p' \<and> rec_loop p w = Inr (True, p', w)"
proof -
  let ?p1 = "(erase (length dash_crlf) p)\<lparr>mp_valid := True\<rparr>"
  let ?p' = "erase (buf_size (mp_buf ?p1)) ?p1"
  have at1: "at bd Boundary [] ?p1"
    using at_erase [of bd Boundary dash_crlf "[]" p _ Boundary] assms atD(2) [OF assms] by (simp add: at_def)
  then have at2: "at bd Boundary [] ?p'"
    using erase_parser [of bd ?p1 0] atD(4) [OF at1] by (simp add: at_def del: buf_size_erase)
  have "buf_start_with dash_crlf (mp_buf p)" "\<not> buf_start_with crlf (mp_buf p)"
    using starts_parser [OF atD(1) [OF assms]] atD(3) [OF assms] by simp_all
  then have "mp_step rec_content rec_header p w = Inr (Continue ?p' w)"
    using atD(2,4) [OF assms] by (simp add: mp_step_def Let_def)
  then have "rec_loop p w = rec_loop ?p' w" by (rule loop_Continue [OF assms, rotated]) simp
  then show ?thesis using at2 at_empty_loop [OF at2] by (intro exI [of _ ?p']) simp
qed

lemma loop_entries:
  "at bd New_entry (entries_text bd es) p \<Longrightarrow> es \<noteq> [] \<Longrightarrow> \<forall>e \<in> set es. entry_ok bd e \<Longrightarrow>
     \<exists>p'. at bd Boundary [] p' \<and> mp_valid p' \<and> rec_loop p w = Inr (True, p', w @ concat (map entry_events es))"
proof (induction bd es arbitrary: p w rule: entries_text.induct)
  case (2 bd e)
  then obtain p1 where p1: "at bd Boundary dash_crlf p1" "rec_loop p w = rec_loop p1 (w @ entry_events e)"
    using step_entry [of bd e dash_crlf p w] by auto
  then show ?case using step_close [OF p1(1), of "w @ entry_events e"] by simp
next
  case (3 bd e e2 es)
  then obtain p1 where p1: "at bd Boundary (crlf @ entries_text bd (e2 # es)) p1"
    "rec_loop p w = rec_loop p1 (w @ entry_events e)"
    using step_entry [of bd e "crlf @ entries_text bd (e2 # es)" p w] by auto
  then obtain p2 where p2: "at bd New_entry (entries_text bd (e2 # es)) p2"
    "rec_loop p w = rec_loop p2 (w @ entry_events e)"
    using step_next_entry [OF p1(1), of "w @ entry_events e"] by auto
  then show ?case using "3.IH" [OF p2(1), of "w @ entry_events e"] "3.prems"(3) by simp
qed simp

lemma at_start: "at bd Initial_boundary d ((set_boundary bd parser_init)\<lparr>mp_buf := buf_append d mbuf_empty\<rparr>)"
proof -
  have "at bd Initial_boundary [] (set_boundary bd parser_init)"
    using wf_parser_init [of bd]
    by (simp add: at_def set_boundary_def parser_init_def mbuf_empty_def window_def)
  from at_append [OF this, of d] show ?thesis
    by (simp add: set_boundary_def parser_init_def)
qed

text \<open>
  C1. Round trip: a message written from entries (header lines without line break of which the first
  has at most 8192 bytes, contents in which the boundary does not occur) is parsed, in one chunk,
  back into exactly these entries, in order, each announced with the file its header lines
  describe; nothing is left in the buffer and the parser is valid.
\<close>

theorem mp_parse_message:
  assumes "es \<noteq> []" "\<forall>e \<in> set es. entry_ok bd e"
  shows "\<exists>p'. mp_parse rec_content rec_header (message_text bd es) (set_boundary bd parser_init) []
      = Inr (True, p', concat (map entry_events es))
    \<and> is_valid p' \<and> window (mp_buf p') = []"
proof -
  let ?p = "(set_boundary bd parser_init)\<lparr>mp_buf := buf_append (message_text bd es) mbuf_empty\<rparr>"
  obtain p1 where p1: "at bd New_entry (entries_text bd es) p1" "rec_loop ?p [] = rec_loop p1 []"
    using step_Initial [of bd "entries_text bd es" ?p rec_content rec_header "[]"] at_start [of bd "message_text bd es"]
    by (auto simp: message_text_def)
  from loop_entries [OF p1(1) assms, of "[]"] p1(2) obtain p' where
    "at bd Boundary [] p'" "mp_valid p'" "rec_loop ?p [] = Inr (True, p', concat (map entry_events es))"
    by auto
  moreover have "mp_buf (set_boundary bd parser_init) = mbuf_empty"
    by (simp add: set_boundary_def parser_init_def)
  ultimately show ?thesis by (auto simp: mp_parse_def is_valid_def atD(3))
qed

lemma disposition_line:
  "header_line (''Content-Disposition: form-data; name='' @ [CHR 0x22] @ ''f'' @ [CHR 0x22]) no_file
     = Some (no_file\<lparr>fd_name := ''f''\<rparr>)"
  by code_simp

lemma type_line:
  "header_line ''Content-Type: text/css '' f = Some (f\<lparr>fd_content_type := ''text/css''\<rparr>)"
proof -
  have "start_with_case_ignore ''Content-Type: text/css '' ''content-type:''" by code_simp
  moreover have "trim_copy (drop (length ''content-type:'') ''Content-Type: text/css '') = ''text/css''"
    by code_simp
  ultimately show ?thesis by (simp add: header_line_def)
qed

definition demo_entry :: entry where
  "demo_entry = ([''Content-Disposition: form-data; name='' @ [CHR 0x22] @ ''f'' @ [CHR 0x22],
     ''Content-Type: text/css ''], ''a{}'')"

lemma demo_entry_file:
  "header_file (fst demo_entry) no_file = Some (no_file\<lparr>fd_name := ''f'', fd_content_type := ''text/css''\<rparr>)"
  unfolding demo_entry_def fst_conv header_file.simps disposition_line type_line option.case by simp

lemma demo_entry_ok: "entry_ok ''B'' demo_entry"
proof -
  have "\<forall>h \<in> set (fst demo_entry). line_ok h" by code_simp
  moreover have "length (hd (fst demo_entry)) \<le> 8192" by (simp add: demo_entry_def)
  moreover have "body_ok ''B'' (snd demo_entry)" by code_simp
  ultimately show ?thesis using demo_entry_file by (simp add: entry_ok_def)
qed

theorem mp_parse_message_witness:
  "\<exists>p'. mp_parse rec_content rec_header (message_text ''B'' [demo_entry, demo_entry])
       (set_boundary ''B'' parser_init) []
     = Inr (True, p', concat (map entry_events [demo_entry, demo_entry])) \<and> is_valid p' \<and> window (mp_buf p') = []"
  by (rule mp_parse_message) (simp_all add: demo_entry_ok)

section \<open>Content in chunks\<close>

fun mp_feed ::
  "'w content_receiver \<Rightarrow> 'w header_receiver \<Rightarrow> string list \<Rightarrow> parser \<Rightarrow> 'w \<Rightarrow> ub + bool \<times> parser \<times> 'w" where
  "mp_feed ccb hcb [] p w = Inr (True, p, w)"
| "mp_feed ccb hcb (d # ds) p w =
     (case mp_parse ccb hcb d p w of
        Inl e \<Rightarrow> Inl e
      | Inr (ok, p', w') \<Rightarrow> if ok then mp_feed ccb hcb ds p' w' else Inr (False, p', w'))"

abbreviation rec_feed :: "string list \<Rightarrow> parser \<Rightarrow> event list \<Rightarrow> ub + bool \<times> parser \<times> event list" where
  "rec_feed \<equiv> mp_feed rec_content rec_header"

lemma feed_step:
  "mp_loop rec_content rec_header (p\<lparr>mp_buf := buf_append d (mp_buf p)\<rparr>) w = Inr (True, p', w') \<Longrightarrow>
     rec_feed (d # ds) p w = rec_feed ds p' w'"
  by (simp add: mp_parse_def)

definition closed :: "string \<Rightarrow> parser \<Rightarrow> bool" where
  "closed bd p \<longleftrightarrow> at bd Boundary [] p \<and> mp_valid p"

lemma feed_closed: "closed bd p \<Longrightarrow> concat ds = [] \<Longrightarrow> \<exists>p'. rec_feed ds p w = Inr (True, p', w) \<and> closed bd p'"
proof (induction ds arbitrary: p)
  case (Cons d ds)
  let ?p = "p\<lparr>mp_buf := buf_append d (mp_buf p)\<rparr>"
  have c: "closed bd ?p" using Cons.prems at_append [of bd Boundary "[]" p d] by (simp add: closed_def)
  then have "rec_feed (d # ds) p w = rec_feed ds ?p w"
    by (intro feed_step at_empty_loop [of bd Boundary]) (simp add: closed_def)
  then show ?case using Cons.IH [OF c] Cons.prems(2) by simp
qed simp

lemma loop_Boundary:
  assumes "at bd Boundary x p" "x @ z = dash_crlf"
  shows "\<exists>p'. rec_loop p w = Inr (True, p', w) \<and> (if z = [] then closed bd p' else at bd Boundary x p')"
proof (cases "z = []")
  case True
  then show ?thesis using step_close [of bd p w] assms by (auto simp: closed_def)
next
  case False
  have "prefix x dash_crlf" using assms(2) by (metis prefixI)
  have "length x + length z = 4" using arg_cong [OF assms(2), of length] by simp
  with False have "length x < 4" by (cases z) auto
  have nc: "\<not> prefix crlf x" using \<open>prefix x dash_crlf\<close> by (cases x) auto
  show ?thesis
  proof (cases "x = []")
    case True
    then show ?thesis using at_empty_loop [of bd Boundary p rec_content rec_header w] assms(1) False by auto
  next
    case ne: False
    have "mp_step rec_content rec_header p w = Inr (Return True p w)"
      using atD(2,4) [OF assms(1)] starts_parser [OF atD(1) [OF assms(1)]] atD(3) [OF assms(1)] nc \<open>length x < 4\<close>
      by (simp add: mp_step_def)
    from loop_Return [OF assms(1) ne this] show ?thesis using assms(1) False by auto
  qed
qed

lemma feed_Boundary:
  "at bd Boundary x p \<Longrightarrow> x @ concat ds = dash_crlf \<Longrightarrow> x \<noteq> dash_crlf \<Longrightarrow>
     \<exists>p'. rec_feed ds p w = Inr (True, p', w) \<and> closed bd p'"
proof (induction ds arbitrary: p x)
  case (Cons d ds)
  let ?p = "p\<lparr>mp_buf := buf_append d (mp_buf p)\<rparr>"
  have "at bd Boundary (x @ d) ?p" using at_append Cons.prems(1) .
  then obtain p' where p': "rec_loop ?p w = Inr (True, p', w)"
    "if concat ds = [] then closed bd p' else at bd Boundary (x @ d) p'"
    using loop_Boundary [of bd "x @ d" ?p "concat ds" w] Cons.prems(2) by auto
  have "rec_feed (d # ds) p w = rec_feed ds p' w" by (rule feed_step [OF p'(1)])
  moreover have "\<exists>p''. rec_feed ds p' w = Inr (True, p'', w) \<and> closed bd p''"
  proof (cases "concat ds = []")
    case True
    then show ?thesis using p'(2) feed_closed by auto
  next
    case False
    have eq: "(x @ d) @ concat ds = dash_crlf" using Cons.prems(2) by simp
    have "x @ d \<noteq> dash_crlf"
    proof
      assume "x @ d = dash_crlf"
      with eq have "concat ds = []" by (simp only: append_self_conv)
      with False show False by simp
    qed
    moreover have "at bd Boundary (x @ d) p'" using p'(2) False by presburger
    ultimately show ?thesis using Cons.IH eq by blast
  qed
  ultimately show ?case by simp
qed simp

text \<open>
  One call while the content goes on: what is delivered and what stays in the buffer are what was
  there; the boundary is not missed when it is complete.
\<close>

lemma loop_Body_more:
  assumes "at bd Body z p" "\<not> sublist (crlf @ dash @ bd) z"
  shows "\<exists>p' cs y. rec_loop p w = Inr (True, p', w @ map Content cs) \<and> z = concat cs @ y
    \<and> at bd Body y p' \<and> (concat cs = [] \<or> length y = length (crlf @ dash @ bd))"
proof -
  let ?s = "crlf @ dash @ bd" and ?len = "length z - length (crlf @ dash @ bd)"
  note wf = atD(1) [OF assms(1)] and view = atD(3) [OF assms(1)]
  have find: "buf_find ?s (mp_buf p) = Inr (length z)"
    using find_parser [OF wf, of ?s] first_pos_absent [OF assms(2)] by (simp add: view)
  have head: "buf_head ?len (mp_buf p) = take ?len z"
    using head_parser [OF wf, of ?len] by (simp add: view)
  consider "z = []" | "z \<noteq> []" "length z \<le> length ?s" | "length ?s < length z" by linarith
  then show ?thesis
  proof cases
    case 1
    then show ?thesis using at_empty_loop [of bd Body p] assms(1)
      by (intro exI [of _ p] exI [of _ "[]"] exI [of _ "[]"]) simp
  next
    case 2
    then have "mp_step rec_content rec_header p w = Inr (Return True p w)"
      using find atD(2,4) [OF assms(1)] by (simp add: mp_step_def at_patterns(2) [OF assms(1)] Let_def)
    from loop_Return [OF assms(1) 2(1) this] show ?thesis
      using assms(1) by (intro exI [of _ p] exI [of _ "[]"] exI [of _ z]) simp
  next
    case 3
    then have "mp_step rec_content rec_header p w = Inr (Return True (erase ?len p) (w @ [Content (take ?len z)]))"
      using find head atD(2,4) [OF assms(1)]
      by (simp add: mp_step_def at_patterns(2) [OF assms(1)] Let_def rec_content_def)
    then have "rec_loop p w = Inr (True, erase ?len p, w @ [Content (take ?len z)])"
      using loop_Return [OF assms(1)] 3 by fastforce
    moreover have "at bd Body (drop ?len z) (erase ?len p)"
      using erase_parser [OF wf, of ?len] view assms(1) by (simp add: at_def)
    ultimately show ?thesis
      using 3 by (intro exI [of _ "erase ?len p"] exI [of _ "[take ?len z]"] exI [of _ "drop ?len z"]) simp
  qed
qed

lemma body_absent:
  assumes "body_ok bd y" "z @ r = y @ crlf @ dash @ bd @ t" "length z < length y + length (crlf @ dash @ bd)"
  shows "\<not> sublist (crlf @ dash @ bd) z"
proof
  let ?s = "crlf @ dash @ bd"
  assume "sublist ?s z"
  then obtain a c where z: "z = a @ ?s @ c" by (auto simp: sublist_def)
  then have "length a < length y" using assms(3) by simp
  moreover have eq: "y @ ?s @ t = a @ ?s @ c @ r" using assms(2) z by simp
  have "prefix ?s (drop (length a) (y @ ?s @ t))" unfolding eq by simp
  ultimately show False using body_ok_before [OF assms(1), of "length a" t] by simp
qed

lemma body_ok_drop:
  assumes "body_ok bd y" "y = a @ y'"
  shows "body_ok bd y'"
proof -
  let ?s = "crlf @ dash @ bd"
  have "\<forall>i < length a. \<not> prefix ?s (drop i (y @ ?s))"
  proof (intro allI impI)
    fix i assume "i < length a"
    then show "\<not> prefix ?s (drop i (y @ ?s))"
      using body_ok_before [OF assms(1), of i "[]"] assms(2) by simp
  qed
  from first_pos_skip [OF _ this] assms show ?thesis by (simp add: body_ok_def)
qed

lemma append_split: "a @ b = c @ d \<Longrightarrow> length c \<le> length a \<Longrightarrow> \<exists>t. a = c @ t"
  by (metis append_eq_append_conv_if append_take_drop_id)

text \<open>The chunk that completes the boundary after the content, and the chunks after it.\<close>

lemma feed_Body_end:
  assumes "at bd Body (y @ (crlf @ dash @ bd) @ t) (p\<lparr>mp_buf := buf_append d (mp_buf p)\<rparr>)" "body_ok bd y"
    and rest: "t @ concat ds = dash_crlf"
  shows "\<exists>p'. rec_feed (d # ds) p w = Inr (True, p', w @ [Content y]) \<and> closed bd p'"
proof -
  let ?p = "p\<lparr>mp_buf := buf_append d (mp_buf p)\<rparr>"
  obtain p1 where p1: "at bd Boundary t p1" "rec_loop ?p w = rec_loop p1 (w @ [Content y])"
    using step_Body [of bd y t ?p w] assms(1,2) by auto
  obtain p2 where p2: "rec_loop p1 (w @ [Content y]) = Inr (True, p2, w @ [Content y])"
    "if concat ds = [] then closed bd p2 else at bd Boundary t p2"
    using loop_Boundary [OF p1(1) rest, of "w @ [Content y]"] by blast
  have feed: "rec_feed (d # ds) p w = rec_feed ds p2 (w @ [Content y])"
    by (rule feed_step) (simp add: p1(2) p2(1))
  show ?thesis
  proof (cases "concat ds = []")
    case True
    then show ?thesis using p2(2) feed_closed unfolding feed by auto
  next
    case nonempty: False
    have "t \<noteq> dash_crlf"
    proof
      assume "t = dash_crlf"
      with rest have "concat ds = []" by (simp only: append_self_conv)
      with nonempty show False by simp
    qed
    moreover have "at bd Boundary t p2" using p2(2) nonempty by presburger
    ultimately show ?thesis using feed_Boundary rest unfolding feed by blast
  qed
qed

lemma feed_Body:
  "at bd Body x p \<Longrightarrow> body_ok bd y \<Longrightarrow> x @ concat ds = y @ crlf @ dash @ bd @ dash_crlf \<Longrightarrow>
   length x < length y + length (crlf @ dash @ bd) \<Longrightarrow>
     \<exists>p' cs. rec_feed ds p w = Inr (True, p', w @ map Content cs) \<and> concat cs = y \<and> closed bd p'"
proof (induction ds arbitrary: p x y w)
  case Nil
  then have "length x = length (y @ crlf @ dash @ bd @ dash_crlf)" by simp
  then show ?case using Nil.prems(4) by simp
next
  case (Cons d ds)
  let ?s = "crlf @ dash @ bd" and ?z = "x @ d" and ?p = "p\<lparr>mp_buf := buf_append d (mp_buf p)\<rparr>"
  have at: "at bd Body ?z ?p" using at_append Cons.prems(1) .
  have all: "?z @ concat ds = y @ crlf @ dash @ bd @ dash_crlf" using Cons.prems(3) by simp
  show ?case
  proof (cases "length ?z < length y + length ?s")
    case True
    obtain p' cs x' where loop: "rec_loop ?p w = Inr (True, p', w @ map Content cs)"
      and x': "?z = concat cs @ x'" "at bd Body x' p'" "concat cs = [] \<or> length x' = length ?s"
      using loop_Body_more [OF at body_absent [OF Cons.prems(2) all True], of w] by blast
    have "length (concat cs) + length x' = length ?z" using arg_cong [OF x'(1), of length] by simp
    then have "length (concat cs) \<le> length y"
      using x'(3) True by (elim disjE) (simp_all del: concat_eq_Nil_conv)
    moreover have "y @ (?s @ dash_crlf) = concat cs @ (x' @ concat ds)" using all x'(1) by simp
    ultimately obtain y' where y: "y = concat cs @ y'" using append_split by metis
    have "x' @ concat ds = y' @ crlf @ dash @ bd @ dash_crlf" using all x'(1) y by simp
    moreover have "length x' < length y' + length ?s"
      using True arg_cong [OF x'(1), of length] arg_cong [OF y, of length] by simp
    ultimately obtain p2 cs2 where "rec_feed ds p' (w @ map Content cs)
        = Inr (True, p2, (w @ map Content cs) @ map Content cs2)" "concat cs2 = y'" "closed bd p2"
      using Cons.IH [OF x'(2) body_ok_drop [OF Cons.prems(2) y]] by blast
    then show ?thesis
      unfolding feed_step [OF loop] using y by (intro exI [of _ p2] exI [of _ "cs @ cs2"]) simp
  next
    case False
    then have "length (y @ ?s) \<le> length ?z" by simp
    moreover have "?z @ concat ds = (y @ ?s) @ dash_crlf" using all by simp
    ultimately have "\<exists>t. ?z = (y @ ?s) @ t" by (rule append_split [rotated])
    then obtain t where t: "?z = y @ ?s @ t" by auto
    then have rest: "t @ concat ds = dash_crlf" using all by simp
    have "at bd Body (y @ ?s @ t) ?p" using at unfolding t .
    from feed_Body_end [OF this Cons.prems(2) rest, of w] show ?thesis
      by (metis concat.simps append_Nil2 list.simps(8,9))
  qed
qed

text \<open>
  C2. The content of the last entry may arrive in any chunks, empty ones and a boundary cut anywhere
  included: the pieces handed to the callback are the content, every call succeeds, and at the end
  the parser is valid with an empty buffer.
\<close>

theorem mp_feed_content:
  assumes "wf_parser bd p" "mp_state p = Body" "window (mp_buf p) = []" "fd_content (mp_file p) = []"
    and "body_ok bd y" "concat ds = y @ crlf @ dash @ bd @ dash_crlf"
  shows "\<exists>p' cs. mp_feed rec_content rec_header ds p w = Inr (True, p', w @ map Content cs)
    \<and> concat cs = y \<and> is_valid p' \<and> window (mp_buf p') = []"
proof -
  have "at bd Body [] p" using assms(1-4) by (simp add: at_def)
  from feed_Body [OF this assms(5), of ds w] assms(6) show ?thesis
    by (auto simp: closed_def is_valid_def at_def)
qed

theorem mp_feed_content_witness:
  "\<exists>p' cs. mp_feed rec_content rec_header [''ab'', [CR], [], [LF], ''-'', ''-B-'', ''-'' @ crlf]
       ((set_boundary ''B'' parser_init)\<lparr>mp_state := Body\<rparr>) []
     = Inr (True, p', [] @ map Content cs) \<and> concat cs = ''ab'' \<and> is_valid p' \<and> window (mp_buf p') = []"
proof (rule mp_feed_content)
  show "wf_parser ''B'' ((set_boundary ''B'' parser_init)\<lparr>mp_state := Body\<rparr>)" using wf_parser_init by simp
  show "body_ok ''B'' ''ab''" by code_simp
qed (simp_all add: set_boundary_def parser_init_def window_def mbuf_empty_def)

end
