(* ===== verification/Asio_Pool.thy ===== *)
theory Asio_Pool
  imports Prelude
begin

text \<open>
  The thread pool of include/ccl2/asio_pool.h: an \<open>io_context\<close> run by a fixed number of threads,
  kept alive by a work guard until it is shut down, and the process-wide pool of the C-like
  interface.  The \<open>io_context\<close> is the part of the state its documentation describes: the tasks
  not yet started, whether it is stopped, and whether a guard counts as work.
\<close>

section \<open>State and operations\<close>

record 'h asio_pool =
  pool_stopped :: bool
  pool_workers :: nat
  pool_guard :: bool
  ctx_stopped :: bool
  ctx_tasks :: "'h list"
  ctx_threads :: nat

text \<open>\<open>ctx_threads\<close> counts the threads inside \<open>ctx_.run()\<close>.\<close>

definition pool_new :: "nat \<Rightarrow> string + 'h asio_pool" where
  "pool_new num =
     (if num = 0 then Inl ''Expect: num >= 1''
      else Inr \<lparr>pool_stopped = False, pool_workers = num, pool_guard = True, ctx_stopped = False,
                ctx_tasks = [], ctx_threads = 0\<rparr>)"

definition pool_enqueue :: "'h \<Rightarrow> 'h asio_pool \<Rightarrow> 'h asio_pool" where
  "pool_enqueue h p = p\<lparr>ctx_tasks := ctx_tasks p @ [h]\<rparr>"

text \<open>\<open>run\<close> up to the point where its threads and the caller are inside \<open>ctx_.run()\<close>.\<close>

definition pool_run :: "'h asio_pool \<Rightarrow> 'h asio_pool" where
  "pool_run p =
     (if pool_stopped p then p
      else p\<lparr>ctx_threads := ctx_threads p + (pool_workers p - 1) + 1\<rparr>)"

definition pool_shutdown :: "'h asio_pool \<Rightarrow> 'h asio_pool" where
  "pool_shutdown p =
     (if \<not> pool_stopped p
      then p\<lparr>pool_stopped := True, ctx_stopped := True, pool_guard := False\<rparr>
      else p)"

section \<open>Runs of a pool\<close>

text \<open>A thread in \<open>ctx_.run()\<close> starts the next task, or returns if stopped or out of work.\<close>

datatype 'h pool_event = Enqueued 'h | Run_called | Started 'h | Thread_returned | Shut_down

inductive pool_step :: "'h asio_pool \<Rightarrow> 'h pool_event \<Rightarrow> 'h asio_pool \<Rightarrow> bool" where
  enqueue: "pool_step p (Enqueued h) (pool_enqueue h p)"
| run: "pool_step p Run_called (pool_run p)"
| start:
    "0 < ctx_threads p \<Longrightarrow> \<not> ctx_stopped p \<Longrightarrow> ctx_tasks p = h # hs \<Longrightarrow>
     pool_step p (Started h) (p\<lparr>ctx_tasks := hs\<rparr>)"
| leave:
    "ctx_threads p = Suc n \<Longrightarrow> ctx_stopped p \<or> (ctx_tasks p = [] \<and> \<not> pool_guard p) \<Longrightarrow>
     pool_step p Thread_returned (p\<lparr>ctx_threads := n\<rparr>)"
| shutdown: "pool_step p Shut_down (pool_shutdown p)"

inductive pool_steps :: "'h asio_pool \<Rightarrow> 'h pool_event list \<Rightarrow> 'h asio_pool \<Rightarrow> bool" where
  Nil: "pool_steps p [] p"
| Cons: "pool_step p e p' \<Longrightarrow> pool_steps p' es p'' \<Longrightarrow> pool_steps p (e # es) p''"

inductive_cases pool_stepE: "pool_step p e p'"
inductive_simps pool_step_simps:
  "pool_step p (Enqueued h) p'" "pool_step p Run_called p'" "pool_step p (Started h) p'"
  "pool_step p Thread_returned p'" "pool_step p Shut_down p'"
inductive_simps pool_steps_Nil [simp]: "pool_steps p [] p'"
inductive_simps pool_steps_Cons: "pool_steps p (e # es) p'"

lemmas pool_defs = pool_enqueue_def pool_run_def pool_shutdown_def

fun enqueued :: "'h pool_event list \<Rightarrow> 'h list" where
  "enqueued [] = []"
| "enqueued (Enqueued h # es) = h # enqueued es"
| "enqueued (_ # es) = enqueued es"

fun started :: "'h pool_event list \<Rightarrow> 'h list" where
  "started [] = []"
| "started (Started h # es) = h # started es"
| "started (_ # es) = started es"

lemma pool_step_tasks:
  "pool_step p e p' \<Longrightarrow> pool_steps p' es p'' \<Longrightarrow> ctx_tasks p' @ enqueued es = started es @ ctx_tasks p'' \<Longrightarrow>
   ctx_tasks p @ enqueued (e # es) = started (e # es) @ ctx_tasks p''"
  by (erule pool_stepE) (auto simp: pool_defs split: if_splits)

lemma pool_steps_tasks: "pool_steps p es p' \<Longrightarrow> ctx_tasks p @ enqueued es = started es @ ctx_tasks p'"
  by (induction rule: pool_steps.induct) (simp, rule pool_step_tasks)

text \<open>The flag, the context and the guard change together, and only by a shutdown.\<close>

definition pool_inv :: "'h asio_pool \<Rightarrow> bool" where
  "pool_inv p \<longleftrightarrow> ctx_stopped p = pool_stopped p \<and> pool_guard p = (\<not> pool_stopped p) \<and> 0 < pool_workers p"

lemma pool_new_inv: "pool_new num = Inr p \<Longrightarrow> pool_inv p"
  by (auto simp: pool_new_def pool_inv_def split: if_splits)

lemma pool_step_inv: "pool_step p e p' \<Longrightarrow> pool_inv p \<Longrightarrow> pool_inv p'"
  by (erule pool_stepE) (auto simp: pool_inv_def pool_defs)

lemma pool_steps_inv: "pool_steps p es p' \<Longrightarrow> pool_inv p \<Longrightarrow> pool_inv p'"
  by (induction rule: pool_steps.induct) (auto dest: pool_step_inv)

lemma pool_step_stopped: "pool_step p e p' \<Longrightarrow> pool_stopped p' \<longleftrightarrow> pool_stopped p \<or> e = Shut_down"
  by (erule pool_stepE) (auto simp: pool_defs)

lemma pool_steps_stopped: "pool_steps p es p' \<Longrightarrow> pool_stopped p' \<longleftrightarrow> pool_stopped p \<or> Shut_down \<in> set es"
  by (induction rule: pool_steps.induct) (auto dest: pool_step_stopped)

lemma stopped_starts_none: "pool_steps p es p' \<Longrightarrow> pool_inv p \<Longrightarrow> pool_stopped p \<Longrightarrow> started es = [] \<and> ctx_threads p' \<le> ctx_threads p"
proof (induction rule: pool_steps.induct)
  case (Cons p e p' es p'')
  have "pool_stopped p'" "pool_inv p'"
    using Cons pool_step_stopped pool_step_inv by blast+
  moreover have "started (e # es) = started es \<and> ctx_threads p' \<le> ctx_threads p"
    using Cons(1,4,5) by (cases e) (auto simp: pool_step_simps pool_inv_def pool_defs split: if_splits)
  ultimately show ?case using Cons.IH by simp
qed simp

lemma running_threads_stay:
  "pool_steps p es p' \<Longrightarrow> pool_inv p \<Longrightarrow> \<not> pool_stopped p' \<Longrightarrow> Thread_returned \<notin> set es"
proof (induction rule: pool_steps.induct)
  case (Cons p e p' es p'')
  have "\<not> pool_stopped p'" using Cons(2,5) pool_steps_stopped by blast
  then have "\<not> pool_stopped p" "e \<noteq> Thread_returned"
    using Cons(1,4) pool_step_stopped [OF Cons(1)] by (auto simp: pool_step_simps pool_inv_def)
  then show ?case using Cons pool_step_inv by auto
qed simp

lemma pool_steps_append:
  "pool_steps p (es @ es') p'' \<longleftrightarrow> (\<exists>p'. pool_steps p es p' \<and> pool_steps p' es' p'')"
  by (induction es arbitrary: p) (auto simp: pool_steps_Cons)

section \<open>The process-wide pool\<close>

text \<open>\<open>kAsioPool\<close> and its once flag; a constructor that throws leaves the flag unset.\<close>

record 'h pool_globals =
  kAsioPool :: "'h asio_pool option"
  kAsioPoolInitFlag :: bool

datatype pool_fail = Pool_ub ub | Pool_exn string

definition globals_init :: "'h pool_globals" where
  "globals_init = \<lparr>kAsioPool = None, kAsioPoolInitFlag = False\<rparr>"

definition asio_pool_init :: "nat \<Rightarrow> 'h pool_globals \<Rightarrow> pool_fail + 'h pool_globals" where
  "asio_pool_init num g =
     (if kAsioPoolInitFlag g then Inr g
      else
        (case pool_new num of
           Inl e \<Rightarrow> Inl (Pool_exn e)
         | Inr p \<Rightarrow> Inr \<lparr>kAsioPool = Some p, kAsioPoolInitFlag = True\<rparr>))"

text \<open>\<open>kAsioPool->f()\<close>\<close>

definition on_pool :: "('h asio_pool \<Rightarrow> 'h asio_pool) \<Rightarrow> 'h pool_globals \<Rightarrow> pool_fail + 'h pool_globals" where
  "on_pool f g =
     (case kAsioPool g of
        None \<Rightarrow> Inl (Pool_ub Null_deref)
      | Some p \<Rightarrow> Inr (g\<lparr>kAsioPool := Some (f p)\<rparr>))"

text \<open>\<open>hw\<close> is \<open>std::thread::hardware_concurrency()\<close>, which may be 0.\<close>

definition asio_pool_run :: "nat \<Rightarrow> 'h pool_globals \<Rightarrow> pool_fail + 'h pool_globals" where
  "asio_pool_run hw g = (case asio_pool_init hw g of Inl e \<Rightarrow> Inl e | Inr g' \<Rightarrow> on_pool pool_run g')"

definition asio_pool_shutdown :: "'h pool_globals \<Rightarrow> pool_fail + 'h pool_globals" where
  "asio_pool_shutdown g = on_pool pool_shutdown g"

definition asio_pool_enqueue :: "nat \<Rightarrow> 'h \<Rightarrow> 'h pool_globals \<Rightarrow> pool_fail + 'h pool_globals" where
  "asio_pool_enqueue hw h g = (case asio_pool_init hw g of Inl e \<Rightarrow> Inl e | Inr g' \<Rightarrow> on_pool (pool_enqueue h) g')"

lemmas globals_defs = asio_pool_init_def on_pool_def asio_pool_run_def asio_pool_shutdown_def asio_pool_enqueue_def

text \<open>The flag is set exactly when there is a pool.\<close>

definition globals_inv :: "'h pool_globals \<Rightarrow> bool" where
  "globals_inv g \<longleftrightarrow> (kAsioPoolInitFlag g \<longleftrightarrow> kAsioPool g \<noteq> None)"

lemma globals_inv_init: "globals_inv globals_init"
  by (simp add: globals_inv_def globals_init_def)

lemma globals_inv_keep:
  "globals_inv g \<Longrightarrow> asio_pool_init num g = Inr g' \<Longrightarrow> globals_inv g'"
  "globals_inv g \<Longrightarrow> on_pool f g = Inr g' \<Longrightarrow> globals_inv g'"
  by (auto simp: globals_inv_def globals_defs split: if_splits sum.splits option.splits)

lemma asio_pool_init_some: "globals_inv g \<Longrightarrow> asio_pool_init num g = Inr g' \<Longrightarrow> \<exists>p. kAsioPool g' = Some p"
  by (auto simp: globals_inv_def asio_pool_init_def split: if_splits sum.splits)

lemma asio_pool_run_safe: "globals_inv g \<Longrightarrow> asio_pool_run hw g \<noteq> Inl (Pool_ub u)"
  by (auto simp: globals_inv_def globals_defs split: if_splits sum.splits option.splits)

section \<open>Properties\<close>


definition sample_pool :: "nat asio_pool" where
  "sample_pool = \<lparr>pool_stopped = False, pool_workers = 2, pool_guard = True, ctx_stopped = False, ctx_tasks = [], ctx_threads = 0\<rparr>"


text \<open>
  No thread of \<open>run\<close> returns before the pool is shut down, however long there is nothing to
  do: the work guard holds them.
\<close>

lemma pool_run_blocks:
  assumes "pool_new num = Inr p0" "pool_steps p0 es p" "Thread_returned \<in> set es"
  shows "Shut_down \<in> set es"
proof (rule ccontr)
  assume "Shut_down \<notin> set es"
  then have "\<not> pool_stopped p"
    using pool_steps_stopped [OF assms(2)] assms(1) by (auto simp: pool_new_def split: if_splits)
  then show False
    using running_threads_stay [OF assms(2) pool_new_inv [OF assms(1)]] assms(3) by blast
qed

lemma pool_run_blocks_witness: "Shut_down \<in> set [Run_called, Enqueued (1 :: nat), Shut_down, Thread_returned]"
  by (rule pool_run_blocks [of 2 sample_pool _ "\<lparr>pool_stopped = True, pool_workers = 2, pool_guard = False, ctx_stopped = True, ctx_tasks = [1], ctx_threads = 1\<rparr>"])
    (simp_all add: pool_new_def sample_pool_def pool_steps_Cons pool_step_simps pool_defs)

text \<open>
  The first initialisation decides the number of threads, and running or handing in a task
  initialises on demand; only \<open>asio_pool_shutdown\<close> does not.
\<close>

lemma asio_pool_init_once:
  "asio_pool_init n globals_init = Inr g \<Longrightarrow> asio_pool_init m g = Inr g"
  by (auto simp: asio_pool_init_def globals_init_def split: if_splits sum.splits)

lemma asio_pool_shutdown_first: "asio_pool_shutdown globals_init = Inl (Pool_ub Null_deref)"
  by (simp add: globals_defs globals_init_def)

lemma asio_pool_run_no_cores: "asio_pool_run 0 globals_init = Inl (Pool_exn ''Expect: num >= 1'')"
  by (simp add: globals_defs globals_init_def pool_new_def)

text \<open>A pool that was shut down does not run again.\<close>

lemma pool_run_after_shutdown: "pool_run (pool_shutdown p) = pool_shutdown p"
  by (simp add: pool_defs)

lemma pool_shutdown_idem: "pool_shutdown (pool_shutdown p) = pool_shutdown p"
  by (simp add: pool_defs)

end
