(* ===== verification/Erased_Function.thy ===== *)
theory Erased_Function
  imports Prelude
begin

text \<open>
  The type-erased functions of include/ccl2/function.h.  A bound function receives its arguments
  as a tuple behind a \<open>void *\<close> and writes its result behind another; the casts are not checked
  at run time, so the model carries the C++ types beside the values and makes a wrong cast the
  outcome \<open>Undefined\<close>.  Callables are functions on the state \<open>'w\<close> they work on.
\<close>

section \<open>Types, values and outcomes\<close>

text \<open>A type of the program by its name, or a reference to a type.\<close>

datatype cxx_type = Named string | Ref cxx_type

text \<open>\<open>hana::make_tuple\<close> stores decayed copies.\<close>

fun decay :: "cxx_type \<Rightarrow> cxx_type" where
  "decay (Ref t) = decay t"
| "decay (Named n) = Named n"

datatype ('v, 'w) outcome = Undefined | Threw string 'w | Returned "'v option" 'w

text \<open>
  What a callable does with its arguments: the new state, and a result or the exception it throws.
\<close>

type_synonym ('v, 'w) callable = "'v list \<Rightarrow> 'w \<Rightarrow> (string + 'v option) \<times> 'w"

text \<open>\<open>std::function<void(void *, void *)>\<close>: the tuple behind the first pointer, the type of the
  object behind the second, \<open>None\<close> for a null pointer.\<close>

type_synonym ('v, 'w) erased = "(cxx_type \<times> 'v) list \<Rightarrow> cxx_type option \<Rightarrow> 'w \<Rightarrow> ('v, 'w) outcome"

text \<open>\<open>function<R>\<close>: \<open>fn_ret\<close> is \<open>R\<close>, \<open>None\<close> for \<open>void\<close>; \<open>fn_callable\<close> is empty after a move.\<close>

record ('v, 'w) func =
  fn_ret :: "cxx_type option"
  fn_callable :: "('v, 'w) erased option"

text \<open>A \<open>function<R>\<close> made from any callable with the signature of \<open>erased\<close>, another \<open>function\<close> included.\<close>

definition function_of :: "cxx_type option \<Rightarrow> ('v, 'w) erased \<Rightarrow> ('v, 'w) func" where
  "function_of R f = \<lparr>fn_ret = R, fn_callable = Some f\<rparr>"

definition function_call ::
  "('v, 'w) func \<Rightarrow> (cxx_type \<times> 'v) list \<Rightarrow> cxx_type option \<Rightarrow> 'w \<Rightarrow> ('v, 'w) outcome" where
  "function_call f args result w =
     (case fn_callable f of
        Some c \<Rightarrow> c args result w
      | None \<Rightarrow> Returned None w)"

section \<open>bind\<close>

text \<open>
  The erased form of a callable with parameter types \<open>Args\<close> and result type \<open>Ret\<close>: the tuple is
  cast to \<open>hana::tuple<Args...>\<close>, and a result is written as \<open>*(Ret *)result\<close>.
\<close>

definition erase_fn :: "cxx_type list \<Rightarrow> cxx_type option \<Rightarrow> ('v, 'w) callable \<Rightarrow> ('v, 'w) erased" where
  "erase_fn Args Ret fn args result w =
     (if map fst args \<noteq> Args then Undefined
      else
        (case fn (map snd args) w of
           (Inl e, w') \<Rightarrow> Threw e w'
         | (Inr v, w') \<Rightarrow>
             (if Ret = None then Returned None w'
              else if result = Ret then Returned v w'
              else Undefined)))"

definition bind :: "cxx_type list \<Rightarrow> cxx_type option \<Rightarrow> ('v, 'w) callable \<Rightarrow> ('v, 'w) func" where
  "bind Args Ret fn = function_of Ret (erase_fn Args Ret fn)"

text \<open>A member function and the object it is called on, a null pointer for \<open>None\<close>.\<close>

definition bind_member ::
  "cxx_type list \<Rightarrow> cxx_type option \<Rightarrow> ('o \<Rightarrow> ('v, 'w) callable) \<Rightarrow> 'o option \<Rightarrow> string + ('v, 'w) func" where
  "bind_member Args Ret fn self =
     (case self of
        None \<Rightarrow> Inl ''self is a nullptr''
      | Some obj \<Rightarrow> Inr (function_of Ret (erase_fn Args Ret (fn obj))))"

section \<open>invoke\<close>

definition make_tuple :: "(cxx_type \<times> 'v) list \<Rightarrow> (cxx_type \<times> 'v) list" where
  "make_tuple args = map (\<lambda>a. (decay (fst a), snd a)) args"

text \<open>The branch for \<open>function<void>\<close>, and both: \<open>dflt\<close> is the value of \<open>R result{}\<close>.\<close>

definition invoke_void :: "('v, 'w) func \<Rightarrow> (cxx_type \<times> 'v) list \<Rightarrow> 'w \<Rightarrow> ('v, 'w) outcome" where
  "invoke_void f args w = function_call f (make_tuple args) None w"

definition invoke :: "'v \<Rightarrow> ('v, 'w) func \<Rightarrow> (cxx_type \<times> 'v) list \<Rightarrow> 'w \<Rightarrow> ('v, 'w) outcome" where
  "invoke dflt f args w =
     (case fn_ret f of
        None \<Rightarrow> invoke_void f args w
      | Some R \<Rightarrow>
          (case function_call f (make_tuple args) (Some R) w of
             Returned v w' \<Rightarrow> Returned (Some (case v of Some r \<Rightarrow> r | None \<Rightarrow> dflt)) w'
           | x \<Rightarrow> x))"

lemmas fn_defs = invoke_def invoke_void_def make_tuple_def bind_def function_of_def function_call_def erase_fn_def

section \<open>Properties\<close>

lemma decay_not_Ref [simp]: "decay t \<noteq> Ref u"
  by (induction t) auto

lemma Ref_not_decay [simp]: "Ref u \<noteq> decay t"
  using decay_not_Ref by metis

lemma decay_eq_iff [simp]: "decay t = t \<longleftrightarrow> (\<forall>u. t \<noteq> Ref u)"
  by (cases t) auto

text \<open>What the caller sees of a callable: its exception, or its result of the right kind.\<close>

definition called :: "cxx_type option \<Rightarrow> 'v \<Rightarrow> (string + 'v option) \<times> 'w \<Rightarrow> ('v, 'w) outcome" where
  "called Ret dflt r =
     (case r of
        (Inl e, w') \<Rightarrow> Threw e w'
      | (Inr v, w') \<Rightarrow> Returned (if Ret = None then None else Some (case v of Some x \<Rightarrow> x | None \<Rightarrow> dflt)) w')"

lemma invoke_bind_match:
  "map (\<lambda>a. decay (fst a)) args = Args \<Longrightarrow>
   invoke dflt (bind Args Ret fn) args w = called Ret dflt (fn (map snd args) w)"
  by (auto simp: fn_defs called_def comp_def
      split: prod.split sum.split option.split)

lemma invoke_bind_mismatch:
  "map (\<lambda>a. decay (fst a)) args \<noteq> Args \<Longrightarrow> invoke dflt (bind Args Ret fn) args w = Undefined"
  by (auto simp: fn_defs comp_def split: option.split)

text \<open>
  Invoking a bound function is calling it, with its result and its exceptions, exactly if
  the decayed types of the arguments are the parameter types; in any other case the behaviour
  is undefined.  In particular a function with a reference parameter can never be invoked.
\<close>

lemma invoke_bind:
  "invoke dflt (bind Args Ret fn) args w =
     (if map (\<lambda>a. decay (fst a)) args = Args then called Ret dflt (fn (map snd args) w) else Undefined)"
  by (simp add: invoke_bind_match invoke_bind_mismatch)

lemma invoke_reference_parameter:
  assumes "Ref t \<in> set Args"
  shows "invoke dflt (bind Args Ret fn) args w = Undefined"
proof -
  have "Ref t \<notin> set (map (\<lambda>a. decay (fst a)) args)" by auto
  then have "map (\<lambda>a. decay (fst a)) args \<noteq> Args" using assms by auto
  then show ?thesis by (rule invoke_bind_mismatch)
qed

lemma invoke_bind_member:
  "bind_member Args Ret fn (Some obj) = Inr f \<Longrightarrow> invoke dflt f args w = invoke dflt (bind Args Ret (fn obj)) args w"
  by (auto simp: bind_member_def bind_def)

text \<open>A default-constructed or moved-from \<open>function\<close> returns the default result.\<close>

lemma invoke_empty: "fn_callable f = None \<Longrightarrow> invoke dflt f args w = Returned (map_option (\<lambda>R. dflt) (fn_ret f)) w"
  by (auto simp: fn_defs split: option.split)

end
