(* ===== verification/Signal.thy ===== *)
theory Signal
  imports Erased_Function "HOL-Library.Multiset"
begin

text \<open>
  Signals (include/ccl2/signal.h): handlers registered under topics, and emitted to.  The
  registry is an \<open>unordered_multimap\<close>; the order in which it visits the handlers of one topic is
  up to the library and a parameter of \<open>emit\<close>.  Locks do not change what a single thread sees.
\<close>

section \<open>String views\<close>

text \<open>\<open>sv_data\<close> is the memory from \<open>data()\<close> on, of which the first \<open>sv_len\<close> bytes are viewed.\<close>

record string_view =
  sv_data :: string
  sv_len :: nat

definition sv_string :: "string_view \<Rightarrow> string" where
  "sv_string v = take (sv_len v) (sv_data v)"

text \<open>\<open>std::string(v.data())\<close>: the bytes up to the first zero.\<close>

definition sv_cstr :: "string_view \<Rightarrow> string" where
  "sv_cstr v = cstr (sv_data v)"

definition sv_of :: "string \<Rightarrow> string_view" where
  "sv_of s = \<lparr>sv_data = s @ [NUL], sv_len = length s\<rparr>"

text \<open>A view of a whole zero-terminated string.\<close>

definition sv_terminated :: "string_view \<Rightarrow> bool" where
  "sv_terminated v \<longleftrightarrow> sv_len v < length (sv_data v) \<and> sv_data v ! sv_len v = NUL \<and> NUL \<notin> set (sv_string v)"

lemma sv_cstr_terminated: "sv_terminated v \<Longrightarrow> sv_cstr v = sv_string v"
proof -
  assume v: "sv_terminated v"
  then have "sv_data v = sv_string v @ NUL # drop (Suc (sv_len v)) (sv_data v)"
    by (metis append_take_drop_id Cons_nth_drop_Suc sv_string_def sv_terminated_def)
  moreover have "takeWhile (\<lambda>c. c \<noteq> NUL) (sv_string v @ NUL # drop (Suc (sv_len v)) (sv_data v)) = sv_string v"
    using v by (subst takeWhile_append2) (auto simp: sv_terminated_def)
  ultimately show ?thesis unfolding sv_cstr_def cstr_def by metis
qed

lemma sv_string_of [simp]: "sv_string (sv_of s) = s"
  by (simp add: sv_string_def sv_of_def)

section \<open>State and operations\<close>

type_synonym ('v, 'w) signal = "(string \<times> ('v, 'w) func) list"

text \<open>The registry holds \<open>function<void>\<close>; a function with a result is wrapped as any callable.\<close>

definition as_void :: "('v, 'w) func \<Rightarrow> ('v, 'w) func" where
  "as_void f = (if fn_ret f = None then f else function_of None (function_call f))"

definition register_handler ::
  "string_view \<Rightarrow> cxx_type list \<Rightarrow> cxx_type option \<Rightarrow> ('v, 'w) callable \<Rightarrow> ('v, 'w) signal \<Rightarrow> ('v, 'w) signal" where
  "register_handler topic Args Ret fn s = s @ [(sv_string topic, as_void (bind Args Ret fn))]"

definition register_member ::
  "string_view \<Rightarrow> cxx_type list \<Rightarrow> cxx_type option \<Rightarrow> ('o \<Rightarrow> ('v, 'w) callable) \<Rightarrow> 'o option \<Rightarrow> ('v, 'w) signal
     \<Rightarrow> string + ('v, 'w) signal" where
  "register_member topic Args Ret mem obj s =
     (case bind_member Args Ret mem obj of
        Inl e \<Rightarrow> Inl e
      | Inr f \<Rightarrow> Inr (s @ [(sv_string topic, as_void f)]))"

definition equal_range :: "string \<Rightarrow> ('v, 'w) signal \<Rightarrow> ('v, 'w) func list" where
  "equal_range k s = map snd (filter (\<lambda>e. fst e = k) s)"

fun emit_loop :: "('v, 'w) func list \<Rightarrow> (cxx_type \<times> 'v) list \<Rightarrow> 'w \<Rightarrow> ('v, 'w) outcome" where
  "emit_loop [] args w = Returned None w"
| "emit_loop (f # fs) args w =
     (case invoke_void f args w of
        Returned v w' \<Rightarrow> emit_loop fs args w'
      | x \<Rightarrow> x)"

definition emit ::
  "(('v, 'w) func list \<Rightarrow> ('v, 'w) func list) \<Rightarrow> string_view \<Rightarrow> (cxx_type \<times> 'v) list \<Rightarrow> ('v, 'w) signal \<Rightarrow> 'w
     \<Rightarrow> ('v, 'w) outcome" where
  "emit order topic args s w = emit_loop (order (equal_range (sv_cstr topic) s)) args w"

text \<open>The task handed to the executor, which it runs on a later state of the signal.\<close>

definition emit_on ::
  "((('v, 'w) signal \<Rightarrow> 'w \<Rightarrow> ('v, 'w) outcome) \<Rightarrow> 'x \<Rightarrow> 'x) \<Rightarrow> (('v, 'w) func list \<Rightarrow> ('v, 'w) func list)
     \<Rightarrow> string_view \<Rightarrow> (cxx_type \<times> 'v) list \<Rightarrow> 'x \<Rightarrow> 'x" where
  "emit_on enqueue order topic args x = enqueue (emit order (sv_of (sv_string topic)) args) x"

definition remove_topic :: "string_view \<Rightarrow> ('v, 'w) signal \<Rightarrow> ('v, 'w) signal" where
  "remove_topic topic s = filter (\<lambda>e. fst e \<noteq> sv_cstr topic) s"

section \<open>The registry refines the history of its operations\<close>

datatype ('v, 'w) signal_op =
    Register string_view "cxx_type list" "cxx_type option" "('v, 'w) callable"
  | Remove string_view

fun signal_step :: "('v, 'w) signal_op \<Rightarrow> ('v, 'w) signal \<Rightarrow> ('v, 'w) signal" where
  "signal_step (Register topic Args Ret fn) s = register_handler topic Args Ret fn s"
| "signal_step (Remove topic) s = remove_topic topic s"

fun op_topic :: "('v, 'w) signal_op \<Rightarrow> string_view" where
  "op_topic (Register topic Args Ret fn) = topic"
| "op_topic (Remove topic) = topic"

fun removed :: "string \<Rightarrow> ('v, 'w) signal_op list \<Rightarrow> bool" where
  "removed k [] = False"
| "removed k (Register topic Args Ret fn # later) = removed k later"
| "removed k (Remove topic # later) = (sv_string topic = k \<or> removed k later)"

text \<open>The handlers alive on a topic: those registered and not removed later.\<close>

fun live :: "string \<Rightarrow> ('v, 'w) signal_op list \<Rightarrow> ('v, 'w) func list" where
  "live k [] = []"
| "live k (Register topic Args Ret fn # later) =
     (if sv_string topic = k \<and> \<not> removed k later then as_void (bind Args Ret fn) # live k later else live k later)"
| "live k (Remove topic # later) = live k later"

lemma equal_range_simps [simp]:
  "equal_range k [] = []"
  "equal_range k (e # s) = (if fst e = k then snd e # equal_range k s else equal_range k s)"
  "equal_range k (s @ s') = equal_range k s @ equal_range k s'"
  by (simp_all add: equal_range_def)

lemma equal_range_remove: "equal_range k (remove_topic t s) = (if k = sv_cstr t then [] else equal_range k s)"
  by (induction s) (auto simp: remove_topic_def)

lemma equal_range_fold:
  "(\<forall>op \<in> set ops. sv_terminated (op_topic op)) \<Longrightarrow>
   equal_range k (fold signal_step ops s) = (if removed k ops then [] else equal_range k s) @ live k ops"
proof (induction ops arbitrary: s)
  case (Cons op ops)
  then show ?case
    by (cases op) (auto simp: register_handler_def equal_range_remove sv_cstr_terminated)
qed simp

section \<open>Emission\<close>

text \<open>One handler after the other on the state, until one throws.\<close>

fun run_handlers :: "('v, 'w) callable list \<Rightarrow> 'v list \<Rightarrow> 'w \<Rightarrow> ('v, 'w) outcome" where
  "run_handlers [] vs w = Returned None w"
| "run_handlers (fn # fns) vs w =
     (case fn vs w of
        (Inl e, w') \<Rightarrow> Threw e w'
      | (Inr v, w') \<Rightarrow> run_handlers fns vs w')"

lemma as_void_bind_None [simp]: "as_void (bind Args None fn) = bind Args None fn"
  by (simp add: as_void_def bind_def function_of_def)

lemma emit_loop_bound:
  "map (\<lambda>a. decay (fst a)) args = Args \<Longrightarrow>
   emit_loop (map (bind Args None) fns) args w = run_handlers fns (map snd args) w"
  by (induction fns arbitrary: w)
    (auto simp: invoke_void_def fn_defs comp_def split: prod.split sum.split)

lemma emit_loop_nonvoid:
  "map (\<lambda>a. decay (fst a)) args = Args \<Longrightarrow> fn (map snd args) w = (Inr v, w') \<Longrightarrow>
   emit_loop (as_void (bind Args (Some R) fn) # fs) args w = Undefined"
  by (auto simp: as_void_def invoke_void_def fn_defs comp_def)

lemma emit_loop_mismatch:
  "map (\<lambda>a. decay (fst a)) args \<noteq> Args \<Longrightarrow> emit_loop (bind Args Ret fn # fs) args w = Undefined"
  by (simp add: fn_defs comp_def)

section \<open>Properties\<close>


text \<open>Two topics, one of them removed and registered again.\<close>

definition push_arg :: "string \<Rightarrow> (nat, (string \<times> nat list) list) callable" where
  "push_arg tag = (\<lambda>vs w. (Inr None, w @ [(tag, vs)]))"

abbreviation int_type :: cxx_type where "int_type \<equiv> Named ''int''"


text \<open>
  Emitting to handlers of the right signature without a result runs them one after the
  other on the state and stops at the first exception.
\<close>

lemma signal_emit_runs:
  assumes "map (\<lambda>a. decay (fst a)) args = Args" and "sv_terminated topic"
    and "order (map (bind Args None) fns) = map (bind Args None) fns'"
  shows "emit order topic args (fold (register_handler topic Args None) fns []) w = run_handlers fns' (map snd args) w"
proof -
  have "equal_range (sv_string topic) (fold (register_handler topic Args None) fns s)
      = equal_range (sv_string topic) s @ map (bind Args None) fns" for s
    by (induction fns arbitrary: s) (auto simp: register_handler_def)
  then show ?thesis
    using emit_loop_bound [OF assms(1)] by (simp add: emit_def sv_cstr_terminated [OF assms(2)] assms(3))
qed

lemma signal_emit_runs_witness:
  "emit rev (sv_of ''a'') [(Ref int_type, 5)] (fold (register_handler (sv_of ''a'') [int_type] None) [push_arg ''1'', push_arg ''2''] []) []
   = run_handlers [push_arg ''2'', push_arg ''1''] (map snd [(Ref int_type, 5)]) []"
  by (rule signal_emit_runs) (simp_all add: sv_terminated_def sv_of_def sv_string_def)

text \<open>
  A handler with a result cannot be emitted to: \<open>emit\<close> passes a null pointer for the result,
  through which the handler's value is written.
\<close>

lemma signal_nonvoid_handler:
  assumes "map (\<lambda>a. decay (fst a)) args = Args" and "sv_terminated topic"
    and "fn (map snd args) w = (Inr v, w')"
  shows "emit id topic args (register_handler topic Args (Some R) fn []) w = Undefined"
  using emit_loop_nonvoid [of args Args fn w v w' R "[]"] assms
  by (simp add: emit_def register_handler_def sv_cstr_terminated)

lemma signal_nonvoid_handler_witness:
  "emit id (sv_of ''a'') [(int_type, 5 :: nat)] (register_handler (sv_of ''a'') [int_type] (Some int_type) (\<lambda>vs w. (Inr (Some 1), w)) []) ()
   = Undefined"
  by (rule signal_nonvoid_handler [where v = "Some 1" and w' = "()"]) (simp_all add: sv_terminated_def sv_of_def sv_string_def)

text \<open>
  A view into a longer string registers under its bytes but is looked up as the longer string:
  what was registered is not reached.
\<close>

lemma signal_view_lookup:
  assumes "sv_cstr topic \<noteq> sv_string topic"
  shows "emit id topic args (register_handler topic Args Ret fn []) w = Returned None w"
  using assms by (simp add: emit_def register_handler_def)

end
