(* ===== verification/Service.thy ===== *)
theory Service
  imports Signal
begin

text \<open>
  Services (include/ccl2/service.h): one bound function per name, called with the result type the
  caller names.  The registry keeps \<open>void *\<close> to the functions, so the cast back to \<open>function<R>\<close> is
  not checked; the vector that owns the functions is not observable.
\<close>

section \<open>State and operations\<close>

type_synonym ('v, 'w) service = "string \<Rightarrow> ('v, 'w) func option"

definition service_init :: "('v, 'w) service" where
  "service_init = (\<lambda>k. None)"

text \<open>\<open>registry_.emplace\<close> keeps an entry that is there.\<close>

definition service_emplace :: "string \<Rightarrow> ('v, 'w) func \<Rightarrow> ('v, 'w) service \<Rightarrow> ('v, 'w) service" where
  "service_emplace k f s = (case s k of Some g \<Rightarrow> s | None \<Rightarrow> s(k \<mapsto> f))"

definition service_register ::
  "string_view \<Rightarrow> cxx_type list \<Rightarrow> cxx_type option \<Rightarrow> ('v, 'w) callable \<Rightarrow> ('v, 'w) service
     \<Rightarrow> string + ('v, 'w) service" where
  "service_register svc Args Ret fn s =
     (if s (sv_cstr svc) \<noteq> None then Inl (''dup svc: '' @ sv_string svc)
      else Inr (service_emplace (sv_string svc) (bind Args Ret fn) s))"

definition service_register_member ::
  "string_view \<Rightarrow> cxx_type list \<Rightarrow> cxx_type option \<Rightarrow> ('o \<Rightarrow> ('v, 'w) callable) \<Rightarrow> 'o option \<Rightarrow> ('v, 'w) service
     \<Rightarrow> string + ('v, 'w) service" where
  "service_register_member svc Args Ret mem obj s =
     (if s (sv_cstr svc) \<noteq> None then Inl (''dup svc: '' @ sv_string svc)
      else
        (case bind_member Args Ret mem obj of
           Inl e \<Rightarrow> Inl e
         | Inr f \<Rightarrow> Inr (service_emplace (sv_string svc) f s)))"

text \<open>\<open>service_call\<close> is \<open>call<R>\<close>; the text of the exception of \<open>at\<close> is the library's.\<close>

definition service_call ::
  "cxx_type option \<Rightarrow> 'v \<Rightarrow> string_view \<Rightarrow> (cxx_type \<times> 'v) list \<Rightarrow> ('v, 'w) service \<Rightarrow> 'w \<Rightarrow> ('v, 'w) outcome" where
  "service_call R dflt svc args s w =
     (if s (sv_cstr svc) = None then Threw (''expect svc: '' @ sv_string svc) w
      else
        (case s (sv_string svc) of
           None \<Rightarrow> Threw ''std::out_of_range'' w
         | Some f \<Rightarrow> if fn_ret f \<noteq> R then Undefined else invoke dflt f args w))"

section \<open>Properties\<close>

text \<open>Registrations in sequence; one that is refused leaves the registry as it was.\<close>

type_synonym ('v, 'w) registration = "string_view \<times> cxx_type list \<times> cxx_type option \<times> ('v, 'w) callable"

fun try_register :: "('v, 'w) registration \<Rightarrow> ('v, 'w) service \<Rightarrow> ('v, 'w) service" where
  "try_register (svc, Args, Ret, fn) s =
     (case service_register svc Args Ret fn s of Inl e \<Rightarrow> s | Inr s' \<Rightarrow> s')"

text \<open>The first registration of a name.\<close>

fun first_registration :: "string \<Rightarrow> ('v, 'w) registration list \<Rightarrow> ('v, 'w) func option" where
  "first_registration k [] = None"
| "first_registration k ((svc, Args, Ret, fn) # regs) =
     (if sv_string svc = k then Some (bind Args Ret fn) else first_registration k regs)"

lemma try_register_lookup:
  "sv_terminated svc \<Longrightarrow> try_register (svc, Args, Ret, fn) s k =
     (case s k of Some f \<Rightarrow> Some f | None \<Rightarrow> if sv_string svc = k then Some (bind Args Ret fn) else None)"
  by (auto simp: service_register_def service_emplace_def sv_cstr_terminated split: option.split)

lemma registrations_lookup:
  "\<forall>r \<in> set regs. sv_terminated (fst r) \<Longrightarrow>
   fold try_register regs s k = (case s k of Some f \<Rightarrow> Some f | None \<Rightarrow> first_registration k regs)"
proof (induction regs arbitrary: s)
  case (Cons r regs)
  obtain svc Args Ret fn where r: "r = (svc, Args, Ret, fn)" by (cases r) auto
  show ?case
    using Cons try_register_lookup [of svc Args Ret fn s k]
    by (auto simp: r simp del: try_register.simps split: option.splits)
qed (simp split: option.split)


definition add_ints :: "(int, unit) callable" where
  "add_ints = (\<lambda>vs w. (Inr (Some (sum_list vs)), w))"

definition sample_regs :: "(int, unit) registration list" where
  "sample_regs = [(sv_of ''add'', [int_type, int_type], Some int_type, add_ints),
     (sv_of ''add'', [int_type], Some int_type, add_ints)]"


lemma sample_call:
  "service_call (Some int_type) 0 (sv_of ''add'') [(int_type, 3), (int_type, 4)] (fold try_register sample_regs service_init) ()
   = Returned (Some 7) ()"
  by code_simp

text \<open>A second registration of a name is refused with an exception that names it.\<close>

lemma service_register_dup:
  "sv_terminated svc \<Longrightarrow> s (sv_string svc) \<noteq> None \<Longrightarrow>
   service_register svc Args Ret fn s = Inl (''dup svc: '' @ sv_string svc)"
  by (simp add: service_register_def sv_cstr_terminated)

text \<open>
  A view into a longer string is registered under its bytes but the test for a duplicate looks
  for the longer string: the second registration succeeds and is dropped.
\<close>

lemma service_register_view:
  "s (sv_cstr svc) = None \<Longrightarrow> s (sv_string svc) \<noteq> None \<Longrightarrow> service_register svc Args Ret fn s = Inr s"
  by (auto simp: service_register_def service_emplace_def)

end
