(* ===== verification/Async_Queue.thy ===== *)
theory Async_Queue
  imports Prelude "HOL-Library.Word"
begin

text \<open>
  The queue of include/ccl2/async_queue.h: producers append under a mutex and post a cancellation
  of the timer to a strand, consumers are coroutines that try the queue once and then wait for
  the timer.  The model interleaves the atomic sections of all of them: each critical section
  of the mutex, each handler of the strand and each initiation is one step of \<open>aq_step\<close>.  A
  moved-from \<open>std::list\<close> is empty, \<open>try_lock\<close> may fail at any time, and setting or cancelling
  a timer wakes every coroutine that waits for it, as the two libraries document.
\<close>

section \<open>State and operations\<close>

text \<open>Handlers on the strand: the one of \<open>wake\<close>, and the continuation of consumer \<open>i\<close>.\<close>

datatype job = Cancel | Resume nat

text \<open>Where the coroutine \<open>pop\<close> of a consumer is.\<close>

datatype pop_state = Pop_idle | Pop_tried | Pop_dispatched | Pop_waiting | Pop_woken

record 'a aqueue =
  aq_items :: "'a list"
  aq_jobs :: "job list"
  aq_pops :: "nat \<Rightarrow> pop_state"
  aq_wakes :: nat

text \<open>\<open>aq_wakes\<close> counts the calls of \<open>wake\<close> that have not posted their handler yet.\<close>

definition aq_init :: "'a aqueue" where
  "aq_init = \<lparr>aq_items = [], aq_jobs = [], aq_pops = (\<lambda>i. Pop_idle), aq_wakes = 0\<rparr>"

definition aq_push :: "'a \<Rightarrow> 'a aqueue \<Rightarrow> 'a aqueue" where
  "aq_push v s = s\<lparr>aq_items := aq_items s @ [v], aq_wakes := Suc (aq_wakes s)\<rparr>"

definition aq_try_pop :: "bool \<Rightarrow> 'a aqueue \<Rightarrow> 'a list \<times> 'a aqueue" where
  "aq_try_pop locked s = (if locked then (aq_items s, s\<lparr>aq_items := []\<rparr>) else ([], s))"

definition aq_size :: "'a aqueue \<Rightarrow> int" where
  "aq_size s = sint (of_nat (length (aq_items s)) :: 32 word)"

definition aq_empty :: "'a aqueue \<Rightarrow> bool" where
  "aq_empty s \<longleftrightarrow> aq_size s = 0"

definition aq_wake :: "'a aqueue \<Rightarrow> 'a aqueue" where
  "aq_wake s = s\<lparr>aq_jobs := aq_jobs s @ [Cancel]\<rparr>"

text \<open>The waits pending on the timer end.\<close>

definition timer_cancel :: "'a aqueue \<Rightarrow> 'a aqueue" where
  "timer_cancel s = s\<lparr>aq_pops := (\<lambda>i. if aq_pops s i = Pop_waiting then Pop_woken else aq_pops s i)\<rparr>"

definition pop_goto :: "nat \<Rightarrow> pop_state \<Rightarrow> 'a aqueue \<Rightarrow> 'a aqueue" where
  "pop_goto i p s = s\<lparr>aq_pops := (aq_pops s)(i := p)\<rparr>"

text \<open>The strand runs a handler; a consumer sets the timer, which ends other waits, and waits.\<close>

definition run_job :: "job \<Rightarrow> 'a aqueue \<Rightarrow> 'a aqueue" where
  "run_job j s =
     (case j of
        Cancel \<Rightarrow> timer_cancel s
      | Resume i \<Rightarrow> pop_goto i Pop_waiting (timer_cancel s))"

section \<open>Steps\<close>

datatype 'a aq_event =
    Pushed 'a
  | Wake_called
  | Posted
  | Took nat "'a list"
  | Tried nat
  | Dispatched nat
  | Ran

inductive aq_step :: "'a aqueue \<Rightarrow> 'a aq_event \<Rightarrow> 'a aqueue \<Rightarrow> bool" where
  push: "aq_step s (Pushed v) (aq_push v s)"
| wake: "aq_step s Wake_called (s\<lparr>aq_wakes := Suc (aq_wakes s)\<rparr>)"
| post: "aq_wakes s = Suc n \<Longrightarrow> aq_step s Posted (aq_wake (s\<lparr>aq_wakes := n\<rparr>))"
| try_take: "aq_pops s i = Pop_idle \<Longrightarrow> aq_try_pop b s = (r, s') \<Longrightarrow> r \<noteq> [] \<Longrightarrow> aq_step s (Took i r) s'"
| try_none: "aq_pops s i = Pop_idle \<Longrightarrow> aq_try_pop b s = ([], s') \<Longrightarrow> aq_step s (Tried i) (pop_goto i Pop_tried s')"
| dispatch:
    "aq_pops s i = Pop_tried \<Longrightarrow>
     aq_step s (Dispatched i) (pop_goto i Pop_dispatched (s\<lparr>aq_jobs := aq_jobs s @ [Resume i]\<rparr>))"
| run: "aq_jobs s = j # js \<Longrightarrow> aq_step s Ran (run_job j (s\<lparr>aq_jobs := js\<rparr>))"
| finish:
    "aq_pops s i = Pop_woken \<Longrightarrow>
     aq_step s (Took i (aq_items s)) (pop_goto i Pop_idle (s\<lparr>aq_items := []\<rparr>))"

inductive aq_run :: "'a aqueue \<Rightarrow> 'a aq_event list \<Rightarrow> 'a aqueue \<Rightarrow> bool" where
  Nil: "aq_run s [] s"
| Cons: "aq_step s e s' \<Longrightarrow> aq_run s' es s'' \<Longrightarrow> aq_run s (e # es) s''"

text \<open>
  The steps of a queue with one consumer, number 0, apart from the pushes: those of the strand, and
  those of the consumer while it is inside \<open>pop\<close>.
\<close>

definition one_consumer :: "bool \<Rightarrow> 'a aq_event \<Rightarrow> bool" where
  "one_consumer popping e =
     (case e of
        Took i r \<Rightarrow> i = 0 \<and> popping
      | Tried i \<Rightarrow> i = 0 \<and> popping
      | Dispatched i \<Rightarrow> i = 0 \<and> popping
      | Posted \<Rightarrow> True
      | Ran \<Rightarrow> True
      | _ \<Rightarrow> False)"

inductive_cases aq_stepE: "aq_step s e s'"
inductive_simps aq_step_simps:
  "aq_step s (Pushed v) s'" "aq_step s Wake_called s'" "aq_step s Posted s'" "aq_step s (Took i r) s'"
  "aq_step s (Tried i) s'" "aq_step s (Dispatched i) s'" "aq_step s Ran s'"
inductive_simps aq_run_Nil [simp]: "aq_run s [] s'"
inductive_simps aq_run_Cons: "aq_run s (e # es) s'"

lemmas aq_defs = aq_push_def aq_try_pop_def aq_wake_def timer_cancel_def pop_goto_def run_job_def

section \<open>First in, first out\<close>

text \<open>
  What a client relies on of a queue: in every run from the start, what went out followed by what is
  inside is what came in.
\<close>

locale fifo_queue =
  fixes run :: "'s \<Rightarrow> 'e list \<Rightarrow> 's \<Rightarrow> bool"
    and start :: 's
    and inside :: "'s \<Rightarrow> 'a list"
    and came_in :: "'e list \<Rightarrow> 'a list"
    and went_out :: "'e list \<Rightarrow> 'a list"
  assumes fifo: "run start es s \<Longrightarrow> went_out es @ inside s = came_in es"
begin

lemma backlog: "run start es s \<Longrightarrow> length (came_in es) = length (went_out es) + length (inside s)"
  by (simp flip: fifo)

lemma all_delivered:
  assumes "run start es s" "length (came_in es) \<le> length (went_out es)"
  shows "went_out es = came_in es \<and> inside s = []"
proof -
  have "inside s = []" using backlog [OF assms(1)] assms(2) by simp
  then show ?thesis using fifo [OF assms(1)] by simp
qed

end

fun pushed :: "'a aq_event list \<Rightarrow> 'a list" where
  "pushed (Pushed v # es) = v # pushed es"
| "pushed (_ # es) = pushed es"
| "pushed [] = []"

fun taken :: "'a aq_event list \<Rightarrow> 'a list" where
  "taken (Took i r # es) = r @ taken es"
| "taken (_ # es) = taken es"
| "taken [] = []"

lemma aq_step_fifo: "aq_step s e s' \<Longrightarrow> aq_items s @ pushed [e] = taken [e] @ aq_items s'"
  by (erule aq_stepE) (auto simp: aq_defs split: if_splits job.split)

lemma pushed_Cons: "pushed (e # es) = pushed [e] @ pushed es"
  by (cases e) auto

lemma taken_Cons: "taken (e # es) = taken [e] @ taken es"
  by (cases e) auto

lemma aq_run_fifo: "aq_run s es s' \<Longrightarrow> aq_items s @ pushed es = taken es @ aq_items s'"
proof (induction rule: aq_run.induct)
  case (Cons s e s' es s'')
  have "aq_items s @ pushed (e # es) = (aq_items s @ pushed [e]) @ pushed es"
    by (simp only: pushed_Cons [of e es] append.assoc)
  also have "\<dots> = taken [e] @ (aq_items s' @ pushed es)"
    using aq_step_fifo [OF Cons(1)] by simp
  also have "\<dots> = taken (e # es) @ aq_items s''"
    by (simp only: Cons.IH taken_Cons [of e es] append.assoc)
  finally show ?case .
qed simp

interpretation aq: fifo_queue aq_run aq_init aq_items pushed taken
  by unfold_locales (use aq_run_fifo in \<open>fastforce simp: aq_init_def\<close>)

section \<open>Waiting consumers\<close>

text \<open>
  A continuation is on the strand exactly while its consumer is dispatched, once; at most one
  consumer waits for the timer.
\<close>

definition aq_inv :: "'a aqueue \<Rightarrow> bool" where
  "aq_inv s \<longleftrightarrow>
     (\<forall>i. Resume i \<in> set (aq_jobs s) \<longleftrightarrow> aq_pops s i = Pop_dispatched) \<and>
     distinct (filter (\<lambda>j. j \<noteq> Cancel) (aq_jobs s)) \<and>
     (\<forall>i j. aq_pops s i = Pop_waiting \<longrightarrow> aq_pops s j = Pop_waiting \<longrightarrow> i = j)"

lemma aq_inv_init: "aq_inv aq_init"
  by (simp add: aq_inv_def aq_init_def)

lemma aq_step_inv: "aq_step s e s' \<Longrightarrow> aq_inv s \<Longrightarrow> aq_inv s'"
proof (induction rule: aq_step.induct)
  case (run s j js)
  then show ?case
    by (cases j) (auto simp: aq_inv_def aq_defs)
qed (auto simp: aq_inv_def aq_defs split: if_splits)

lemma aq_run_inv: "aq_run s es s' \<Longrightarrow> aq_inv s \<Longrightarrow> aq_inv s'"
  by (induction rule: aq_run.induct) (auto dest: aq_step_inv)

text \<open>Whatever the strand runs, the consumer that waited before is woken.\<close>

lemma aq_inv_resume: "aq_inv s \<Longrightarrow> aq_jobs s = Resume i # js \<Longrightarrow> aq_pops s i = Pop_dispatched"
  unfolding aq_inv_def by (metis list.set_intros(1))

lemma run_job_pops:
  "aq_pops (run_job j (s\<lparr>aq_jobs := js\<rparr>)) i =
     (if j = Resume i then Pop_waiting
      else if aq_pops s i = Pop_waiting then Pop_woken else aq_pops s i)"
  by (cases j) (auto simp: aq_defs)

lemma run_wakes:
  assumes "aq_step s Ran s'" "aq_inv s" "aq_pops s i = Pop_waiting"
  shows "aq_pops s' i = Pop_woken"
proof -
  from assms(1) obtain j js where j: "aq_jobs s = j # js" "s' = run_job j (s\<lparr>aq_jobs := js\<rparr>)"
    by (auto simp: aq_step_simps)
  moreover have "j \<noteq> Resume i" using aq_inv_resume [OF assms(2)] j(1) assms(3) by auto
  ultimately show ?thesis using assms(3) by (simp add: run_job_pops)
qed

lemma step_keeps_waiting:
  "aq_step s e s' \<Longrightarrow> e \<noteq> Ran \<Longrightarrow> aq_pops s i = Pop_waiting \<Longrightarrow> aq_pops s' i = Pop_waiting"
  by (erule aq_stepE) (auto simp: aq_defs split: if_splits)

lemma step_keeps_woken:
  "aq_step s e s' \<Longrightarrow> aq_inv s \<Longrightarrow> aq_pops s i = Pop_woken \<Longrightarrow>
   (\<exists>r. e = Took i r) \<or> aq_pops s' i = Pop_woken"
proof (induction rule: aq_step.induct)
  case (run s j js)
  have "j \<noteq> Resume i" using aq_inv_resume [OF run(2), of i js] run by auto
  then show ?case using run(3) by (simp add: run_job_pops)
qed (auto simp: aq_push_def aq_wake_def aq_try_pop_def pop_goto_def split: if_splits)

lemma run_keeps_woken:
  "aq_run s es s' \<Longrightarrow> aq_inv s \<Longrightarrow> aq_pops s i = Pop_woken \<Longrightarrow>
   (\<exists>r. Took i r \<in> set es) \<or> aq_pops s' i = Pop_woken"
  by (induction rule: aq_run.induct) (auto dest: step_keeps_woken aq_step_inv)

lemma run_wakes_waiting:
  "aq_run s es s' \<Longrightarrow> aq_inv s \<Longrightarrow> aq_pops s i = Pop_waiting \<Longrightarrow> Ran \<in> set es \<Longrightarrow>
   (\<exists>r. Took i r \<in> set es) \<or> aq_pops s' i = Pop_woken"
proof (induction rule: aq_run.induct)
  case (Cons s e s' es s'')
  show ?case
  proof (cases "e = Ran")
    case True
    then show ?thesis using Cons run_wakes run_keeps_woken aq_step_inv by (metis list.set_intros(2))
  next
    case False
    then show ?thesis using Cons step_keeps_waiting aq_step_inv by fastforce
  qed
qed simp

section \<open>Quiescence\<close>

text \<open>How many steps a consumer can still take; waiting and woken count the same.\<close>

fun pop_weight :: "pop_state \<Rightarrow> nat" where
  "pop_weight Pop_idle = 0"
| "pop_weight Pop_tried = 4"
| "pop_weight Pop_dispatched = 2"
| "pop_weight Pop_waiting = 1"
| "pop_weight Pop_woken = 1"

definition active :: "(nat \<Rightarrow> pop_state) \<Rightarrow> nat set" where
  "active f = {i. f i \<noteq> Pop_idle}"

definition pops_weight :: "(nat \<Rightarrow> pop_state) \<Rightarrow> nat" where
  "pops_weight f = (\<Sum>i \<in> active f. pop_weight (f i))"

definition aq_weight :: "'a aqueue \<Rightarrow> nat" where
  "aq_weight s = 2 * aq_wakes s + length (aq_jobs s) + length (aq_items s) + pops_weight (aq_pops s)"

lemma active_upd: "active (f(i := p)) = (if p = Pop_idle then active f - {i} else insert i (active f))"
  by (auto simp: active_def)

lemma pops_weight_superset: "finite A \<Longrightarrow> active f \<subseteq> A \<Longrightarrow> pops_weight f = (\<Sum>i \<in> A. pop_weight (f i))"
  unfolding pops_weight_def by (rule sum.mono_neutral_left) (auto simp: active_def)

lemma pops_weight_upd:
  assumes "finite (active f)"
  shows "pops_weight (f(i := p)) + pop_weight (f i) = pops_weight f + pop_weight p"
proof -
  let ?A = "insert i (active f)"
  have fin: "finite ?A" using assms by simp
  have "pops_weight (f(i := p)) = (\<Sum>j \<in> ?A. pop_weight ((f(i := p)) j))"
    by (rule pops_weight_superset [OF fin]) (auto simp: active_def split: if_splits)
  also have "\<dots> = pop_weight p + (\<Sum>j \<in> ?A - {i}. pop_weight (f j))"
    by (simp add: sum.remove [OF fin, of i])
  finally show ?thesis
    using pops_weight_superset [OF fin, of f] by (simp add: sum.remove [OF fin, of i] subset_insertI)
qed

lemma timer_cancel_weight:
  "active (aq_pops (timer_cancel s)) = active (aq_pops s)"
  "pops_weight (aq_pops (timer_cancel s)) = pops_weight (aq_pops s)"
proof -
  show act: "active (aq_pops (timer_cancel s)) = active (aq_pops s)"
    by (auto simp: active_def timer_cancel_def)
  show "pops_weight (aq_pops (timer_cancel s)) = pops_weight (aq_pops s)"
    unfolding pops_weight_def act by (rule sum.cong) (auto simp: timer_cancel_def)
qed

text \<open>The steps that bring nothing new: no push, no call of \<open>wake\<close>, no new wait.\<close>

fun settling :: "'a aq_event \<Rightarrow> bool" where
  "settling (Pushed v) = False"
| "settling Wake_called = False"
| "settling (Tried i) = False"
| "settling e = True"

lemma step_finite: "aq_step s e s' \<Longrightarrow> finite (active (aq_pops s)) \<Longrightarrow> finite (active (aq_pops s'))"
  by (erule aq_stepE)
    (auto simp: aq_push_def aq_wake_def aq_try_pop_def pop_goto_def run_job_def active_upd timer_cancel_weight
      split: if_splits job.split)

lemma run_finite: "aq_run s es s' \<Longrightarrow> finite (active (aq_pops s)) \<Longrightarrow> finite (active (aq_pops s'))"
  by (induction rule: aq_run.induct) (auto dest: step_finite)

lemma run_job_weight:
  assumes "finite (active (aq_pops s))" "\<And>i. j = Resume i \<Longrightarrow> aq_pops s i = Pop_dispatched"
  shows "pops_weight (aq_pops (run_job j s)) \<le> pops_weight (aq_pops s)"
proof (cases j)
  case (Resume i)
  have "aq_pops (timer_cancel s) i = Pop_dispatched" using assms(2) Resume by (simp add: timer_cancel_def)
  then show ?thesis
    using pops_weight_upd [of "aq_pops (timer_cancel s)" i Pop_waiting] assms(1)
    by (simp add: Resume run_job_def pop_goto_def timer_cancel_weight)
qed (simp add: run_job_def timer_cancel_weight)

lemma step_weight:
  "aq_step s e s' \<Longrightarrow> settling e \<Longrightarrow> aq_inv s \<Longrightarrow> finite (active (aq_pops s)) \<Longrightarrow> aq_weight s' < aq_weight s"
proof (induction rule: aq_step.induct)
  case (dispatch s i)
  then show ?case
    using pops_weight_upd [of "aq_pops s" i Pop_dispatched] by (simp add: aq_weight_def pop_goto_def)
next
  case (run s j js)
  have "pops_weight (aq_pops (run_job j (s\<lparr>aq_jobs := js\<rparr>))) \<le> pops_weight (aq_pops s)"
    using run_job_weight [of "s\<lparr>aq_jobs := js\<rparr>" j] run(4) aq_inv_resume [OF run(3)] run(1) by simp
  then show ?case
    using run(1) by (simp add: aq_weight_def run_job_def pop_goto_def timer_cancel_def split: job.splits)
next
  case (finish s i)
  then show ?case
    using pops_weight_upd [of "aq_pops s" i Pop_idle] by (simp add: aq_weight_def pop_goto_def)
qed (auto simp: aq_weight_def aq_wake_def aq_try_pop_def split: if_splits)

lemma run_weight:
  "aq_run s es s' \<Longrightarrow> \<forall>e \<in> set es. settling e \<Longrightarrow> aq_inv s \<Longrightarrow> finite (active (aq_pops s)) \<Longrightarrow>
   length es + aq_weight s' \<le> aq_weight s"
proof (induction rule: aq_run.induct)
  case (Cons s e s' es s'')
  have "aq_inv s'" "finite (active (aq_pops s'))"
    using Cons aq_step_inv step_finite by blast+
  then show ?case using Cons.IH step_weight [OF Cons.hyps(1)] Cons.prems by fastforce
qed simp

lemma pops_weight_le: "pops_weight f \<le> 4 * card (active f)"
proof -
  have "pop_weight p \<le> 4" for p by (cases p) simp_all
  then show ?thesis
    unfolding pops_weight_def using sum_bounded_above [of "active f" "\<lambda>i. pop_weight (f i)" 4] by (simp add: mult.commute)
qed

section \<open>Properties\<close>

text \<open>
  C26. First in, first out, whatever the interleaving: the batches handed to consumers, in the
  order they are taken, followed by what is still queued, are exactly the values pushed, in
  order; none is lost or handed out twice.
\<close>

theorem aq_fifo:
  assumes "aq_run aq_init es s"
  shows "taken es @ aq_items s = pushed es"
  by (rule aq.fifo [OF assms])


text \<open>One consumer waits, a value is pushed, the strand wakes it and it returns the value.\<close>

definition sample_waiting :: "nat aqueue" where
  "sample_waiting = \<lparr>aq_items = [], aq_jobs = [], aq_pops = (\<lambda>i. Pop_idle)(0 := Pop_waiting), aq_wakes = 0\<rparr>"

lemmas aq_eval = aq_run_Cons aq_step_simps aq_init_def aq_defs fun_eq_iff ex_bool_eq

lemma sample_waiting_run: "aq_run aq_init [Tried 0, Dispatched 0, Ran] sample_waiting"
  by (simp add: aq_eval sample_waiting_def)

theorem aq_fifo_witness:
  "taken [Pushed 1, Took 0 [1], Pushed 2, Pushed 3] @ aq_items \<lparr>aq_items = [2, 3], aq_jobs = [], aq_pops = (\<lambda>i. Pop_idle), aq_wakes = 3\<rparr>
     = pushed [Pushed (1 :: nat), Took 0 [1], Pushed 2, Pushed 3]"
  by (rule aq_fifo) (simp add: aq_eval)

text \<open>
  C27. A consumer that waits is woken as soon as the strand runs anything, in every schedule: it
  has then returned a batch or is about to take one.
\<close>

theorem aq_waiter_woken:
  assumes "aq_run aq_init es0 s" "aq_run s es s'"
    and "aq_pops s i = Pop_waiting" "Ran \<in> set es"
  shows "(\<exists>r. Took i r \<in> set es) \<or> aq_pops s' i = Pop_woken"
  using run_wakes_waiting [OF assms(2)] aq_run_inv [OF assms(1) aq_inv_init] assms(3,4) by blast

theorem aq_waiter_woken_witness:
  "(\<exists>r. Took 0 r \<in> set [Pushed (7 :: nat), Posted, Ran, Took 0 [7]]) \<or> aq_pops (aq_init :: nat aqueue) 0 = Pop_woken"
  by (rule aq_waiter_woken [OF sample_waiting_run, of _ "aq_init :: nat aqueue"])
    (simp_all add: aq_eval sample_waiting_def)

text \<open>
  A waiting consumer can always be served: a push, the post of its wake-up and one handler
  of the strand later it takes everything queued, the value pushed last.
\<close>

lemma aq_push_delivers:
  assumes "aq_run aq_init es s" "aq_pops s i = Pop_waiting"
  shows "\<exists>s'. aq_run s [Pushed v, Posted, Ran, Took i (aq_items s @ [v])] s' \<and> aq_items s' = [] \<and> aq_pops s' i = Pop_idle"
proof -
  define s1 where "s1 = aq_wake ((aq_push v s)\<lparr>aq_wakes := aq_wakes s\<rparr>)"
  obtain j js where j: "aq_jobs s1 = j # js" by (cases "aq_jobs s1") (simp_all add: s1_def aq_wake_def)
  define s2 where "s2 = run_job j (s1\<lparr>aq_jobs := js\<rparr>)"
  have posted: "aq_step (aq_push v s) Posted s1"
    unfolding s1_def by (rule aq_step.post) (simp add: aq_push_def)
  then have run1: "aq_run s [Pushed v, Posted] s1"
    by (meson aq_run.intros aq_step.push)
  have s1: "aq_inv s1" "aq_pops s1 i = Pop_waiting" "aq_items s1 = aq_items s @ [v]"
    using aq_run_inv [OF run1 aq_run_inv [OF assms(1) aq_inv_init]] assms(2)
    by (simp_all add: s1_def aq_push_def aq_wake_def)
  have ran: "aq_step s1 Ran s2" unfolding s2_def using j by (rule aq_step.run)
  have s2: "aq_pops s2 i = Pop_woken" "aq_items s2 = aq_items s @ [v]"
    using run_wakes [OF ran s1(1,2)] s1(3) by (simp_all add: s2_def aq_defs split: job.split)
  have taken: "aq_run s [Pushed v, Posted, Ran, Took i (aq_items s2)] (pop_goto i Pop_idle (s2\<lparr>aq_items := []\<rparr>))"
    by (rule aq_run.Cons [OF aq_step.push aq_run.Cons [OF posted aq_run.Cons [OF ran
          aq_run.Cons [OF aq_step.finish [OF s2(1)] aq_run.Nil]]]])
  show ?thesis
    by (rule exI [of _ "pop_goto i Pop_idle (s2\<lparr>aq_items := []\<rparr>)"])
      (use taken in \<open>simp add: s2(2) pop_goto_def\<close>)
qed

lemma aq_push_delivers_witness:
  "\<exists>s'. aq_run sample_waiting [Pushed 7, Posted, Ran, Took 0 (aq_items sample_waiting @ [7])] s'
     \<and> aq_items s' = [] \<and> aq_pops s' 0 = Pop_idle"
  by (rule aq_push_delivers [OF sample_waiting_run]) (simp add: sample_waiting_def)

text \<open>
  At most one consumer waits at a time: a consumer that starts to wait sets the timer and
  thereby ends the wait of any other.
\<close>

lemma aq_one_waiter:
  assumes "aq_run aq_init es s" "aq_pops s i = Pop_waiting" "i \<noteq> j"
  shows "aq_pops s j \<noteq> Pop_waiting"
  using aq_run_inv [OF assms(1) aq_inv_init] assms(2,3) unfolding aq_inv_def by blast

lemma aq_one_waiter_witness: "aq_pops sample_waiting (Suc 0) \<noteq> Pop_waiting"
  by (rule aq_one_waiter [OF sample_waiting_run, of 0]) (simp_all add: sample_waiting_def)

text \<open>
  C28. The queue comes to rest: without new pushes, calls of \<open>wake\<close> and new waits, every schedule
  of a reachable state ends, after a number of steps bounded by the wake-ups and handlers
  outstanding, the values queued and the consumers inside \<open>pop\<close>.
\<close>

theorem aq_quiesces:
  assumes "aq_run aq_init es0 s" "aq_run s es s'" "\<forall>e \<in> set es. settling e"
  shows "length es \<le> 2 * aq_wakes s + length (aq_jobs s) + length (aq_items s) + 4 * card {i. aq_pops s i \<noteq> Pop_idle}"
proof -
  have "finite (active (aq_pops s))"
    using run_finite [OF assms(1)] by (simp add: aq_init_def active_def)
  then have "length es \<le> aq_weight s"
    using run_weight [OF assms(2,3)] aq_run_inv [OF assms(1) aq_inv_init] by linarith
  then show ?thesis
    using pops_weight_le [of "aq_pops s"] by (simp add: aq_weight_def active_def)
qed

definition sample_pushed :: "nat aqueue" where
  "sample_pushed = \<lparr>aq_items = [7], aq_jobs = [], aq_pops = (\<lambda>i. Pop_idle)(0 := Pop_waiting), aq_wakes = 1\<rparr>"

theorem aq_quiesces_witness:
  "length [Posted, Ran, Took 0 [7 :: nat]] \<le> 2 * aq_wakes sample_pushed + length (aq_jobs sample_pushed)
     + length (aq_items sample_pushed) + 4 * card {i. aq_pops sample_pushed i \<noteq> Pop_idle}"
  by (rule aq_quiesces [of "[Tried 0, Dispatched 0, Ran, Pushed 7]" sample_pushed _ aq_init])
    (simp_all add: aq_eval sample_pushed_def)


text \<open>
  A consumer may return an empty batch although nothing was ever pushed and \<open>wake\<close> was not
  called: the wait of a second consumer ends the wait of the first.
\<close>

lemma aq_empty_pop:
  "\<exists>es (s :: 'a aqueue). aq_run aq_init es s \<and> pushed es = [] \<and> Wake_called \<notin> set es \<and> Took 0 [] \<in> set es"
  by (rule exI [of _ "[Tried 0, Dispatched 0, Ran, Tried 1, Dispatched 1, Ran, Took 0 []]"]) (simp add: aq_eval)

text \<open>The size is a C++ \<open>int\<close>: it is exact below \<open>2 ^ 31\<close> elements only.\<close>

lemma aq_size_exact: "length (aq_items s) < 2 ^ 31 \<Longrightarrow> aq_size s = int (length (aq_items s))"
  by (simp add: aq_size_def signed_of_nat signed_take_bit_int_eq_self)

lemma aq_empty_exact: "length (aq_items s) < 2 ^ 31 \<Longrightarrow> aq_empty s \<longleftrightarrow> aq_items s = []"
  by (simp add: aq_empty_def aq_size_exact)

end
