(* ===== verification/Signal_Stream.thy ===== *)
theory Signal_Stream
  imports Service Async_Queue
begin

text \<open>
  Signals and queues together, as examples/src/coro/async\<open>_\<close>signal2.cpp combines them: a stream
  registers a handler that pushes the arguments of every emission onto a queue, which a
  coroutine empties.  The handler holds the queue weakly: \<open>None\<close> once the stream is gone.
\<close>

section \<open>SignalStream\<close>

definition stream_handler :: "('v, 'v list aqueue option) callable" where
  "stream_handler args queue_weak =
     (case queue_weak of
        Some queue \<Rightarrow> (Inr None, Some (aq_push args queue))
      | None \<Rightarrow> (Inr None, None))"

definition signal_stream ::
  "string_view \<Rightarrow> cxx_type list \<Rightarrow> ('v, 'v list aqueue option) signal \<Rightarrow> ('v, 'v list aqueue option) signal" where
  "signal_stream topic Args sig = register_handler topic Args None stream_handler sig"

section \<open>Runs\<close>

text \<open>Emissions to the topic interleave with the steps of the queue that do not push.\<close>

datatype 'v stream_event = Emitted "(cxx_type \<times> 'v) list" | Queue_step "'v list aq_event"

inductive stream_run ::
  "(('v, 'v list aqueue option) func list \<Rightarrow> ('v, 'v list aqueue option) func list) \<Rightarrow> string_view
     \<Rightarrow> ('v, 'v list aqueue option) signal \<Rightarrow> 'v list aqueue \<Rightarrow> 'v stream_event list \<Rightarrow> 'v list aqueue \<Rightarrow> bool"
  for order topic sig where
  Nil: "stream_run order topic sig q [] q"
| Emit: "emit order topic args sig (Some q) = Returned v (Some q') \<Longrightarrow> stream_run order topic sig q' es q'' \<Longrightarrow>
     stream_run order topic sig q (Emitted args # es) q''"
| Queue: "aq_step q e q' \<Longrightarrow> (\<forall>v. e \<noteq> Pushed v) \<Longrightarrow> stream_run order topic sig q' es q'' \<Longrightarrow>
     stream_run order topic sig q (Queue_step e # es) q''"

inductive_simps stream_run_Nil [simp]: "stream_run order topic sig q [] q'"
inductive_simps stream_run_Cons: "stream_run order topic sig q (e # es) q'"

fun queue_events :: "'v stream_event list \<Rightarrow> 'v list aq_event list" where
  "queue_events [] = []"
| "queue_events (Emitted args # es) = Pushed (map snd args) # queue_events es"
| "queue_events (Queue_step e # es) = e # queue_events es"

fun emitted :: "'v stream_event list \<Rightarrow> 'v list list" where
  "emitted [] = []"
| "emitted (Emitted args # es) = map snd args # emitted es"
| "emitted (Queue_step e # es) = emitted es"

text \<open>An emission is a push of its arguments.\<close>

lemma emit_stream:
  assumes "map (\<lambda>a. decay (fst a)) args = Args" "sv_terminated topic"
  shows "emit id topic args (signal_stream topic Args []) (Some q) = Returned None (Some (aq_push (map snd args) q))"
  using emit_loop_bound [OF assms(1), of "[stream_handler]"]
  by (simp add: emit_def signal_stream_def register_handler_def sv_cstr_terminated [OF assms(2)] stream_handler_def)

lemma emit_stream_mismatch:
  assumes "map (\<lambda>a. decay (fst a)) args \<noteq> Args" "sv_terminated topic"
  shows "emit id topic args (signal_stream topic Args []) q = Undefined"
  by (simp add: emit_def signal_stream_def register_handler_def sv_cstr_terminated [OF assms(2)] emit_loop_mismatch [OF assms(1)]
      del: emit_loop.simps)

text \<open>A run of the stream is a run of its queue.\<close>

lemma stream_run_queue:
  "stream_run id topic (signal_stream topic Args []) q es q' \<Longrightarrow> sv_terminated topic \<Longrightarrow> aq_run q (queue_events es) q'"
proof (induction rule: stream_run.induct)
  case (Emit args q v q' es q'')
  have "map (\<lambda>a. decay (fst a)) args = Args"
    using Emit.hyps(1) emit_stream_mismatch [OF _ Emit.prems] by (metis outcome.distinct(3))
  from trans [OF emit_stream [OF this Emit.prems, of q, symmetric] Emit.hyps(1)]
  have "q' = aq_push (map snd args) q" by simp
  then show ?case using Emit.IH Emit.prems by (auto intro: aq_run.Cons aq_step.push)
qed (auto intro: aq_run.intros)

lemma stream_pushed:
  "stream_run order topic sig q es q' \<Longrightarrow> pushed (queue_events es) = emitted es"
proof (induction rule: stream_run.induct)
  case (Queue q e q' es q'')
  then show ?case by (cases e) auto
qed simp_all

text \<open>A stream is a queue of its emissions.\<close>

interpretation stream: fifo_queue
  "\<lambda>q es q'. sv_terminated topic \<and> stream_run id topic (signal_stream topic Args []) q es q'"
  aq_init aq_items emitted "\<lambda>es. taken (queue_events es)" for topic Args
proof unfold_locales
  fix es and q :: "'v list aqueue"
  assume "sv_terminated topic \<and> stream_run id topic (signal_stream topic Args []) aq_init es q"
  then show "taken (queue_events es) @ aq_items q = emitted es"
    using aq.fifo [OF stream_run_queue] stream_pushed by metis
qed

section \<open>Properties\<close>

text \<open>
  A signal stream delivers every emission of its topic exactly once and in order: in every
  interleaving of emissions with the coroutines that wait, the batches they receive, followed by
  what is still queued, are the arguments emitted.
\<close>

lemma stream_delivers_in_order:
  assumes "stream_run id topic (signal_stream topic Args []) aq_init es q" "sv_terminated topic"
  shows "taken (queue_events es) @ aq_items q = emitted es"
  by (rule stream.fifo) (use assms in simp)

lemma stream_delivers_in_order_witness:
  "taken (queue_events [Emitted [(int_type, 1 :: nat), (Ref int_type, 2)], Queue_step (Took 0 [[1, 2]]), Emitted [(int_type, 3), (int_type, 4)]])
     @ [[3, 4]] = emitted [Emitted [(int_type, 1), (Ref int_type, 2)], Queue_step (Took 0 [[1, 2]]), Emitted [(int_type, 3), (int_type, 4)]]"
proof -
  let ?es = "[Emitted [(int_type, 1 :: nat), (Ref int_type, 2)], Queue_step (Took 0 [[1, 2]]), Emitted [(int_type, 3), (int_type, 4)]]"
  let ?q = "\<lparr>aq_items = [[3, 4 :: nat]], aq_jobs = [], aq_pops = (\<lambda>i. Pop_idle), aq_wakes = 2\<rparr>"
  have t: "sv_terminated (sv_of ''/a'')" by (simp add: sv_terminated_def sv_of_def sv_string_def)
  have "stream_run id (sv_of ''/a'') (signal_stream (sv_of ''/a'') [int_type, int_type] []) aq_init ?es ?q"
    by (simp add: stream_run_Cons emit_stream t aq_eval)
  from stream_delivers_in_order [OF this t] show ?thesis by simp
qed

text \<open>Once the stream is gone an emission has no effect.\<close>

lemma stream_expired:
  "map (\<lambda>a. decay (fst a)) args = Args \<Longrightarrow> sv_terminated topic \<Longrightarrow>
   emit id topic args (signal_stream topic Args []) None = Returned None None"
  using emit_loop_bound [of args Args "[stream_handler]"]
  by (simp add: emit_def signal_stream_def register_handler_def sv_cstr_terminated stream_handler_def)

end
