(* ===== verification/Signal_Modules.thy ===== *)
theory Signal_Modules
  imports Signal_Stream
begin

text \<open>
  The program examples/src/coro/async\<open>_\<close>signal2.cpp: module A emits pairs of numbers, module B prints
  them, module C queues them and prints them with a delay, and a task X that starts later reads them
  from a stream.  What a module has printed is a list of pairs; the order in which an emission visits
  the handlers is any the library may choose.
\<close>

section \<open>Handlers\<close>

text \<open>What the handlers work on: the output of B, the queue of C, and the queue of the stream once X runs.\<close>

record modules =
  b_printed :: "int list list"
  c_queue :: "int list aqueue"
  x_queue :: "int list aqueue option"

definition b_on_a :: "unit \<Rightarrow> (int, modules) callable" where
  "b_on_a self vs w = (Inr None, w\<lparr>b_printed := b_printed w @ [vs]\<rparr>)"

definition c_on_a :: "unit \<Rightarrow> (int, modules) callable" where
  "c_on_a self vs w = (Inr None, w\<lparr>c_queue := aq_push vs (c_queue w)\<rparr>)"

definition x_handler :: "(int, modules) callable" where
  "x_handler vs w = (case stream_handler vs (x_queue w) of (r, q) \<Rightarrow> (r, w\<lparr>x_queue := q\<rparr>))"

section \<open>The program\<close>

text \<open>
  C is inside \<open>pop\<close> (\<open>None\<close>) or asleep with a batch; X prints a batch as soon as it has it.
\<close>

record program =
  sig :: "(int, modules) signal"
  mods :: modules
  c_batch :: "int list list option"
  c_printed :: "int list list"
  x_printed :: "int list list"

definition topic_a :: string_view where
  "topic_a = sv_of ''/a''"

abbreviation two_ints :: "cxx_type list" where
  "two_ints \<equiv> [int_type, int_type]"

text \<open>\<open>main\<close>: the modules B and C are initialised; the tasks run later.\<close>

definition modules_main :: "string + program" where
  "modules_main =
     (case register_member topic_a two_ints None b_on_a (Some ()) [] of
        Inl e \<Rightarrow> Inl e
      | Inr s1 \<Rightarrow>
          (case register_member topic_a two_ints None c_on_a (Some ()) s1 of
             Inl e \<Rightarrow> Inl e
           | Inr s2 \<Rightarrow>
               Inr \<lparr>sig = s2, mods = \<lparr>b_printed = [], c_queue = aq_init, x_queue = None\<rparr>, c_batch = None, c_printed = [],
                 x_printed = []\<rparr>))"

text \<open>X makes its stream: a queue, and a handler for it.\<close>

definition make_signal_stream :: "program \<Rightarrow> program" where
  "make_signal_stream s =
     s\<lparr>sig := register_handler topic_a two_ints None x_handler (sig s), mods := (mods s)\<lparr>x_queue := Some aq_init\<rparr>\<rparr>"

datatype module_event = A_emits int int | C_queue "int list aq_event" | C_prints | X_starts | X_queue "int list aq_event"

text \<open>The steps, in any order: the sleeps only delay them.\<close>

inductive module_step ::
  "((int, modules) func list \<Rightarrow> (int, modules) func list) \<Rightarrow> program \<Rightarrow> module_event \<Rightarrow> program \<Rightarrow> bool" for order where
  emit:
    "1 \<le> x \<Longrightarrow> x \<le> 9 \<Longrightarrow> 1 \<le> y \<Longrightarrow> y \<le> 9 \<Longrightarrow>
     emit order topic_a [(Ref int_type, x), (Ref int_type, y)] (sig s) (mods s) = Returned v m \<Longrightarrow>
     module_step order s (A_emits x y) (s\<lparr>mods := m\<rparr>)"
| c_queue:
    "one_consumer (c_batch s = None) e \<Longrightarrow> aq_step (c_queue (mods s)) e q \<Longrightarrow>
     module_step order s (C_queue e)
       (s\<lparr>mods := (mods s)\<lparr>c_queue := q\<rparr>, c_batch := (case e of Took i r \<Rightarrow> Some r | _ \<Rightarrow> c_batch s)\<rparr>)"
| c_print: "c_batch s = Some b \<Longrightarrow> module_step order s C_prints (s\<lparr>c_printed := c_printed s @ b, c_batch := None\<rparr>)"
| x_start: "x_queue (mods s) = None \<Longrightarrow> module_step order s X_starts (make_signal_stream s)"
| x_queue:
    "x_queue (mods s) = Some p \<Longrightarrow> one_consumer True e \<Longrightarrow> aq_step p e q \<Longrightarrow>
     module_step order s (X_queue e)
       (s\<lparr>mods := (mods s)\<lparr>x_queue := Some q\<rparr>, x_printed := x_printed s @ (case e of Took i r \<Rightarrow> r | _ \<Rightarrow> [])\<rparr>)"

inductive module_run ::
  "((int, modules) func list \<Rightarrow> (int, modules) func list) \<Rightarrow> program \<Rightarrow> module_event list \<Rightarrow> program \<Rightarrow> bool" for order where
  Nil: "module_run order s [] s"
| Snoc: "module_run order s es s' \<Longrightarrow> module_step order s' e s'' \<Longrightarrow> module_run order s (es @ [e]) s''"

text \<open>The pairs emitted, and those emitted since X has started.\<close>

fun emissions :: "module_event list \<Rightarrow> int list list" where
  "emissions [] = []"
| "emissions (A_emits x y # es) = [x, y] # emissions es"
| "emissions (_ # es) = emissions es"

fun emissions_to_x :: "module_event list \<Rightarrow> int list list" where
  "emissions_to_x [] = []"
| "emissions_to_x (X_starts # es) = emissions es"
| "emissions_to_x (_ # es) = emissions_to_x es"

lemma emissions_append: "emissions (es @ fs) = emissions es @ emissions fs"
  by (induction es rule: emissions.induct) auto

lemma emissions_to_x_append:
  "emissions_to_x (es @ fs) = (if X_starts \<in> set es then emissions_to_x es @ emissions fs else emissions_to_x fs)"
  by (induction es rule: emissions_to_x.induct) (auto simp: emissions_append)

lemma emissions_to_x_none: "X_starts \<notin> set es \<Longrightarrow> emissions_to_x es = []"
  by (induction es rule: emissions_to_x.induct) auto

section \<open>An emission, whatever the order\<close>

text \<open>A handler that only changes the state.\<close>

definition updating :: "('v list \<Rightarrow> 'w \<Rightarrow> 'w) \<Rightarrow> ('v, 'w) callable" where
  "updating u vs w = (Inr None, u vs w)"

lemma run_updating: "run_handlers (map updating us) vs w = Returned None (fold (\<lambda>u. u vs) us w)"
  by (induction us arbitrary: w) (simp_all add: updating_def)

lemma mset_map_split: "mset zs = mset (map f xs) \<Longrightarrow> \<exists>ys. zs = map f ys \<and> mset ys = mset xs"
proof (induction zs arbitrary: xs)
  case (Cons z zs)
  then have "z \<in> set (map f xs)" by (metis list.set_intros(1) set_mset_mset)
  then obtain x where x: "x \<in> set xs" "z = f x" by auto
  then obtain us vs where xs: "xs = us @ x # vs" by (metis split_list)
  then have "mset zs = mset (map f (us @ vs))" using Cons.prems x(2) by simp
  then obtain ys where "zs = map f ys" "mset ys = mset (us @ vs)" using Cons.IH by blast
  then show ?case using x(2) xs by (intro exI [of _ "x # ys"]) simp
qed simp

lemma emit_updating:
  assumes "\<And>fs. mset (order fs) = mset fs" "map (\<lambda>a. decay (fst a)) args = Args"
    and "\<And>u u'. u \<in> set us \<Longrightarrow> u' \<in> set us \<Longrightarrow> u vs \<circ> u' vs = u' vs \<circ> u vs" "map snd args = vs"
  shows "emit_loop (order (map (\<lambda>u. bind Args None (updating u)) us)) args w = Returned None (fold (\<lambda>u. u vs) us w)"
proof -
  obtain ys where ys: "order (map (\<lambda>u. bind Args None (updating u)) us) = map (\<lambda>u. bind Args None (updating u)) ys"
    "mset ys = mset us" using mset_map_split [OF assms(1)] by blast
  have "emit_loop (map (bind Args None) (map updating ys)) args w = run_handlers (map updating ys) vs w"
    using emit_loop_bound [OF assms(2), of "map updating ys" w] assms(4) by simp
  moreover have "fold (\<lambda>u. u vs) ys = fold (\<lambda>u. u vs) us"
    using fold_multiset_equiv [of us "\<lambda>u. u vs" ys] assms(3) ys(2) by simp
  ultimately show ?thesis by (simp add: ys(1) run_updating comp_def)
qed

definition b_update :: "int list \<Rightarrow> modules \<Rightarrow> modules" where
  "b_update vs w = w\<lparr>b_printed := b_printed w @ [vs]\<rparr>"

definition c_update :: "int list \<Rightarrow> modules \<Rightarrow> modules" where
  "c_update vs w = w\<lparr>c_queue := aq_push vs (c_queue w)\<rparr>"

definition x_update :: "int list \<Rightarrow> modules \<Rightarrow> modules" where
  "x_update vs w = w\<lparr>x_queue := map_option (aq_push vs) (x_queue w)\<rparr>"

lemma handlers_updating:
  "b_on_a self = updating b_update" "c_on_a self = updating c_update" "x_handler = updating x_update"
  by (auto simp: fun_eq_iff b_on_a_def c_on_a_def x_handler_def updating_def b_update_def c_update_def x_update_def
      stream_handler_def split: option.split)

lemma updates_commute:
  "b_update vs \<circ> c_update vs = c_update vs \<circ> b_update vs" "b_update vs \<circ> x_update vs = x_update vs \<circ> b_update vs"
  "c_update vs \<circ> x_update vs = x_update vs \<circ> c_update vs"
  by (auto simp: fun_eq_iff b_update_def c_update_def x_update_def)

text \<open>The registry, before and after the start of X.\<close>

definition handlers :: "bool \<Rightarrow> (int list \<Rightarrow> modules \<Rightarrow> modules) list" where
  "handlers x = [b_update, c_update] @ (if x then [x_update] else [])"

definition registry :: "bool \<Rightarrow> (int, modules) signal" where
  "registry x = map (\<lambda>u. (''/a'', bind two_ints None (updating u))) (handlers x)"

lemma emit_registry:
  assumes "\<And>fs. mset (order fs) = mset fs"
  shows "emit order topic_a [(Ref int_type, x), (Ref int_type, y)] (registry b) w
    = Returned None (fold (\<lambda>u. u [x, y]) (handlers b) w)"
proof -
  have "sv_cstr topic_a = ''/a''" by (simp add: topic_a_def sv_cstr_def sv_of_def cstr_Cons)
  moreover have "equal_range ''/a'' (registry b) = map (\<lambda>u. bind two_ints None (updating u)) (handlers b)"
    by (simp add: registry_def equal_range_def comp_def filter_map)
  moreover have "u vs \<circ> u' vs = u' vs \<circ> u vs" if "u \<in> set (handlers b)" "u' \<in> set (handlers b)" for u u' vs
    using that by (auto simp: handlers_def updates_commute split: if_splits)
  ultimately show ?thesis
    using emit_updating [OF assms, where Args = two_ints and us = "handlers b" and vs = "[x, y]"] by (simp add: emit_def)
qed

section \<open>Invariant\<close>

definition module_inv :: "module_event list \<Rightarrow> program \<Rightarrow> bool" where
  "module_inv es s \<longleftrightarrow>
     sig s = registry (X_starts \<in> set es) \<and>
     b_printed (mods s) = emissions es \<and>
     c_printed s @ (case c_batch s of None \<Rightarrow> [] | Some b \<Rightarrow> b) @ aq_items (c_queue (mods s)) = emissions es \<and>
     (case x_queue (mods s) of
        None \<Rightarrow> X_starts \<notin> set es \<and> x_printed s = []
      | Some q \<Rightarrow> X_starts \<in> set es \<and> x_printed s @ aq_items q = emissions_to_x es)"

definition modules_start :: program where
  "modules_start = \<lparr>sig = registry False, mods = \<lparr>b_printed = [], c_queue = aq_init, x_queue = None\<rparr>, c_batch = None,
     c_printed = [], x_printed = []\<rparr>"

lemma modules_main_start: "modules_main = Inr modules_start"
  by (simp add: modules_main_def modules_start_def register_member_def bind_member_def handlers_updating registry_def handlers_def
      topic_a_def bind_def as_void_def function_of_def)

lemma module_inv_start: "module_inv [] modules_start"
  by (simp add: module_inv_def modules_start_def aq_init_def)

text \<open>A step of a queue with one consumer: nothing is pushed, and what is taken was at its front.\<close>

lemma one_consumer_step:
  "aq_step q e q' \<Longrightarrow> one_consumer b e \<Longrightarrow> aq_items q = (case e of Took i r \<Rightarrow> r | _ \<Rightarrow> []) @ aq_items q'"
  using aq_step_fifo [of q e q'] by (cases e) (simp_all add: one_consumer_def)

lemma module_step_inv:
  assumes "\<And>fs. mset (order fs) = mset fs"
  shows "module_step order s e s' \<Longrightarrow> module_inv es s \<Longrightarrow> module_inv (es @ [e]) s'"
proof (induction rule: module_step.induct)
  case (emit x y s v m)
  have "Returned v m = Returned None (fold (\<lambda>u. u [x, y]) (handlers (X_starts \<in> set es)) (mods s))"
    using emit(5,6) emit_registry [OF assms] by (simp add: module_inv_def)
  then have m: "m = fold (\<lambda>u. u [x, y]) (handlers (X_starts \<in> set es)) (mods s)" by simp
  then show ?case
    using emit(6)
    by (auto simp: module_inv_def handlers_def b_update_def c_update_def x_update_def emissions_append emissions_to_x_append aq_push_def
        append_eq_append_conv2 split: option.splits)
next
  case (c_queue s e q)
  then show ?case
    using one_consumer_step [OF c_queue(2,1)]
    by (auto simp: module_inv_def emissions_append emissions_to_x_append one_consumer_def
        split: aq_event.splits option.splits)
next
  case (c_print s b)
  then show ?case by (auto simp: module_inv_def emissions_append emissions_to_x_append split: option.splits)
next
  case (x_start s)
  then show ?case
    by (auto simp: module_inv_def make_signal_stream_def emissions_append emissions_to_x_append registry_def handlers_def
        register_handler_def handlers_updating topic_a_def aq_init_def)
next
  case (x_queue s p e q)
  then show ?case
    using one_consumer_step [OF x_queue(3,2)]
    by (auto simp: module_inv_def emissions_append emissions_to_x_append split: option.splits)
qed

lemma module_run_inv:
  assumes "\<And>fs. mset (order fs) = mset fs"
  shows "module_run order s es s' \<Longrightarrow> module_inv [] s \<Longrightarrow> module_inv es s'"
  by (induction rule: module_run.induct) (auto intro: module_step_inv [OF assms])

section \<open>Properties\<close>

text \<open>
  C31. Whatever the order of handlers and the interleaving: B has printed every pair emitted, in order;
  what C has printed, the batch it sleeps on and its queue are together the pairs emitted; and what X has
  printed and the queue of its stream are the pairs emitted since X started.
\<close>

theorem modules_deliver:
  assumes "modules_main = Inr p" "module_run order p es s" "\<And>fs. mset (order fs) = mset fs"
  shows "b_printed (mods s) = emissions es
    \<and> c_printed s @ (case c_batch s of None \<Rightarrow> [] | Some b \<Rightarrow> b) @ aq_items (c_queue (mods s)) = emissions es
    \<and> x_printed s @ (case x_queue (mods s) of None \<Rightarrow> [] | Some q \<Rightarrow> aq_items q) = emissions_to_x es"
proof -
  have "p = modules_start" using trans [OF assms(1) [symmetric] modules_main_start] by simp
  then have "module_inv [] p" using module_inv_start by simp
  from module_run_inv [OF assms(3,2) this] show ?thesis
    by (auto simp: module_inv_def emissions_to_x_none split: option.splits)
qed

definition sample_modules :: program where
  "sample_modules = modules_start\<lparr>mods := \<lparr>b_printed = [[1, 2]],
     c_queue = \<lparr>aq_items = [], aq_jobs = [], aq_pops = (\<lambda>i. Pop_idle), aq_wakes = 1\<rparr>, x_queue = None\<rparr>, c_batch := Some [[1, 2]]\<rparr>"

lemma sample_modules_run: "module_run rev modules_start [A_emits 1 2, C_queue (Took 0 [[1, 2]])] sample_modules"
proof -
  let ?m = "fold (\<lambda>u. u [1, 2]) (handlers False) (mods modules_start)"
  have "module_step rev modules_start (A_emits 1 2) (modules_start\<lparr>mods := ?m\<rparr>)"
    by (rule module_step.emit) (simp_all add: modules_start_def emit_registry)
  moreover have "module_step rev (modules_start\<lparr>mods := ?m\<rparr>) (C_queue (Took 0 [[1, 2]])) sample_modules"
    using module_step.c_queue [of "modules_start\<lparr>mods := ?m\<rparr>" "Took 0 [[1, 2]]"
      "\<lparr>aq_items = [], aq_jobs = [], aq_pops = (\<lambda>i. Pop_idle), aq_wakes = 1\<rparr>" rev]
    by (simp add: modules_start_def sample_modules_def handlers_def b_update_def c_update_def one_consumer_def aq_eval)
  ultimately show ?thesis
    using module_run.Snoc [OF module_run.Snoc [OF module_run.Nil]] by fastforce
qed

theorem modules_deliver_witness:
  "b_printed (mods sample_modules) = emissions [A_emits 1 2, C_queue (Took 0 [[1, 2]])]
    \<and> c_printed sample_modules @ (case c_batch sample_modules of None \<Rightarrow> [] | Some b \<Rightarrow> b) @ aq_items (c_queue (mods sample_modules))
      = emissions [A_emits 1 2, C_queue (Took 0 [[1, 2]])]
    \<and> x_printed sample_modules @ (case x_queue (mods sample_modules) of None \<Rightarrow> [] | Some q \<Rightarrow> aq_items q)
      = emissions_to_x [A_emits 1 2, C_queue (Took 0 [[1, 2]])]"
  by (rule modules_deliver [OF modules_main_start sample_modules_run]) simp

end
