(* ===== verification/Json.thy ===== *)
theory Json
  imports Std_Map
begin

text \<open>
  The conversions of include/ccl2/json.h between C++ values and JSON trees.  A C++ type the
  template is instantiated with is a value of \<open>cty\<close>, and \<open>yyjson_convert<T>\<close> a recursion on it;
  the tree of the yyjson library is \<open>yyjson_val\<close>, with the accessors the header calls as that
  library documents them, and reading and writing JSON text are parameters.
\<close>

section \<open>JSON trees\<close>

type_synonym u64 = "64 word"

text \<open>
  Numbers carry the subtype of yyjson: unsigned and signed integers are 64 bits wide, \<open>'d\<close> is
  the type of reals.
\<close>

datatype 'd yyjson_val =
    JNull
  | JBool bool
  | JUint u64
  | JSint u64
  | JReal 'd
  | JString string
  | JArr "'d yyjson_val list"
  | JObj "(string \<times> 'd yyjson_val) list"

fun yyjson_is_num :: "'d yyjson_val \<Rightarrow> bool" where
  "yyjson_is_num (JUint w) = True"
| "yyjson_is_num (JSint w) = True"
| "yyjson_is_num (JReal r) = True"
| "yyjson_is_num _ = False"

text \<open>\<open>yyjson_get_sint\<close> and \<open>yyjson_get_uint\<close> read the 64 bits of an integer, and 0 of anything else.\<close>

fun yyjson_get_bits :: "'d yyjson_val \<Rightarrow> u64" where
  "yyjson_get_bits (JUint w) = w"
| "yyjson_get_bits (JSint w) = w"
| "yyjson_get_bits _ = 0"

text \<open>\<open>yyjson_obj_get\<close>: the first value of a key.\<close>

definition yyjson_obj_get :: "(string \<times> 'd yyjson_val) list \<Rightarrow> string \<Rightarrow> 'd yyjson_val option" where
  "yyjson_obj_get kvs k = map_of kvs k"

lemma yyjson_obj_get_size:
  "yyjson_obj_get kvs k = Some js \<Longrightarrow> size js < size_list (size_prod (\<lambda>k. 0) size) kvs"
  by (induction kvs) (auto simp: yyjson_obj_get_def split: if_splits)

section \<open>C++ types and values\<close>

text \<open>
  \<open>TInt signed bits\<close> stands for the integer types (\<open>char\<close> is the signed 8-bit one), \<open>TReal\<close> for
  \<open>double\<close>, \<open>TFloat\<close> for \<open>float\<close>, \<open>TVal\<close> for \<open>yyjson_val *\<close>, \<open>TSeq\<close> for \<open>std::vector\<close> and \<open>std::list\<close>, \<open>TMap\<close>
  for \<open>std::map\<close> and \<open>std::unordered_map\<close> with string keys, \<open>TStruct\<close> for an adapted structure: its members with their names, each optional
  (\<open>True\<close>) or not.
\<close>

datatype container = Std_vector | Std_list

datatype map_kind = Std_map | Std_unordered_map

datatype cty =
    TBool
  | TReal
  | TFloat
  | TInt bool nat
  | TVal
  | TString
  | TSeq container cty
  | TMap map_kind cty
  | TStruct "(string \<times> bool \<times> cty) list"

datatype 'd cval =
    VBool bool
  | VReal 'd
  | VNum int
  | VVal "'d yyjson_val"
  | VString string
  | VList "'d cval list"
  | VMap "(string \<times> 'd cval) list"
  | VStruct "'d cval option list"

text \<open>
  A required member is stored as \<open>Some\<close>.  A map of either kind is its entries by ascending keys.

  What the header takes from the compiler and the libraries: the zero and the rounding to \<open>float\<close> of
  real numbers, and the order in which an \<open>unordered_map\<close> visits its entries.
\<close>

record 'd json_env =
  je_zero :: 'd
  je_float :: "'d \<Rightarrow> 'd"
  je_order :: "(string \<times> 'd yyjson_val) list \<Rightarrow> (string \<times> 'd yyjson_val) list"

definition map_order ::
  "'d json_env \<Rightarrow> map_kind \<Rightarrow> (string \<times> 'd yyjson_val) list \<Rightarrow> (string \<times> 'd yyjson_val) list" where
  "map_order env c kvs = (case c of Std_map \<Rightarrow> kvs | Std_unordered_map \<Rightarrow> je_order env kvs)"

text \<open>What does not return normally: an exception, or the termination by \<open>gsl::not_null\<close>.\<close>

datatype json_fail = Json_error string | Not_null_violated

text \<open>Assignment of a 64-bit integer to an integer type.\<close>

definition narrow :: "bool \<Rightarrow> nat \<Rightarrow> int \<Rightarrow> int" where
  "narrow sg b n = (if sg then signed_take_bit (b - 1) n else take_bit b n)"

section \<open>Writing\<close>

fun to_json :: "'d json_env \<Rightarrow> cty \<Rightarrow> 'd cval \<Rightarrow> 'd yyjson_val"
  and members_to_json ::
    "'d json_env \<Rightarrow> (string \<times> bool \<times> cty) list \<Rightarrow> 'd cval option list \<Rightarrow> (string \<times> 'd yyjson_val) list"
where
  "to_json env TBool (VBool b) = JBool b"
| "to_json env TReal (VReal r) = JReal r"
| "to_json env TFloat (VReal r) = JReal r"
| "to_json env (TInt sg b) (VNum n) = (if sg then JSint (word_of_int n) else JUint (word_of_int n))"
| "to_json env TString (VString s) = JString s"
| "to_json env TVal (VVal js) = js"
| "to_json env (TSeq c t) (VList vs) = JArr (map (to_json env t) vs)"
| "to_json env (TMap c t) (VMap kvs) = JObj (map_order env c (map (\<lambda>kv. (fst kv, to_json env t (snd kv))) kvs))"
| "to_json env (TStruct fs) (VStruct vs) = JObj (members_to_json env fs vs)"
| "to_json env t v = JNull"
| "members_to_json env ((k, opt, t) # fs) (m # vs) =
     (case m of
        Some v \<Rightarrow> (k, to_json env t v) # members_to_json env fs vs
      | None \<Rightarrow> members_to_json env fs vs)"
| "members_to_json env fs vs = []"

section \<open>Reading\<close>

text \<open>The value of a declared but not yet assigned variable; a container is empty.\<close>

fun fresh :: "cty \<Rightarrow> 'd json_env \<Rightarrow> 'd cval"
  and fresh_members :: "(string \<times> bool \<times> cty) list \<Rightarrow> 'd json_env \<Rightarrow> 'd cval option list"
where
  "fresh TBool env = VBool False"
| "fresh TReal env = VReal (je_zero env)"
| "fresh TFloat env = VReal (je_zero env)"
| "fresh (TInt sg b) env = VNum 0"
| "fresh TString env = VString []"
| "fresh TVal env = VVal JNull"
| "fresh (TSeq c t) env = VList []"
| "fresh (TMap c t) env = VMap []"
| "fresh (TStruct fs) env = VStruct (fresh_members fs env)"
| "fresh_members [] env = []"
| "fresh_members ((k, opt, t) # fs) env = (if opt then None else Some (fresh t env)) # fresh_members fs env"

text \<open>
  \<open>from_json t js rhs\<close> is \<open>yyjson_convert<t>::from_json(js, rhs)\<close>: the new value of \<open>rhs\<close>, or how
  the call failed.  A list and a map are added to, a member is converted into its place.
\<close>

function from_json :: "'d json_env \<Rightarrow> cty \<Rightarrow> 'd yyjson_val \<Rightarrow> 'd cval \<Rightarrow> json_fail + 'd cval"
  and items_from_json :: "'d json_env \<Rightarrow> cty \<Rightarrow> 'd yyjson_val list \<Rightarrow> 'd cval list \<Rightarrow> json_fail + 'd cval list"
  and pairs_from_json ::
    "'d json_env \<Rightarrow> cty \<Rightarrow> (string \<times> 'd yyjson_val) list \<Rightarrow> (string \<times> 'd cval) list \<Rightarrow> json_fail + (string \<times> 'd cval) list"
  and members_from_json ::
    "'d json_env \<Rightarrow> (string \<times> bool \<times> cty) list \<Rightarrow> (string \<times> 'd yyjson_val) list \<Rightarrow> 'd cval option list
       \<Rightarrow> json_fail + 'd cval option list"
  and member_from_json ::
    "'d json_env \<Rightarrow> bool \<Rightarrow> cty \<Rightarrow> 'd yyjson_val option \<Rightarrow> 'd cval option \<Rightarrow> json_fail + 'd cval option"
where
  "from_json env TBool js rhs =
     (case js of JBool b \<Rightarrow> Inr (VBool b) | _ \<Rightarrow> Inl (Json_error ''unknown number type''))"
| "from_json env TReal js rhs =
     (case js of JReal r \<Rightarrow> Inr (VReal r) | _ \<Rightarrow> Inl (Json_error ''unknown number type''))"
| "from_json env TFloat js rhs =
     (case js of JReal r \<Rightarrow> Inr (VReal (je_float env r)) | _ \<Rightarrow> Inl (Json_error ''unknown number type''))"
| "from_json env (TInt sg b) js rhs =
     (if yyjson_is_num js then Inr (VNum (narrow sg b (sint (yyjson_get_bits js))))
      else Inl (Json_error ''unknown number type''))"
| "from_json env TString js rhs =
     (case js of JString s \<Rightarrow> Inr (VString s) | _ \<Rightarrow> Inl (Json_error ''std::string expect a json string''))"
| "from_json env TVal js rhs = Inr (VVal js)"
| "from_json env (TSeq c t) js rhs =
     (case (js, rhs) of
        (JArr items, VList vs) \<Rightarrow>
          (case items_from_json env t items vs of Inl e \<Rightarrow> Inl e | Inr vs' \<Rightarrow> Inr (VList vs'))
      | _ \<Rightarrow> Inl (Json_error
             (case c of Std_vector \<Rightarrow> ''std::vector<T> expect a json array''
                      | Std_list \<Rightarrow> ''std::list<T> expect a json array'')))"
| "from_json env (TMap c t) js rhs =
     (case (js, rhs) of
        (JObj kvs, VMap m) \<Rightarrow>
          (case pairs_from_json env t kvs m of Inl e \<Rightarrow> Inl e | Inr m' \<Rightarrow> Inr (VMap m'))
      | _ \<Rightarrow> Inl (Json_error
             (case c of Std_map \<Rightarrow> ''std::map<K,V> expect a json object''
                      | Std_unordered_map \<Rightarrow> ''std::unordered_map<K,V> expect a json object'')))"
| "from_json env (TStruct fs) js rhs =
     (case (js, rhs) of
        (JObj kvs, VStruct vs) \<Rightarrow>
          (case members_from_json env fs kvs vs of Inl e \<Rightarrow> Inl e | Inr vs' \<Rightarrow> Inr (VStruct vs'))
      | _ \<Rightarrow> Inl (Json_error ''common T expect a json object''))"
| "items_from_json env t [] vs = Inr vs"
| "items_from_json env t (item # items) vs =
     (case from_json env t item (fresh t env) of
        Inl e \<Rightarrow> Inl e
      | Inr v \<Rightarrow> items_from_json env t items (vs @ [v]))"
| "pairs_from_json env t [] m = Inr m"
| "pairs_from_json env t ((k, js) # kvs) m =
     (case from_json env t js (fresh t env) of
        Inl e \<Rightarrow> Inl e
      | Inr v \<Rightarrow> pairs_from_json env t kvs (smap_emplace (<) k v m))"
| "members_from_json env ((k, opt, t) # fs) kvs (m # vs) =
     (case member_from_json env opt t (yyjson_obj_get kvs k) m of
        Inl e \<Rightarrow> Inl e
      | Inr m' \<Rightarrow>
          (case members_from_json env fs kvs vs of Inl e \<Rightarrow> Inl e | Inr ms \<Rightarrow> Inr (m' # ms)))"
| "members_from_json env [] kvs vs = Inr []"
| "members_from_json env (f # fs) kvs [] = Inr []"
| "member_from_json env True t None m = Inr None"
| "member_from_json env True t (Some js) m =
     (if js = JNull then Inr None
      else (case from_json env t js (fresh t env) of
              Inl e \<Rightarrow> Inl e
            | Inr inner \<Rightarrow> Inr (Some inner)))"
| "member_from_json env False t None m = Inl Not_null_violated"
| "member_from_json env False t (Some js) m =
     (case from_json env t js (case m of Some v \<Rightarrow> v | None \<Rightarrow> fresh t env) of
        Inl e \<Rightarrow> Inl e
      | Inr v \<Rightarrow> Inr (Some v))"
  by pat_completeness auto
termination
  by (relation "measure (\<lambda>x. case x of
        Inl (Inl (env, t, js, rhs)) \<Rightarrow> 2 * (size t + size js)
      | Inl (Inr (env, t, items, vs)) \<Rightarrow> 2 * (size t + size_list size items)
      | Inr (Inl (env, t, kvs, m)) \<Rightarrow> 2 * (size t + size_list (size_prod (\<lambda>k. 0) size) kvs)
      | Inr (Inr (Inl (env, fs, kvs, vs))) \<Rightarrow>
          2 * (size_list (size_prod (\<lambda>k. 0) (size_prod (\<lambda>opt. 0) size)) fs + size_list (size_prod (\<lambda>k. 0) size) kvs)
      | Inr (Inr (Inr (env, opt, t, jo, m))) \<Rightarrow> 2 * (size t + (case jo of None \<Rightarrow> 0 | Some js \<Rightarrow> size js)) + 1)")
    (auto dest: yyjson_obj_get_size split: option.split)

section \<open>Texts\<close>

text \<open>
  \<open>yyjson_read\<close> and \<open>yyjson_mut_write_opts\<close> are the parameters \<open>yread\<close> and \<open>ywrite\<close>; the text written is
  copied up to its first zero byte.
\<close>

definition parse :: "(string \<Rightarrow> 'd yyjson_val option) \<Rightarrow> 'd json_env \<Rightarrow> cty \<Rightarrow> string \<Rightarrow> json_fail + 'd cval" where
  "parse yread env t s =
     (case yread s of
        None \<Rightarrow> Inl (Json_error ''yyjson parse error'')
      | Some root \<Rightarrow> from_json env t root (fresh t env))"

text \<open>The overload with a callback, which runs while the tree is alive.\<close>

definition parse_with ::
  "(string \<Rightarrow> 'd yyjson_val option) \<Rightarrow> 'd json_env \<Rightarrow> cty \<Rightarrow> string \<Rightarrow> ('d cval \<Rightarrow> json_fail + 'a) \<Rightarrow> json_fail + 'a" where
  "parse_with yread env t s f =
     (case yread s of
        None \<Rightarrow> Inl (Json_error ''yyjson parse error'')
      | Some root \<Rightarrow>
          (case from_json env t root (fresh t env) of
             Inl e \<Rightarrow> Inl e
           | Inr ret \<Rightarrow> f ret))"

definition dump :: "'d json_env \<Rightarrow> ('d yyjson_val \<Rightarrow> string + string) \<Rightarrow> cty \<Rightarrow> 'd cval \<Rightarrow> json_fail + string" where
  "dump env ywrite t v =
     (case ywrite (to_json env t v) of
        Inl msg \<Rightarrow> Inl (Json_error msg)
      | Inr json_str \<Rightarrow> Inr (cstr json_str))"

end
