(* ===== verification/Json_Roundtrip.thy ===== *)
theory Json_Roundtrip
  imports Json "HOL-Library.Multiset"
begin

text \<open>
  What the conversions of theory Json promise: a well-typed value survives writing and reading
  back, whatever is read is well typed, and an integer is read exactly if it fits.
\<close>

section \<open>Well-formed types, well-typed values, trees as read\<close>

text \<open>The C++ types of the table of primitives; a structure has each member once.\<close>

fun wf_cty :: "cty \<Rightarrow> bool" where
  "wf_cty (TInt sg b) = (b \<in> {8, 16, 32, 64})"
| "wf_cty (TSeq c t) = wf_cty t"
| "wf_cty (TMap c t) = wf_cty t"
| "wf_cty (TStruct fs) = (distinct (map fst fs) \<and> list_all (\<lambda>f. wf_cty (snd (snd f))) fs)"
| "wf_cty _ = True"

text \<open>
  A text does not say whether a nonnegative integer was written as a signed one: reading gives
  the unsigned subtype.
\<close>

fun yy_norm :: "'d yyjson_val \<Rightarrow> 'd yyjson_val" where
  "yy_norm (JSint w) = (if 0 \<le> sint w then JUint w else JSint w)"
| "yy_norm (JArr js) = JArr (map yy_norm js)"
| "yy_norm (JObj kvs) = JObj (map (\<lambda>kv. (fst kv, yy_norm (snd kv))) kvs)"
| "yy_norm js = js"

definition int_range :: "bool \<Rightarrow> nat \<Rightarrow> int \<Rightarrow> bool" where
  "int_range sg b n \<longleftrightarrow> (if sg then - (2 ^ (b - 1)) \<le> n \<and> n < 2 ^ (b - 1) else 0 \<le> n \<and> n < 2 ^ b)"

text \<open>Rounding to \<open>float\<close> is idempotent and keeps 0; a map visits each of its entries once.\<close>

definition env_ok :: "'d json_env \<Rightarrow> bool" where
  "env_ok env \<longleftrightarrow>
     je_float env (je_zero env) = je_zero env \<and> (\<forall>r. je_float env (je_float env r) = je_float env r) \<and>
     (\<forall>kvs. mset (je_order env kvs) = mset kvs)"

text \<open>
  An optional \<open>yyjson_val *\<close> that points to a null is read back as no value, so it is not among
  the values considered.
\<close>

fun has_type :: "'d json_env \<Rightarrow> cty \<Rightarrow> 'd cval \<Rightarrow> bool"
  and members_have_type :: "'d json_env \<Rightarrow> (string \<times> bool \<times> cty) list \<Rightarrow> 'd cval option list \<Rightarrow> bool"
where
  "has_type env TBool (VBool b) = True"
| "has_type env TReal (VReal r) = True"
| "has_type env TFloat (VReal r) = (je_float env r = r)"
| "has_type env (TInt sg b) (VNum n) = int_range sg b n"
| "has_type env TVal (VVal js) = (yy_norm js = js)"
| "has_type env TString (VString s) = True"
| "has_type env (TSeq c t) (VList vs) = (\<forall>v \<in> set vs. has_type env t v)"
| "has_type env (TMap c t) (VMap kvs) = (smap_ordered (<) kvs \<and> (\<forall>kv \<in> set kvs. has_type env t (snd kv)))"
| "has_type env (TStruct fs) (VStruct ms) = members_have_type env fs ms"
| "has_type env _ _ = False"
| "members_have_type env [] [] = True"
| "members_have_type env ((k, opt, t) # fs) (m # ms) =
     ((case m of None \<Rightarrow> opt | Some v \<Rightarrow> has_type env t v \<and> (opt \<longrightarrow> to_json env t v \<noteq> JNull)) \<and> members_have_type env fs ms)"
| "members_have_type env _ _ = False"

definition member_has_type :: "'d json_env \<Rightarrow> bool \<Rightarrow> cty \<Rightarrow> 'd cval option \<Rightarrow> bool" where
  "member_has_type env opt t m =
     (case m of None \<Rightarrow> opt | Some v \<Rightarrow> has_type env t v \<and> (opt \<longrightarrow> to_json env t v \<noteq> JNull))"

lemma member_has_type_simps [simp]:
  "member_has_type env opt t None \<longleftrightarrow> opt"
  "member_has_type env opt t (Some v) \<longleftrightarrow> has_type env t v \<and> (opt \<longrightarrow> to_json env t v \<noteq> JNull)"
  by (simp_all add: member_has_type_def)

lemma members_have_type_Cons [simp]:
  "members_have_type env ((k, opt, t) # fs) (m # ms) \<longleftrightarrow> member_has_type env opt t m \<and> members_have_type env fs ms"
  by (simp add: member_has_type_def)

declare members_have_type.simps(2) [simp del]

lemmas from_json_induct = from_json_items_from_json_pairs_from_json_members_from_json_member_from_json.induct

section \<open>Integers\<close>

lemma narrow_word:
  assumes "b \<in> {8, 16, 32, 64}"
  shows "narrow sg b (sint (word_of_int n :: u64)) = narrow sg b n"
proof -
  have "b \<le> 64" "b - 1 \<le> 63" using assms by auto
  then show ?thesis
    by (simp add: narrow_def sint_sbintrunc' signed_take_bit_signed_take_bit
        take_bit_signed_take_bit min_def)
qed

lemma narrow_range:
  assumes "b \<in> {8, 16, 32, 64}"
  shows "narrow sg b n = n \<longleftrightarrow> int_range sg b n"
proof -
  obtain m where m: "b = Suc m" using assms by (cases b) auto
  show ?thesis
    by (simp add: narrow_def int_range_def m signed_take_bit_int_eq_self_iff take_bit_int_eq_self_iff)
qed

lemma int_range_narrow:
  assumes "b \<in> {8, 16, 32, 64}"
  shows "int_range sg b (narrow sg b n)"
proof -
  obtain m where m: "b = Suc m" using assms by (cases b) auto
  show ?thesis
    using take_bit_int_less_exp [of b n]
    by (simp add: narrow_def int_range_def m signed_take_bit_int_less_exp
        signed_take_bit_int_greater_eq_minus_exp)
qed

section \<open>Writing and reading back\<close>

lemma items_from_json_map:
  "(\<And>v. v \<in> set vs \<Longrightarrow> from_json env t (f v) (fresh t env) = Inr v) \<Longrightarrow>
   items_from_json env t (map f vs) acc = Inr (acc @ vs)"
  by (induction vs arbitrary: acc) auto

lemma pairs_from_json_insert:
  "(\<And>k js. (k, js) \<in> set kvs \<Longrightarrow> from_json env t js (fresh t env) = Inr (f k)) \<Longrightarrow>
   pairs_from_json env t kvs m = Inr (smap_insert_all (<) (map (\<lambda>kv. (fst kv, f (fst kv))) kvs) m)"
proof (induction kvs arbitrary: m)
  case (Cons kv kvs)
  obtain k js where kv: "kv = (k, js)" by force
  have first: "from_json env t js (fresh t env) = Inr (f k)" using Cons.prems kv by simp
  have rest: "\<And>k js. (k, js) \<in> set kvs \<Longrightarrow> from_json env t js (fresh t env) = Inr (f k)"
    using Cons.prems by simp
  show ?case using Cons.IH [OF rest] by (simp add: kv first)
qed simp

lemma mset_map_order: "env_ok env \<Longrightarrow> mset (map_order env c kvs) = mset kvs"
  by (simp add: env_ok_def map_order_def split: map_kind.split)

text \<open>In whatever order the entries of a map are written, reading them gives the map.\<close>

lemma pairs_from_json_map:
  assumes "env_ok env" "smap_ordered (<) kvs"
    and conv: "\<And>kv. kv \<in> set kvs \<Longrightarrow> from_json env t (g (to_json env t (snd kv))) (fresh t env) = Inr (snd kv)"
  shows "pairs_from_json env t
     (map (\<lambda>kv. (fst kv, g (snd kv))) (map_order env c (map (\<lambda>kv. (fst kv, to_json env t (snd kv))) kvs))) [] = Inr kvs"
proof -
  let ?w = "map (\<lambda>kv. (fst kv, to_json env t (snd kv))) kvs" and ?f = "\<lambda>k. the (map_of kvs k)"
  let ?es = "map (\<lambda>kv. (fst kv, g (snd kv))) (map_order env c ?w)"
  have dist: "distinct (map fst kvs)" using assms(2) by (rule std_less.ordered_distinct)
  have perm: "mset (map_order env c ?w) = mset ?w" using assms(1) by (rule mset_map_order)
  have entries: "set (map_order env c ?w) = set ?w" using perm by (rule mset_eq_setD)
  have "from_json env t js (fresh t env) = Inr (?f k)" if "(k, js) \<in> set ?es" for k js
  proof -
    from that obtain e where e: "e \<in> set (map_order env c ?w)" "k = fst e" "js = g (snd e)" by auto
    then obtain kv where kv: "kv \<in> set kvs" "k = fst kv" "js = g (to_json env t (snd kv))"
      unfolding entries by auto
    have "map_of kvs k = Some (snd kv)" using dist kv(1,2) by simp
    then show ?thesis using conv [OF kv(1)] kv(3) by simp
  qed
  then have "pairs_from_json env t ?es [] = Inr (smap_insert_all (<) (map (\<lambda>kv. (fst kv, ?f (fst kv))) ?es) [])"
    by (rule pairs_from_json_insert)
  moreover have "smap_insert_all (<) (map (\<lambda>kv. (fst kv, ?f (fst kv))) ?es) [] = kvs"
  proof (rule std_less.insert_all_perm [OF assms(2)])
    have "mset (map fst (map_order env c ?w)) = mset (map fst kvs)"
      using arg_cong [OF perm, of "image_mset fst"] by (simp add: comp_def multiset.map_comp)
    from mset_eq_imp_distinct_iff [OF this]
    show "distinct (map fst (map (\<lambda>kv. (fst kv, ?f (fst kv))) ?es))"
      using dist by (simp add: comp_def)
    show "set (map (\<lambda>kv. (fst kv, ?f (fst kv))) ?es) = set kvs"
      using dist by (force simp: entries image_iff)
  qed
  ultimately show ?thesis by simp
qed

lemma members_to_json_keys: "set (map fst (members_to_json env fs ms)) \<subseteq> set (map fst fs)"
proof (induction fs arbitrary: ms)
  case Nil
  then show ?case by (cases ms) auto
next
  case (Cons f fs)
  obtain k opt t where f: "f = (k, opt, t)" by (cases f) auto
  show ?case
  proof (cases ms)
    case (Cons m ms')
    then show ?thesis using Cons.IH [of ms'] by (auto simp: f split: option.splits)
  qed (simp add: f)
qed

lemma yy_norm_JNull [simp]: "yy_norm js = JNull \<longleftrightarrow> js = JNull"
  by (cases js) auto

lemma obj_get_norm:
  "yyjson_obj_get (map (\<lambda>kv. (fst kv, yy_norm (snd kv))) kvs) k = map_option yy_norm (yyjson_obj_get kvs k)"
  by (induction kvs) (auto simp: yyjson_obj_get_def)

lemma yyjson_obj_get_absent: "k \<notin> set (map fst kvs) \<Longrightarrow> yyjson_obj_get kvs k = None"
  by (simp add: yyjson_obj_get_def map_of_eq_None_iff)

lemma from_json_to_json:
  "env_ok env \<Longrightarrow> has_type env t (v :: 'd cval) \<Longrightarrow> wf_cty t \<Longrightarrow> from_json env t (yy_norm (to_json env t v)) (fresh t env) = Inr v"
  "env_ok env \<Longrightarrow> members_have_type env fs (ms :: 'd cval option list) \<Longrightarrow> distinct (map fst fs) \<Longrightarrow>
     list_all (\<lambda>f. wf_cty (snd (snd f))) fs \<Longrightarrow>
     (\<And>k. k \<in> set (map fst fs) \<Longrightarrow>
        yyjson_obj_get kvs k = map_option yy_norm (yyjson_obj_get (members_to_json env fs ms) k)) \<Longrightarrow>
     members_from_json env fs kvs (fresh_members fs env) = Inr ms"
proof (induction env t v and env fs ms arbitrary: and kvs rule: has_type_members_have_type.induct)
  case (4 env sg b n)
  then have "b \<in> {8, 16, 32, 64}" by simp
  then show ?case
    using 4 narrow_word [of b sg n] narrow_range [of b sg n] by (cases sg) simp_all
next
  case (7 env c t vs)
  then show ?case
    using items_from_json_map [of vs env t "\<lambda>v. yy_norm (to_json env t v)" "[]"] by (simp add: comp_def)
next
  case (8 env c t kvs)
  then show ?case
    using pairs_from_json_map [OF 8(2), of kvs t yy_norm c] by (simp add: comp_def)
next
  case (9 env fs ms)
  then show ?case by (simp add: obj_get_norm)
next
  case (12 env k opt t fs m ms)
  note get = 12(7)
  have absent: "yyjson_obj_get (members_to_json env fs ms) k = None"
    using 12(5) members_to_json_keys [of env fs ms] by (intro yyjson_obj_get_absent) auto
  have rest: "members_from_json env fs kvs (fresh_members fs env) = Inr ms"
  proof (rule 12(2))
    fix k' assume "k' \<in> set (map fst fs)"
    then show "yyjson_obj_get kvs k' = map_option yy_norm (yyjson_obj_get (members_to_json env fs ms) k')"
      using 12(5) get [of k'] by (cases m) (auto simp: yyjson_obj_get_def)
  qed (use 12 in auto)
  show ?case
  proof (cases m)
    case None
    then show ?thesis using 12(4) get [of k] absent rest by simp
  next
    case (Some v)
    then have "from_json env t (yy_norm (to_json env t v)) (fresh t env) = Inr v" using 12 by simp
    then show ?thesis
      using 12(4) Some get [of k] rest by (auto simp: yyjson_obj_get_def)
  qed
qed auto

section \<open>What is read is well typed\<close>

lemma fresh_has_type:
  "wf_cty t \<Longrightarrow> env_ok env \<Longrightarrow> has_type env t (fresh t env)"
  "list_all (\<lambda>f. wf_cty (snd (snd f))) fs \<Longrightarrow> env_ok env \<Longrightarrow> members_have_type env fs (fresh_members fs env)"
  by (induction t env and fs env rule: fresh_fresh_members.induct) (auto simp: int_range_def env_ok_def)

lemma smap_emplace_all:
  "(\<forall>e \<in> set m. P (snd e)) \<Longrightarrow> P v \<Longrightarrow> \<forall>e \<in> set (smap_emplace lt k v m). P (snd e)"
  using set_smap_emplace [of lt k v m] by auto

lemma obj_get_in_set: "yyjson_obj_get kvs k = Some js \<Longrightarrow> (k, js) \<in> set kvs"
  by (simp add: yyjson_obj_get_def map_of_SomeD)

lemma to_json_not_null:
  "from_json env t js rhs = Inr v \<Longrightarrow> js \<noteq> JNull \<Longrightarrow> to_json env t v \<noteq> JNull"
  by (cases t) (auto split: yyjson_val.splits cval.splits sum.splits if_splits)

lemma yy_norm_fixed:
  "yy_norm (JArr js) = JArr js \<longleftrightarrow> (\<forall>j \<in> set js. yy_norm j = j)"
  "yy_norm (JObj kvs) = JObj kvs \<longleftrightarrow> (\<forall>kv \<in> set kvs. yy_norm (snd kv) = snd kv)"
proof -
  show "yy_norm (JArr js) = JArr js \<longleftrightarrow> (\<forall>j \<in> set js. yy_norm j = j)"
    by (induction js) auto
  show "yy_norm (JObj kvs) = JObj kvs \<longleftrightarrow> (\<forall>kv \<in> set kvs. yy_norm (snd kv) = snd kv)"
    by (induction kvs) (auto simp: prod_eq_iff)
qed

lemma from_json_seqE:
  assumes "from_json env (TSeq c t) js rhs = Inr v"
  obtains items vs vs' where "js = JArr items" "rhs = VList vs" "items_from_json env t items vs = Inr vs'" "v = VList vs'"
  using assms by (auto split: yyjson_val.splits cval.splits sum.splits)

lemma from_json_mapE:
  assumes "from_json env (TMap c t) js rhs = Inr v"
  obtains kvs m m' where "js = JObj kvs" "rhs = VMap m" "pairs_from_json env t kvs m = Inr m'" "v = VMap m'"
  using assms by (auto split: yyjson_val.splits cval.splits sum.splits)

lemma from_json_structE:
  assumes "from_json env (TStruct fs) js rhs = Inr v"
  obtains kvs ms ms' where "js = JObj kvs" "rhs = VStruct ms" "members_from_json env fs kvs ms = Inr ms'" "v = VStruct ms'"
  using assms by (auto split: yyjson_val.splits cval.splits sum.splits)

lemma from_json_has_type:
  "from_json env t js rhs = Inr v \<Longrightarrow> env_ok env \<Longrightarrow> yy_norm js = js \<Longrightarrow> wf_cty t \<Longrightarrow> has_type env t rhs \<Longrightarrow> has_type env t v"
  "items_from_json env t items vs = Inr vs' \<Longrightarrow> env_ok env \<Longrightarrow> (\<forall>js \<in> set items. yy_norm js = js) \<Longrightarrow> wf_cty t \<Longrightarrow>
     (\<forall>v \<in> set vs. has_type env t v) \<Longrightarrow> (\<forall>v \<in> set vs'. has_type env t v)"
  "pairs_from_json env t kvs m = Inr m' \<Longrightarrow> env_ok env \<Longrightarrow> (\<forall>kv \<in> set kvs. yy_norm (snd kv) = snd kv) \<Longrightarrow> wf_cty t \<Longrightarrow>
     smap_ordered (<) m \<and> (\<forall>kv \<in> set m. has_type env t (snd kv)) \<Longrightarrow>
     smap_ordered (<) m' \<and> (\<forall>kv \<in> set m'. has_type env t (snd kv))"
  "members_from_json env fs kvs ms = Inr ms' \<Longrightarrow> env_ok env \<Longrightarrow> (\<forall>kv \<in> set kvs. yy_norm (snd kv) = snd kv) \<Longrightarrow>
     list_all (\<lambda>f. wf_cty (snd (snd f))) fs \<Longrightarrow> members_have_type env fs ms \<Longrightarrow> members_have_type env fs ms'"
  "member_from_json env opt t jo mo = Inr mo' \<Longrightarrow> env_ok env \<Longrightarrow> (\<forall>js. jo = Some js \<longrightarrow> yy_norm js = js) \<Longrightarrow> wf_cty t \<Longrightarrow>
     member_has_type env opt t mo \<Longrightarrow> member_has_type env opt t mo'"
proof (induction env t js rhs and env t items vs and env t kvs m and env fs kvs ms and env opt t jo mo
    arbitrary: v and vs' and m' and ms' and mo'
    rule: from_json_induct)
  case (3 env js rhs)
  then show ?case by (auto simp: env_ok_def split: yyjson_val.splits)
next
  case (4 env sg b js rhs)
  then show ?case using int_range_narrow [of b sg] by (auto split: if_splits)
next
  case (7 env c t js rhs)
  from 7(2) obtain items vs vs' where e: "js = JArr items" "rhs = VList vs"
    "items_from_json env t items vs = Inr vs'" "v = VList vs'" by (rule from_json_seqE)
  have "\<forall>j \<in> set items. yy_norm j = j" using 7(4) unfolding e(1) yy_norm_fixed .
  then show ?case using 7(1) [OF refl e(1,2,3) 7(3)] 7(5,6) by (simp add: e(2,4))
next
  case (8 env c t js rhs)
  from 8(2) obtain kvs m m' where e: "js = JObj kvs" "rhs = VMap m"
    "pairs_from_json env t kvs m = Inr m'" "v = VMap m'" by (rule from_json_mapE)
  have "\<forall>kv \<in> set kvs. yy_norm (snd kv) = snd kv" using 8(4) unfolding e(1) yy_norm_fixed .
  then show ?case using 8(1) [OF refl e(1,2,3) 8(3)] 8(5,6) by (simp add: e(2,4))
next
  case (9 env fs js rhs)
  from 9(2) obtain kvs ms ms' where e: "js = JObj kvs" "rhs = VStruct ms"
    "members_from_json env fs kvs ms = Inr ms'" "v = VStruct ms'" by (rule from_json_structE)
  have "\<forall>kv \<in> set kvs. yy_norm (snd kv) = snd kv" using 9(4) unfolding e(1) yy_norm_fixed .
  then show ?case using 9(1) [OF refl e(1,2,3) 9(3)] 9(5,6) by (simp add: e(2,4))
next
  case (11 env t item items vs)
  then show ?case
    using fresh_has_type(1) [of t env] by (auto split: sum.splits)
next
  case (13 env t k js kvs m)
  from 13(3) obtain v where v: "from_json env t js (fresh t env) = Inr v"
    and m': "pairs_from_json env t kvs (smap_emplace (<) k v m) = Inr m'"
    by (auto split: sum.splits)
  have "has_type env t v" using 13(1) [OF v 13(4)] 13(4-6) fresh_has_type(1) [of t env] by simp
  then have "smap_ordered (<) (smap_emplace (<) k v m) \<and> (\<forall>kv \<in> set (smap_emplace (<) k v m). has_type env t (snd kv))"
    using 13(7) smap_emplace_all [of m "has_type env t" v "(<)" k] std_less.emplace_ordered [of m k v]
    by simp
  then show ?case using 13(2) [OF v m' 13(4)] 13(5,6) by simp
next
  case (14 env k opt t fs kvs m vs)
  from 14(3) obtain m' ms where ms: "ms' = m' # ms" "member_from_json env opt t (yyjson_obj_get kvs k) m = Inr m'"
    "members_from_json env fs kvs vs = Inr ms"
    by (auto split: sum.splits)
  have "\<forall>js. yyjson_obj_get kvs k = Some js \<longrightarrow> yy_norm js = js"
    using 14(5) obj_get_in_set [of kvs k] by force
  then show ?case using 14(1) [OF ms(2) 14(4)] 14(2) [OF ms(2,3) 14(4)] 14(5-) ms(1) by simp
next
  case (18 env t js m)
  then show ?case
    using fresh_has_type(1) [of t env] by (auto simp: to_json_not_null split: if_splits sum.splits)
next
  case (20 env t js m)
  then show ?case
    by (auto split: sum.splits option.splits)
qed (auto split: yyjson_val.splits)

section \<open>Properties\<close>

text \<open>
  C21. What \<open>dump\<close> writes, \<open>parse\<close> reads back as the same value, for every type the header converts
  and every well-typed value of it, provided the text written is one that yyjson reads as the
  tree written (up to the subtype of integers) and has no zero byte.
\<close>

theorem json_roundtrip:
  fixes v :: "'d cval"
  assumes "env_ok env" "wf_cty t" "has_type env t v"
    and "ywrite (to_json env t v) = Inr s" "NUL \<notin> set s"
    and "yread s = Some (yy_norm (to_json env t v))"
  shows "dump env ywrite t v = Inr s \<and> parse yread env t s = Inr v"
proof -
  have "cstr s = s" using assms(5) by (simp add: cstr_def takeWhile_eq_all_conv) metis
  then show ?thesis
    using assms from_json_to_json(1) [of env t v] by (simp add: dump_def parse_def)
qed

definition sample_cty :: cty where
  "sample_cty = TStruct [(''id'', False, TInt True 32), (''tags'', True, TSeq Std_vector TString), (''ip'', True, TString),
     (''f'', False, TFloat), (''m'', False, TMap Std_unordered_map (TInt False 8))]"

definition sample_env :: "nat json_env" where
  "sample_env = \<lparr>je_zero = 0, je_float = (\<lambda>r. min r 1000), je_order = rev\<rparr>"

lemma sample_env_ok: "env_ok sample_env"
  by (simp add: env_ok_def sample_env_def)

definition sample_value :: "nat cval" where
  "sample_value = VStruct [Some (VNum (- 7)), Some (VList [VString ''a'', VString ''b'']), None, Some (VReal 5),
     Some (VMap [(''k'', VNum 200), (''l'', VNum 0)])]"

lemma sample_typed: "wf_cty sample_cty" "has_type sample_env sample_cty sample_value"
  by (simp_all add: sample_env_def sample_cty_def sample_value_def int_range_def smap_ordered_def member_has_type_def)

theorem json_roundtrip_witness:
  "dump sample_env (\<lambda>j. Inr ''{}'') sample_cty sample_value = Inr ''{}'' \<and>
   parse (\<lambda>s. Some (yy_norm (to_json sample_env sample_cty sample_value))) sample_env sample_cty ''{}'' = Inr sample_value"
  by (rule json_roundtrip [OF sample_env_ok sample_typed]) simp_all

text \<open>
  C22. Whatever \<open>parse\<close> returns is well typed: integers are in the range of their type, maps have
  strictly ascending keys, required members are present.  It can be written and read again.
\<close>

theorem json_parse_typed:
  assumes "env_ok env" "wf_cty t" and "yread s = Some js" "yy_norm js = js"
    and "parse yread env t s = Inr v"
  shows "has_type env t v \<and> from_json env t (yy_norm (to_json env t v)) (fresh t env) = Inr v"
proof -
  have "has_type env t v"
    using assms fresh_has_type(1) [of t env] from_json_has_type(1) [of env t js "fresh t env" v] by (simp add: parse_def)
  then show ?thesis using from_json_to_json(1) [of env t v] assms(1,2) by simp
qed

theorem json_parse_typed_witness:
  "has_type sample_env (TMap Std_map (TInt False 8)) (VMap [(''a'', VNum 1), (''b'', VNum 44)]) \<and>
   from_json sample_env (TMap Std_map (TInt False 8))
     (yy_norm (to_json sample_env (TMap Std_map (TInt False 8)) (VMap [(''a'', VNum 1), (''b'', VNum 44)])))
     (fresh (TMap Std_map (TInt False 8)) sample_env) = Inr (VMap [(''a'', VNum 1), (''b'', VNum 44)])"
  by (rule json_parse_typed
      [OF sample_env_ok, where yread = "\<lambda>s. Some (JObj [(''b'', JUint 300), (''a'', JUint 1), (''b'', JUint 2)])" and s = "[]"
         and js = "JObj [(''b'', JUint 300), (''a'', JUint 1), (''b'', JUint 2)]"])
    (simp_all add: parse_def narrow_def take_bit_eq_mod)

text \<open>
  C23. Reading an integer never fails, and gives that integer exactly if it is in the range of the
  type: any other is silently replaced by another number.
\<close>

theorem json_integer_exact:
  assumes "wf_cty (TInt sg b)"
  shows "\<exists>k. from_json env (TInt sg b) (if 0 \<le> n then JUint (word_of_int n) else JSint (word_of_int n)) rhs = Inr (VNum k)
    \<and> int_range sg b k \<and> (k = n \<longleftrightarrow> int_range sg b n)"
proof -
  have b: "b \<in> {8, 16, 32, 64}" using assms by simp
  show ?thesis
    using narrow_word [OF b] narrow_range [OF b] int_range_narrow [OF b] by auto
qed

theorem json_integer_exact_witness:
  "\<exists>k. from_json sample_env (TInt False 8) (if 0 \<le> (300 :: int) then JUint (word_of_int 300) else JSint (word_of_int 300)) (VNum 0)
     = Inr (VNum k) \<and> int_range False 8 k \<and> (k = 300 \<longleftrightarrow> int_range False 8 300)"
  by (rule json_integer_exact) simp

text \<open>
  A required member that is absent from the object terminates the program, once the members
  before it are converted: the null pointer of \<open>yyjson_obj_get\<close> becomes a \<open>gsl::not_null\<close>.
\<close>

lemma json_missing_member:
  assumes "members_from_json env pre kvs (fresh_members pre env) = Inr ms"
    and "k \<notin> set (map fst kvs)"
  shows "from_json env (TStruct (pre @ (k, False, t) # post)) (JObj kvs) (fresh (TStruct (pre @ (k, False, t) # post)) env)
    = Inl Not_null_violated"
proof -
  have "members_from_json env (pre @ (k, False, t) # post) kvs (fresh_members (pre @ (k, False, t) # post) env)
      = Inl Not_null_violated"
    using assms(1)
  proof (induction pre arbitrary: ms)
    case Nil
    then show ?case using yyjson_obj_get_absent [OF assms(2)] by simp
  next
    case (Cons f pre)
    obtain k' opt t' where f: "f = (k', opt, t')" by (cases f) auto
    show ?case using Cons by (auto simp: f split: sum.splits)
  qed
  then show ?thesis by simp
qed

lemma json_missing_member_witness:
  "from_json sample_env (TStruct ([(''id'', False, TBool)] @ (''name'', False, TString) # []))
     (JObj [(''id'', JBool True)]) (fresh (TStruct ([(''id'', False, TBool)] @ (''name'', False, TString) # [])) sample_env)
     = Inl Not_null_violated"
  by (rule json_missing_member [where ms = "[Some (VBool True)]"]) (simp_all add: yyjson_obj_get_def)

text \<open>A real number is read as 0 by every integer type, and an integer is refused by \<open>double\<close>.\<close>

lemma json_real_as_integer: "b \<in> {8, 16, 32, 64} \<Longrightarrow> from_json env (TInt sg b) (JReal r) rhs = Inr (VNum 0)"
  by (auto simp: narrow_def)

lemma json_integer_as_real: "from_json env TReal (JUint w) rhs = Inl (Json_error ''unknown number type'')"
  by simp

end
