(* ===== verification/Struct_Path.thy ===== *)
theory Struct_Path
  imports Url Json_Roundtrip
begin

text \<open>
  Setting a member of an adapted structure by a path of names and indices, as
  examples/src/json2.cpp does with \<open>hana_struct_set_impl\<close>, on the types and values of theory Json.
  The index \<open>i\<close> into the vector of keys is the list of the keys from there on.  What an exception
  leaves behind is not modelled.
\<close>

section \<open>Setting by path\<close>

datatype set_fail = Keys_out_of_range | Stoi_failed | Resize_failed | Int_overflow

text \<open>
  \<open>conv t\<close> is the value set, as converted by an assignment to a \<open>t\<close>, if there is such an
  assignment.  The code asks \<open>is_assignable_v<Element, V>\<close> for an \<open>Element\<close> that is not a reference:
  this is false for every scalar type.
\<close>

fun scalar :: "cty \<Rightarrow> bool" where
  "scalar TBool = True"
| "scalar TReal = True"
| "scalar TFloat = True"
| "scalar (TInt sg b) = True"
| "scalar TVal = True"
| "scalar _ = False"

definition assign :: "(cty \<Rightarrow> 'd cval option) \<Rightarrow> cty \<Rightarrow> 'd cval \<Rightarrow> 'd cval" where
  "assign conv t element =
     (if scalar t then element else (case conv t of Some v \<Rightarrow> v | None \<Rightarrow> element))"

text \<open>The last key names a member; an optional one is of class type.\<close>

definition assign_member ::
  "(cty \<Rightarrow> 'd cval option) \<Rightarrow> bool \<Rightarrow> cty \<Rightarrow> 'd cval option \<Rightarrow> 'd cval option" where
  "assign_member conv opt t element =
     (if opt then (case conv t of Some v \<Rightarrow> Some v | None \<Rightarrow> element)
      else map_option (assign conv t) element)"

text \<open>The types with a specialisation of \<open>hana_struct_set_impl_t\<close>: structures and vectors.\<close>

fun settable :: "cty \<Rightarrow> bool" where
  "settable (TStruct fs) = True"
| "settable (TSeq Std_vector t) = True"
| "settable _ = False"

text \<open>\<open>t.size() < (size_t)(key + 1)\<close>, then \<open>t.resize(key + 1)\<close>, for \<open>key\<close> from -1 on.\<close>

definition grow :: "'d json_env \<Rightarrow> cty \<Rightarrow> int \<Rightarrow> 'd cval list \<Rightarrow> 'd cval list" where
  "grow env t key vs = vs @ replicate (nat (key + 1) - length vs) (fresh t env)"

function (sequential) set_in ::
  "'d json_env \<Rightarrow> (cty \<Rightarrow> 'd cval option) \<Rightarrow> cty \<Rightarrow> string list \<Rightarrow> 'd cval \<Rightarrow> set_fail + 'd cval"
  and set_members ::
  "'d json_env \<Rightarrow> (cty \<Rightarrow> 'd cval option) \<Rightarrow> (string \<times> bool \<times> cty) list \<Rightarrow> string list \<Rightarrow> 'd cval option list
     \<Rightarrow> set_fail + 'd cval option list"
where
  "set_in env conv (TStruct fs) keys (VStruct ms) =
     (case set_members env conv fs keys ms of Inl e \<Rightarrow> Inl e | Inr ms' \<Rightarrow> Inr (VStruct ms'))"
| "set_in env conv (TSeq Std_vector t) keys (VList vs) =
     (case keys of
        [] \<Rightarrow> Inl Keys_out_of_range
      | k # rest \<Rightarrow>
          (case stoi k of
             None \<Rightarrow> Inl Stoi_failed
           | Some key \<Rightarrow>
               if key = 2 ^ 31 - 1 then Inl Int_overflow
               else if key < - 1 then Inl Resize_failed
               else if key < 0 then Inl Keys_out_of_range
               else
                 (let vs' = grow env t key vs; element = vs' ! nat key
                  in if rest = [] then Inr (VList (vs'[nat key := assign conv t element]))
                     else if settable t
                     then (case set_in env conv t rest element of
                             Inl e \<Rightarrow> Inl e
                           | Inr v \<Rightarrow> Inr (VList (vs'[nat key := v])))
                     else Inr (VList vs'))))"
| "set_in env conv t keys v = Inr v"
| "set_members env conv ((n, opt, t) # fs) keys (m # ms) =
     (case keys of
        [] \<Rightarrow> Inl Keys_out_of_range
      | k # rest \<Rightarrow>
          (case (if k \<noteq> n then Inr m
                 else if rest = [] then Inr (assign_member conv opt t m)
                 else if \<not> opt \<and> settable t
                 then (case m of
                         None \<Rightarrow> Inr None
                       | Some v \<Rightarrow> (case set_in env conv t rest v of Inl e \<Rightarrow> Inl e | Inr v' \<Rightarrow> Inr (Some v')))
                 else Inr m) of
             Inl e \<Rightarrow> Inl e
           | Inr m' \<Rightarrow>
               (case set_members env conv fs keys ms of Inl e \<Rightarrow> Inl e | Inr ms' \<Rightarrow> Inr (m' # ms'))))"
| "set_members env conv fs keys ms = Inr ms"
  by pat_completeness auto
termination
  by (relation "measure (\<lambda>x. case x of
        Inl (env, conv, t, keys, v) \<Rightarrow> size t
      | Inr (env, conv, fs, keys, ms) \<Rightarrow> size_list (size_prod (\<lambda>k. 0) (size_prod (\<lambda>opt. 0) size)) fs)") auto

definition hana_struct_set_impl ::
  "'d json_env \<Rightarrow> (cty \<Rightarrow> 'd cval option) \<Rightarrow> cty \<Rightarrow> 'd cval \<Rightarrow> string list \<Rightarrow> set_fail + 'd cval" where
  "hana_struct_set_impl env conv t v keys = set_in env conv t keys v"

section \<open>Reading by path\<close>

text \<open>The reference: the member or element a path leads to.\<close>

fun member_at :: "(string \<times> bool \<times> cty) list \<Rightarrow> string \<Rightarrow> 'd cval option list \<Rightarrow> (bool \<times> cty \<times> 'd cval option) option" where
  "member_at ((n, opt, t) # fs) k (m # ms) = (if n = k then Some (opt, t, m) else member_at fs k ms)"
| "member_at _ _ _ = None"

fun get_in :: "cty \<Rightarrow> string list \<Rightarrow> 'd cval \<Rightarrow> 'd cval option" where
  "get_in t [] v = Some v"
| "get_in (TStruct fs) (k # ks) (VStruct ms) =
     (case member_at fs k ms of
        Some (opt, u, Some x) \<Rightarrow> if opt \<and> ks \<noteq> [] then None else get_in u ks x
      | _ \<Rightarrow> None)"
| "get_in (TSeq Std_vector u) (k # ks) (VList vs) =
     (case stoi k of
        None \<Rightarrow> None
      | Some key \<Rightarrow> if 0 \<le> key \<and> key < int (length vs) then get_in u ks (vs ! nat key) else None)"
| "get_in t (k # ks) v = None"

text \<open>
  The type at the end of a path, and whether it is that of an optional member: the names are members
  and the indices numbers that \<open>key + 1\<close> does not overflow.
\<close>

fun leaf_type :: "cty \<Rightarrow> string list \<Rightarrow> (bool \<times> cty) option" where
  "leaf_type (TStruct fs) (k # ks) =
     (case map_of fs k of
        None \<Rightarrow> None
      | Some (opt, u) \<Rightarrow> if ks = [] then Some (opt, u) else if opt then None else leaf_type u ks)"
| "leaf_type (TSeq Std_vector u) (k # ks) =
     (case stoi k of
        None \<Rightarrow> None
      | Some key \<Rightarrow>
          if 0 \<le> key \<and> key < 2 ^ 31 - 1 then (if ks = [] then Some (False, u) else leaf_type u ks) else None)"
| "leaf_type t ks = None"

text \<open>Two paths that part at some key; indices are compared as numbers.\<close>

fun diverge :: "cty \<Rightarrow> string list \<Rightarrow> string list \<Rightarrow> bool" where
  "diverge (TStruct fs) (k # ks) (j # js) =
     (if k \<noteq> j then True else (case map_of fs k of None \<Rightarrow> False | Some (opt, u) \<Rightarrow> diverge u ks js))"
| "diverge (TSeq Std_vector u) (k # ks) (j # js) = (if stoi k \<noteq> stoi j then True else diverge u ks js)"
| "diverge t ks js = False"

lemma leaf_type_settable: "leaf_type t ks \<noteq> None \<Longrightarrow> settable t"
  by (cases "(t, ks)" rule: leaf_type.cases) auto

section \<open>One member\<close>

definition set_member ::
  "'d json_env \<Rightarrow> (cty \<Rightarrow> 'd cval option) \<Rightarrow> bool \<Rightarrow> cty \<Rightarrow> string list \<Rightarrow> 'd cval option \<Rightarrow> set_fail + 'd cval option" where
  "set_member env conv opt t rest m =
     (if rest = [] then Inr (assign_member conv opt t m)
      else if \<not> opt \<and> settable t
      then (case m of
              None \<Rightarrow> Inr None
            | Some v \<Rightarrow> (case set_in env conv t rest v of Inl e \<Rightarrow> Inl e | Inr v' \<Rightarrow> Inr (Some v')))
      else Inr m)"

lemma set_members_Cons:
  "set_members env conv ((n, opt, t) # fs) (k # rest) (m # ms) = Inr ms' \<Longrightarrow>
   \<exists>m' ns. (if k \<noteq> n then m' = m else set_member env conv opt t rest m = Inr m')
     \<and> set_members env conv fs (k # rest) ms = Inr ns \<and> ms' = m' # ns"
  by (cases "k = n") (auto simp: set_member_def split: sum.splits if_splits option.splits)

lemma set_members_absent: "k \<notin> set (map fst fs) \<Longrightarrow> set_members env conv fs (k # rest) ms = Inr ms' \<Longrightarrow> ms' = ms"
proof (induction fs arbitrary: ms ms')
  case (Cons f fs)
  obtain n opt t where f: "f = (n, opt, t)" by (cases f) auto
  show ?case
  proof (cases ms)
    case (Cons m ns)
    then show ?thesis
      using Cons.prems Cons.IH set_members_Cons [of env conv n opt t fs k rest m ns ms'] by (auto simp: f)
  qed (use Cons.prems in \<open>simp add: f\<close>)
qed simp

lemma member_at_absent: "k \<notin> set (map fst fs) \<Longrightarrow> member_at fs k ms = None"
  by (induction fs k ms rule: member_at.induct) auto

lemma set_members_at:
  "distinct (map fst fs) \<Longrightarrow> set_members env conv fs (k # rest) ms = Inr ms' \<Longrightarrow>
   (\<forall>j. j \<noteq> k \<longrightarrow> member_at fs j ms' = member_at fs j ms) \<and>
   (\<forall>opt t m. member_at fs k ms = Some (opt, t, m) \<longrightarrow>
      (\<exists>m'. set_member env conv opt t rest m = Inr m' \<and> member_at fs k ms' = Some (opt, t, m')))"
proof (induction fs arbitrary: ms ms')
  case (Cons f fs)
  obtain n opt t where f: "f = (n, opt, t)" by (cases f) auto
  show ?case
  proof (cases ms)
    case ms: (Cons m ns)
    obtain m' ns' where s: "if k \<noteq> n then m' = m else set_member env conv opt t rest m = Inr m'"
      "set_members env conv fs (k # rest) ns = Inr ns'" "ms' = m' # ns'"
      using Cons.prems(2) set_members_Cons unfolding f ms by metis
    show ?thesis
    proof (cases "k = n")
      case True
      then have "ns' = ns" using Cons.prems(1) s(2) set_members_absent by (auto simp: f)
      then show ?thesis using True s by (auto simp: f ms)
    next
      case False
      then show ?thesis using Cons.IH [OF _ s(2)] Cons.prems(1) s(1,3) by (auto simp: f ms)
    qed
  qed (use Cons.prems in \<open>simp add: f\<close>)
qed simp

text \<open>A typed structure has a member for each name of its type.\<close>

lemma member_at_typed:
  "members_have_type env fs ms \<Longrightarrow> map_of fs k = Some (opt, t) \<Longrightarrow>
   \<exists>m. member_at fs k ms = Some (opt, t, m) \<and> member_has_type env opt t m"
proof (induction fs arbitrary: ms)
  case (Cons f fs)
  then show ?case by (cases f; cases ms) (auto split: if_splits)
qed simp

lemma member_at_map_of: "member_at fs k ms = Some (opt, t, m) \<Longrightarrow> map_of fs k = Some (opt, t)"
  by (induction fs k ms rule: member_at.induct) (auto split: if_splits)

section \<open>One element\<close>

lemma length_grow: "0 \<le> key \<Longrightarrow> length (grow env t key vs) = max (length vs) (nat key + 1)"
  by (simp add: grow_def nat_add_distrib)

lemma grow_nth: "i < length vs \<Longrightarrow> grow env t key vs ! i = vs ! i"
  by (simp add: grow_def nth_append)

lemma grow_typed:
  "env_ok env \<Longrightarrow> wf_cty t \<Longrightarrow> \<forall>v \<in> set vs. has_type env t v \<Longrightarrow> \<forall>v \<in> set (grow env t key vs). has_type env t v"
  using fresh_has_type(1) [of t env] by (auto simp: grow_def)

definition set_element ::
  "'d json_env \<Rightarrow> (cty \<Rightarrow> 'd cval option) \<Rightarrow> cty \<Rightarrow> string list \<Rightarrow> 'd cval \<Rightarrow> set_fail + 'd cval" where
  "set_element env conv t rest v =
     (if rest = [] then Inr (assign conv t v) else if settable t then set_in env conv t rest v else Inr v)"

lemma set_in_vector:
  assumes "set_in env conv (TSeq Std_vector t) (k # rest) (VList vs) = Inr v'"
  obtains key x where "stoi k = Some key" "0 \<le> key"
    "set_element env conv t rest (grow env t key vs ! nat key) = Inr x"
    "v' = VList ((grow env t key vs)[nat key := x])"
proof -
  obtain key where "stoi k = Some key" "0 \<le> key"
    using assms by (auto split: option.splits if_splits)
  then show thesis
    using assms that by (auto simp: set_element_def Let_def split: if_splits sum.splits)
qed

lemma set_in_struct:
  assumes "set_in env conv (TStruct fs) keys (VStruct ms) = Inr v'"
  obtains ms' where "set_members env conv fs keys ms = Inr ms'" "v' = VStruct ms'"
  using assms by (auto split: sum.splits)

lemma has_type_structE: "has_type env (TStruct fs) v \<Longrightarrow> (\<And>ms. v = VStruct ms \<Longrightarrow> members_have_type env fs ms \<Longrightarrow> P) \<Longrightarrow> P"
  by (cases v) auto

lemma has_type_seqE: "has_type env (TSeq c t) v \<Longrightarrow> (\<And>vs. v = VList vs \<Longrightarrow> \<forall>x \<in> set vs. has_type env t x \<Longrightarrow> P) \<Longrightarrow> P"
  by (cases v) auto

lemma wf_member: "wf_cty (TStruct fs) \<Longrightarrow> map_of fs k = Some (opt, t) \<Longrightarrow> wf_cty t"
  by (auto simp: list_all_iff dest!: map_of_SomeD)

text \<open>What a successful call has done at its first key.\<close>

lemma set_in_at_member:
  assumes "set_in env conv (TStruct fs) (k # ks) v = Inr v'" "has_type env (TStruct fs) v" "wf_cty (TStruct fs)"
  obtains ms ms' where "v = VStruct ms" "v' = VStruct ms'" "\<forall>j. j \<noteq> k \<longrightarrow> member_at fs j ms' = member_at fs j ms"
    "\<forall>opt u. map_of fs k = Some (opt, u) \<longrightarrow>
       (\<exists>m m'. member_at fs k ms = Some (opt, u, m) \<and> member_has_type env opt u m \<and> wf_cty u
         \<and> set_member env conv opt u ks m = Inr m' \<and> member_at fs k ms' = Some (opt, u, m'))"
proof -
  obtain ms where ms: "v = VStruct ms" "members_have_type env fs ms" using assms(2) by (rule has_type_structE)
  obtain ms' where ms': "set_members env conv fs (k # ks) ms = Inr ms'" "v' = VStruct ms'"
    using assms(1) unfolding ms(1) by (rule set_in_struct)
  have dist: "distinct (map fst fs)" using assms(3) by simp
  note at = set_members_at [OF dist ms'(1)]
  show thesis
  proof (rule that [OF ms(1) ms'(2)])
    show "\<forall>j. j \<noteq> k \<longrightarrow> member_at fs j ms' = member_at fs j ms" using at by blast
    show "\<forall>opt u. map_of fs k = Some (opt, u) \<longrightarrow>
       (\<exists>m m'. member_at fs k ms = Some (opt, u, m) \<and> member_has_type env opt u m \<and> wf_cty u
         \<and> set_member env conv opt u ks m = Inr m' \<and> member_at fs k ms' = Some (opt, u, m'))"
    proof (intro allI impI)
      fix opt u
      assume k: "map_of fs k = Some (opt, u)"
      obtain m where m: "member_at fs k ms = Some (opt, u, m)" "member_has_type env opt u m"
        using member_at_typed [OF ms(2) k] by blast
      moreover obtain m' where "set_member env conv opt u ks m = Inr m'" "member_at fs k ms' = Some (opt, u, m')"
        using at m(1) by blast
      ultimately show "\<exists>m m'. member_at fs k ms = Some (opt, u, m) \<and> member_has_type env opt u m \<and> wf_cty u
         \<and> set_member env conv opt u ks m = Inr m' \<and> member_at fs k ms' = Some (opt, u, m')"
        using wf_member [OF assms(3) k] by simp
    qed
  qed
qed

lemma set_in_at_element:
  assumes "set_in env conv (TSeq Std_vector t) (k # ks) v = Inr v'" "has_type env (TSeq Std_vector t) v"
    and "wf_cty t" "env_ok env"
  obtains vs key ws x where "v = VList vs" "stoi k = Some key" "0 \<le> key" "ws = grow env t key vs"
    "nat key < length ws" "has_type env t (ws ! nat key)" "set_element env conv t ks (ws ! nat key) = Inr x"
    "v' = VList (ws[nat key := x])"
proof -
  obtain vs where vs: "v = VList vs" "\<forall>y \<in> set vs. has_type env t y" using assms(2) by (rule has_type_seqE)
  obtain key x where key: "stoi k = Some key" "0 \<le> key" "set_element env conv t ks (grow env t key vs ! nat key) = Inr x"
    "v' = VList ((grow env t key vs)[nat key := x])"
    using assms(1) unfolding vs(1) by (rule set_in_vector)
  have len: "nat key < length (grow env t key vs)" using key(2) by (simp add: length_grow)
  then have "has_type env t (grow env t key vs ! nat key)"
    using grow_typed [OF assms(4,3) vs(2)] nth_mem by blast
  then show thesis using that [OF vs(1) key(1,2) refl len _ key(3,4)] by blast
qed

section \<open>Success and types\<close>

lemma set_members_succeed:
  "\<forall>opt t m. (k, opt, t) \<in> set fs \<longrightarrow> (\<exists>m'. set_member env conv opt t rest m = Inr m') \<Longrightarrow>
   \<exists>ms'. set_members env conv fs (k # rest) ms = Inr ms'"
proof (induction fs arbitrary: ms)
  case (Cons f fs)
  obtain n opt t where f: "f = (n, opt, t)" by (cases f) auto
  show ?case
  proof (cases ms)
    case ms: (Cons m ns)
    obtain ns' where ns': "set_members env conv fs (k # rest) ns = Inr ns'" using Cons.IH [of ns] Cons.prems by auto
    show ?thesis
    proof (cases "k = n")
      case True
      then obtain m' where "set_member env conv opt t rest m = Inr m'" using Cons.prems unfolding f by (meson list.set_intros(1))
      then show ?thesis using ns' True by (auto simp: f ms set_member_def split: option.splits sum.splits if_splits)
    qed (simp add: f ms ns')
  qed (simp add: f)
qed simp

lemma set_in_succeeds:
  "leaf_type t keys \<noteq> None \<Longrightarrow> wf_cty t \<Longrightarrow> \<exists>v'. set_in env conv t keys v = Inr v'"
proof (induction keys arbitrary: t v)
  case (Cons k ks)
  consider (struct) fs where "t = TStruct fs" | (vector) t' where "t = TSeq Std_vector t'"
    using Cons.prems(1) by (cases "(t, k # ks)" rule: leaf_type.cases) auto
  then show ?case
  proof cases
    case struct
    have "\<exists>m'. set_member env conv opt u ks m = Inr m'" if u: "(k, opt, u) \<in> set fs" for opt u m
    proof -
      have k: "map_of fs k = Some (opt, u)" using u Cons.prems(2) by (simp add: struct)
      show ?thesis
      proof (cases "ks = [] \<or> opt")
        case False
        then have "leaf_type u ks \<noteq> None" using Cons.prems(1) k by (simp add: struct)
        then have "\<exists>y'. set_in env conv u ks y = Inr y'" for y
          using Cons.IH wf_member [OF Cons.prems(2) [unfolded struct] k] by blast
        then show ?thesis by (cases m) (simp_all add: set_member_def split: sum.split, metis sum.distinct(1))
      qed (auto simp: set_member_def)
    qed
    then have "\<exists>ms'. set_members env conv fs (k # ks) ms = Inr ms'" for ms by (intro set_members_succeed) blast
    then have "\<exists>v'. set_in env conv t (k # ks) (VStruct ms) = Inr v'" for ms
      unfolding struct set_in.simps by (metis sum.simps(6))
    then show ?thesis by (cases v) (simp_all add: struct)
  next
    case vector
    obtain key where key: "stoi k = Some key" "0 \<le> key" "key < 2 ^ 31 - 1" "ks = [] \<or> leaf_type t' ks \<noteq> None"
      using Cons.prems(1) by (auto simp: vector split: option.splits if_splits)
    then have z: "\<exists>z. set_element env conv t' ks y = Inr z" for y
      using Cons.IH Cons.prems(2) by (simp add: vector set_element_def) blast
    show ?thesis
    proof (cases "\<exists>vs. v = VList vs")
      case True
      then obtain vs where vs: "v = VList vs" by blast
      show ?thesis using z [of "grow env t' key vs ! nat key"] key(1-3)
        by (auto simp: vector vs set_element_def Let_def split: if_splits)
    qed (cases v; simp add: vector)
  qed
qed simp

definition conv_ok :: "'d json_env \<Rightarrow> (cty \<Rightarrow> 'd cval option) \<Rightarrow> bool" where
  "conv_ok env conv \<longleftrightarrow> (\<forall>u x. conv u = Some x \<longrightarrow> has_type env u x \<and> to_json env u x \<noteq> JNull)"

lemma assign_typed: "conv_ok env conv \<Longrightarrow> has_type env t v \<Longrightarrow> has_type env t (assign conv t v)"
  by (simp add: assign_def conv_ok_def split: option.split)

lemma assign_member_typed:
  "conv_ok env conv \<Longrightarrow> member_has_type env opt t m \<Longrightarrow> member_has_type env opt t (assign_member conv opt t m)"
  by (cases m) (auto simp: assign_member_def assign_typed conv_ok_def split: option.split)

lemma set_members_typed:
  "\<forall>opt t m m'. (k, opt, t) \<in> set fs \<longrightarrow> member_has_type env opt t m \<longrightarrow> set_member env conv opt t rest m = Inr m' \<longrightarrow>
     member_has_type env opt t m' \<Longrightarrow>
   members_have_type env fs ms \<Longrightarrow> set_members env conv fs (k # rest) ms = Inr ms' \<Longrightarrow> members_have_type env fs ms'"
proof (induction fs arbitrary: ms ms')
  case Nil
  then show ?case by simp
next
  case (Cons f fs)
  obtain n opt t where f: "f = (n, opt, t)" by (cases f) auto
  obtain m ns where ms: "ms = m # ns" using Cons.prems(2) by (cases ms) (simp_all add: f members_have_type.simps)
  obtain m' ns' where s: "if k \<noteq> n then m' = m else set_member env conv opt t rest m = Inr m'"
    "set_members env conv fs (k # rest) ns = Inr ns'" "ms' = m' # ns'"
    using Cons.prems(3) set_members_Cons unfolding f ms by metis
  have m: "member_has_type env opt t m" "members_have_type env fs ns" using Cons.prems(2) by (simp_all add: f ms)
  have "members_have_type env fs ns'"
    by (rule Cons.IH [OF _ m(2) s(2)]) (use Cons.prems(1) in \<open>meson list.set_intros(2)\<close>)
  moreover have "member_has_type env opt t m'"
  proof (cases "k = n")
    case True
    then have "(k, opt, t) \<in> set (f # fs)" by (simp add: f)
    moreover have "set_member env conv opt t rest m = Inr m'" using s(1) True by simp
    ultimately show ?thesis using Cons.prems(1) m(1) by blast
  qed (use s(1) m(1) in simp)
  ultimately show ?case by (simp add: f s(3))
qed

lemma set_member_typed:
  "\<forall>y y'. set_in env conv u ks y = Inr y' \<longrightarrow> has_type env u y \<longrightarrow> \<not> opt \<longrightarrow> ks \<noteq> [] \<longrightarrow> has_type env u y' \<Longrightarrow>
   conv_ok env conv \<Longrightarrow> member_has_type env opt u m \<Longrightarrow> set_member env conv opt u ks m = Inr m' \<Longrightarrow>
   member_has_type env opt u m'"
  using assign_member_typed [of env conv opt u m]
  by (auto simp: set_member_def split: if_splits option.splits sum.splits)

lemma set_in_typed:
  "set_in env conv t keys v = Inr v' \<Longrightarrow> conv_ok env conv \<Longrightarrow> env_ok env \<Longrightarrow> wf_cty t \<Longrightarrow> has_type env t v \<Longrightarrow>
   leaf_type t keys \<noteq> None \<Longrightarrow> has_type env t v'"
proof (induction keys arbitrary: t v v')
  case (Cons k ks)
  consider (struct) fs where "t = TStruct fs" | (vector) t' where "t = TSeq Std_vector t'"
    using Cons.prems(6) by (cases "(t, k # ks)" rule: leaf_type.cases) auto
  then show ?case
  proof cases
    case struct
    obtain ms where ms: "v = VStruct ms" "members_have_type env fs ms"
      using Cons.prems(5) unfolding struct by (rule has_type_structE)
    obtain ms' where ms': "set_members env conv fs (k # ks) ms = Inr ms'" "v' = VStruct ms'"
      using Cons.prems(1) unfolding struct ms(1) by (rule set_in_struct)
    have step: "member_has_type env opt u m'"
      if u: "(k, opt, u) \<in> set fs" "member_has_type env opt u m" "set_member env conv opt u ks m = Inr m'" for opt u m m'
    proof -
      have k: "map_of fs k = Some (opt, u)" using u(1) Cons.prems(4) by (simp add: struct)
      have leaf: "leaf_type u ks \<noteq> None" if "\<not> opt" "ks \<noteq> []" using Cons.prems(6) k that by (simp add: struct)
      have "\<forall>y y'. set_in env conv u ks y = Inr y' \<longrightarrow> has_type env u y \<longrightarrow> \<not> opt \<longrightarrow> ks \<noteq> [] \<longrightarrow> has_type env u y'"
        using Cons.IH [OF _ Cons.prems(2,3) wf_member [OF Cons.prems(4) [unfolded struct] k]] leaf by blast
      then show ?thesis by (rule set_member_typed [OF _ Cons.prems(2) u(2,3)])
    qed
    have "members_have_type env fs ms'"
      by (rule set_members_typed [OF _ ms(2) ms'(1)]) (use step in blast)
    then show ?thesis by (simp add: struct ms'(2))
  next
    case vector
    have wf: "wf_cty t'" using Cons.prems(4) by (simp add: vector)
    obtain vs where vs: "v = VList vs" "\<forall>y \<in> set vs. has_type env t' y"
      using Cons.prems(5) unfolding vector by (rule has_type_seqE)
    obtain key z where z: "stoi k = Some key" "0 \<le> key" "set_element env conv t' ks (grow env t' key vs ! nat key) = Inr z"
      "v' = VList ((grow env t' key vs)[nat key := z])"
      using Cons.prems(1) unfolding vector vs(1) by (rule set_in_vector)
    let ?ws = "grow env t' key vs"
    have ws: "\<forall>y \<in> set ?ws. has_type env t' y" by (rule grow_typed [OF Cons.prems(3) wf vs(2)])
    have e: "has_type env t' (?ws ! nat key)" using ws z(2) by (simp add: length_grow)
    have "has_type env t' z"
    proof (cases "ks = []")
      case True
      then show ?thesis using z(3) assign_typed [OF Cons.prems(2) e] by (auto simp: set_element_def)
    next
      case False
      then have leaf: "leaf_type t' ks \<noteq> None" using Cons.prems(6) z(1) by (auto simp: vector split: if_splits)
      then have "set_in env conv t' ks (?ws ! nat key) = Inr z"
        using z(3) False leaf_type_settable [OF leaf] by (simp add: set_element_def)
      then show ?thesis by (rule Cons.IH [OF _ Cons.prems(2,3) wf e leaf])
    qed
    then show ?thesis using ws set_update_subset_insert [of ?ws "nat key" z] by (auto simp: vector z(4))
  qed
qed simp

section \<open>Put and get\<close>

text \<open>What the induction over the keys needs of the keys that follow.\<close>

definition reads_back :: "'d json_env \<Rightarrow> (cty \<Rightarrow> 'd cval option) \<Rightarrow> string list \<Rightarrow> bool" where
  "reads_back env conv keys \<longleftrightarrow>
     (\<forall>t v v' opt u x. set_in env conv t keys v = Inr v' \<longrightarrow> leaf_type t keys = Some (opt, u) \<longrightarrow> env_ok env \<longrightarrow> wf_cty t \<longrightarrow>
        has_type env t v \<longrightarrow> opt \<or> \<not> scalar u \<longrightarrow> conv u = Some x \<longrightarrow> get_in t keys v' = Some x)"

lemma reads_backD:
  "reads_back env conv keys \<Longrightarrow> set_in env conv t keys v = Inr v' \<Longrightarrow> leaf_type t keys = Some (opt, u) \<Longrightarrow> env_ok env \<Longrightarrow>
   wf_cty t \<Longrightarrow> has_type env t v \<Longrightarrow> opt \<or> \<not> scalar u \<Longrightarrow> conv u = Some x \<Longrightarrow> get_in t keys v' = Some x"
  unfolding reads_back_def by blast

lemma get_in_struct:
  assumes "reads_back env conv ks" "set_in env conv (TStruct fs) (k # ks) v = Inr v'" "leaf_type (TStruct fs) (k # ks) = Some (opt, u)"
    and "env_ok env" "wf_cty (TStruct fs)" "has_type env (TStruct fs) v" "opt \<or> \<not> scalar u" "conv u = Some x"
  shows "get_in (TStruct fs) (k # ks) v' = Some x"
proof -
  obtain ms ms' where v': "v = VStruct ms" "v' = VStruct ms'"
    "\<forall>j. j \<noteq> k \<longrightarrow> member_at fs j ms' = member_at fs j ms"
    and at: "\<forall>opt u. map_of fs k = Some (opt, u) \<longrightarrow>
     (\<exists>m m'. member_at fs k ms = Some (opt, u, m) \<and> member_has_type env opt u m \<and> wf_cty u
       \<and> set_member env conv opt u ks m = Inr m' \<and> member_at fs k ms' = Some (opt, u, m'))"
    using set_in_at_member [OF assms(2,6,5)] by blast
  obtain opt' u' where u': "map_of fs k = Some (opt', u')"
    using assms(3) by (auto split: option.splits)
  obtain m m' where m: "member_has_type env opt' u' m" "wf_cty u'" "set_member env conv opt' u' ks m = Inr m'"
    "member_at fs k ms' = Some (opt', u', m')" using at u' by blast
  show ?thesis
  proof (cases "ks = []")
    case True
    then have "m' = Some x"
      using m(1,3) assms(3,7,8) u'
      by (cases m) (auto simp: set_member_def assign_member_def assign_def split: option.splits)
    then show ?thesis using True m(4) by (simp add: v')
  next
    case False
    then have leaf: "\<not> opt'" "leaf_type u' ks = Some (opt, u)"
      using assms(3) u' by (auto split: if_splits)
    then obtain y where y: "m = Some y" "has_type env u' y" using m(1) by (cases m) auto
    have "settable u'" using leaf_type_settable [of u' ks] leaf(2) by simp
    then obtain y' where "m' = Some y'" "set_in env conv u' ks y = Inr y'"
      using m(3) False leaf(1) y(1) by (auto simp: set_member_def split: sum.splits)
    then show ?thesis
      using reads_backD [OF assms(1), of u' y y' opt u x] leaf y m(2,4) assms(4,7,8) by (simp add: v')
  qed
qed

lemma get_in_vector:
  assumes "reads_back env conv ks" "set_in env conv (TSeq Std_vector t') (k # ks) v = Inr v'"
    and "leaf_type (TSeq Std_vector t') (k # ks) = Some (opt, u)"
    and "env_ok env" "wf_cty (TSeq Std_vector t')" "has_type env (TSeq Std_vector t') v" "opt \<or> \<not> scalar u" "conv u = Some x"
  shows "get_in (TSeq Std_vector t') (k # ks) v' = Some x"
proof -
  have wf: "wf_cty t'" using assms(5) by simp
  obtain key ws y where e: "stoi k = Some key" "0 \<le> key" "nat key < length ws" "has_type env t' (ws ! nat key)"
    "set_element env conv t' ks (ws ! nat key) = Inr y" "v' = VList (ws[nat key := y])"
    by (rule set_in_at_element [OF assms(2,6) wf assms(4)])
  have "get_in t' ks y = Some x"
  proof (cases "ks = []")
    case True
    then show ?thesis using e(1,5) assms(3,7,8) by (auto simp: set_element_def assign_def split: if_splits)
  next
    case False
    then have leaf: "leaf_type t' ks = Some (opt, u)" using assms(3) e(1) by (simp split: if_splits)
    then have "settable t'" using leaf_type_settable [of t' ks] by simp
    then have "set_in env conv t' ks (ws ! nat key) = Inr y" using e(5) False by (simp add: set_element_def)
    then show ?thesis using reads_backD [OF assms(1)] leaf wf e(4) assms(4,7,8) by blast
  qed
  then show ?thesis using e(1,2,3,6) by (simp add: nat_less_iff)
qed

fun_cases leaf_typeE: "leaf_type t (k # ks) = Some l"

lemma set_in_get: "reads_back env conv keys"
proof (induction keys)
  case Nil
  show ?case by (simp add: reads_back_def)
next
  case (Cons k ks)
  show ?case
    unfolding reads_back_def
  proof (intro allI impI)
    fix t v v' opt u x
    assume leaf: "leaf_type t (k # ks) = Some (opt, u)" and rest: "set_in env conv t (k # ks) v = Inr v'" "env_ok env" "wf_cty t"
      "has_type env t v" "opt \<or> \<not> scalar u" "conv u = Some x"
    from leaf show "get_in t (k # ks) v' = Some x"
      by (rule leaf_typeE) (use get_in_struct [OF Cons] get_in_vector [OF Cons] leaf rest in blast)+
  qed
qed

section \<open>Frame\<close>

definition keeps_others :: "'d json_env \<Rightarrow> (cty \<Rightarrow> 'd cval option) \<Rightarrow> string list \<Rightarrow> bool" where
  "keeps_others env conv keys \<longleftrightarrow>
     (\<forall>t v v' path y. set_in env conv t keys v = Inr v' \<longrightarrow> diverge t keys path \<longrightarrow> env_ok env \<longrightarrow> wf_cty t \<longrightarrow> has_type env t v \<longrightarrow>
        get_in t path v = Some y \<longrightarrow> get_in t path v' = Some y)"

lemma keeps_othersD:
  "keeps_others env conv keys \<Longrightarrow> set_in env conv t keys v = Inr v' \<Longrightarrow> diverge t keys path \<Longrightarrow> env_ok env \<Longrightarrow> wf_cty t \<Longrightarrow>
   has_type env t v \<Longrightarrow> get_in t path v = Some y \<Longrightarrow> get_in t path v' = Some y"
  unfolding keeps_others_def by blast

lemma frame_struct:
  assumes "keeps_others env conv ks" "set_in env conv (TStruct fs) (k # ks) v = Inr v'" "diverge (TStruct fs) (k # ks) (j # js)"
    and "env_ok env" "wf_cty (TStruct fs)" "has_type env (TStruct fs) v" "get_in (TStruct fs) (j # js) v = Some y"
  shows "get_in (TStruct fs) (j # js) v' = Some y"
proof -
  obtain ms ms' where v: "v = VStruct ms" "v' = VStruct ms'"
    and other: "\<forall>j. j \<noteq> k \<longrightarrow> member_at fs j ms' = member_at fs j ms"
    and at: "\<forall>opt u. map_of fs k = Some (opt, u) \<longrightarrow>
     (\<exists>m m'. member_at fs k ms = Some (opt, u, m) \<and> member_has_type env opt u m \<and> wf_cty u
       \<and> set_member env conv opt u ks m = Inr m' \<and> member_at fs k ms' = Some (opt, u, m'))"
    using set_in_at_member [OF assms(2,6,5)] by blast
  show ?thesis
  proof (cases "k = j")
    case False
    then show ?thesis using assms(7) other by (simp add: v)
  next
    case True
    then obtain opt u where u: "map_of fs k = Some (opt, u)" "diverge u ks js"
      using assms(3) by (auto split: option.splits)
    obtain m m' where m: "member_at fs k ms = Some (opt, u, m)" "member_has_type env opt u m" "wf_cty u"
      "set_member env conv opt u ks m = Inr m'" "member_at fs k ms' = Some (opt, u, m')" using at u(1) by blast
    have ne: "ks \<noteq> []" "js \<noteq> []" using u(2) by (auto elim: diverge.elims)
    obtain x where x: "m = Some x" "\<not> opt" "get_in u js x = Some y"
      using assms(7) ne m(1) True by (cases m) (auto simp: v split: if_splits)
    show ?thesis
    proof (cases "settable u")
      case True
      then obtain x' where x': "m' = Some x'" "set_in env conv u ks x = Inr x'"
        using m(4) ne x by (auto simp: set_member_def split: sum.splits)
      then have "get_in u js x' = Some y"
        using keeps_othersD [OF assms(1) x'(2) u(2) assms(4) m(3) _ x(3)] m(2) x by simp
      then show ?thesis using m(5) x' x(2) \<open>k = j\<close> by (simp add: v)
    next
      case False
      then have "m' = m" using m(4) ne by (simp add: set_member_def)
      then show ?thesis using m(5) x \<open>k = j\<close> by (simp add: v)
    qed
  qed
qed

lemma frame_vector:
  assumes "keeps_others env conv ks" "set_in env conv (TSeq Std_vector t') (k # ks) v = Inr v'"
    and "diverge (TSeq Std_vector t') (k # ks) (j # js)" "env_ok env" "wf_cty (TSeq Std_vector t')"
    and "has_type env (TSeq Std_vector t') v" "get_in (TSeq Std_vector t') (j # js) v = Some y"
  shows "get_in (TSeq Std_vector t') (j # js) v' = Some y"
proof -
  have wf: "wf_cty t'" using assms(5) by simp
  obtain vs key ws z where e: "v = VList vs" "stoi k = Some key" "0 \<le> key" "ws = grow env t' key vs"
    "nat key < length ws" "has_type env t' (ws ! nat key)" "set_element env conv t' ks (ws ! nat key) = Inr z"
    "v' = VList (ws[nat key := z])"
    using set_in_at_element [OF assms(2,6) wf assms(4)] by blast
  obtain i where i: "stoi j = Some i" "0 \<le> i" "nat i < length vs" "get_in t' js (vs ! nat i) = Some y"
    using assms(7) by (auto simp: e(1) nat_less_iff split: option.splits if_splits)
  have ws: "nat i < length ws" "ws ! nat i = vs ! nat i" using i(3) e(3) by (simp_all add: e(4) length_grow grow_nth)
  have "get_in t' js (ws[nat key := z] ! nat i) = Some y"
  proof (cases "key = i")
    case False
    then have "nat key \<noteq> nat i" using e(3) i(2) by simp
    then show ?thesis using i(4) ws by simp
  next
    case True
    then have div: "diverge t' ks js" using assms(3) e(2) i(1) by simp
    then have ks: "ks \<noteq> []" by (auto elim: diverge.elims)
    show ?thesis
    proof (cases "settable t'")
      case True
      then have "set_in env conv t' ks (ws ! nat key) = Inr z" using e(7) ks by (simp add: set_element_def)
      then have "get_in t' js z = Some y"
        using keeps_othersD [OF assms(1) _ div assms(4) wf e(6)] i(4) ws \<open>key = i\<close> by simp
      then show ?thesis using e(5) \<open>key = i\<close> by simp
    next
      case False
      then show ?thesis using e(7) ks i(4) ws \<open>key = i\<close> by (simp add: set_element_def)
    qed
  qed
  then show ?thesis using i(1,2) ws(1) by (simp add: e(8) nat_less_iff)
qed

fun_cases divergeE: "diverge t (k # ks) path"

lemma set_in_frame: "keeps_others env conv keys"
proof (induction keys)
  case Nil
  show ?case by (simp add: keeps_others_def)
next
  case (Cons k ks)
  show ?case
    unfolding keeps_others_def
  proof (intro allI impI)
    fix t v v' path y
    assume div: "diverge t (k # ks) path" and rest: "set_in env conv t (k # ks) v = Inr v'" "env_ok env" "wf_cty t"
      "has_type env t v" "get_in t path v = Some y"
    from div show "get_in t path v' = Some y"
      by (rule divergeE) (use frame_struct [OF Cons] frame_vector [OF Cons] div rest in blast)+
  qed
qed

section \<open>The program\<close>

definition car_t :: cty where
  "car_t = TStruct [(''make'', False, TString), (''model'', False, TString), (''year'', False, TInt True 32),
     (''tire_pressure'', False, TSeq Std_vector TReal)]"

definition person_t :: cty where
  "person_t = TStruct [(''name'', False, TString), (''car'', False, car_t), (''cars'', False, TSeq Std_vector car_t)]"

text \<open>Assignments from a string literal: a pointer converts to \<open>bool\<close> inside an \<open>optional\<close>.\<close>

definition literal_conv :: "string \<Rightarrow> cty \<Rightarrow> 'd cval option" where
  "literal_conv s t = (case t of TString \<Rightarrow> Some (VString s) | TBool \<Rightarrow> Some (VBool True) | _ \<Rightarrow> None)"

text \<open>The two calls of \<open>main\<close>.\<close>

definition json2_main :: "'d json_env \<Rightarrow> 'd cval \<Rightarrow> set_fail + 'd cval" where
  "json2_main env p =
     (case hana_struct_set_impl env (literal_conv ''Das.Auto'') person_t p [''car'', ''make''] of
        Inl e \<Rightarrow> Inl e
      | Inr p \<Rightarrow> hana_struct_set_impl env (literal_conv ''Das.Auto'') person_t p [''cars'', ''1'', ''make''])"

lemma conv_ok_literal: "conv_ok env (literal_conv s)"
  by (simp add: conv_ok_def literal_conv_def split: cty.split)

lemma wf_person: "wf_cty person_t" "wf_cty car_t"
  by (simp_all add: person_t_def car_t_def)

lemma stoi_one: "stoi ''1'' = Some 1"
  by code_simp

lemma json2_main_run:
  "json2_main sample_env (fresh person_t sample_env) =
     Inr (VStruct [Some (VString []),
       Some (VStruct [Some (VString ''Das.Auto''), Some (VString []), Some (VNum 0), Some (VList [])]),
       Some (VList [fresh car_t sample_env,
         VStruct [Some (VString ''Das.Auto''), Some (VString []), Some (VNum 0), Some (VList [])]])])"
  by (simp add: json2_main_def hana_struct_set_impl_def person_t_def car_t_def literal_conv_def stoi_one assign_member_def
      assign_def grow_def numeral_2_eq_2)

text \<open>A required member of a scalar type is never set, whatever the value.\<close>

lemma struct_set_scalar:
  "has_type env car_t v \<Longrightarrow> hana_struct_set_impl env conv car_t v [''year''] = Inr v"
  by (cases v) (auto simp: hana_struct_set_impl_def car_t_def assign_member_def assign_def members_have_type.simps
      elim!: has_type.elims members_have_type.elims split: option.splits)

lemma struct_set_bad_index:
  "hana_struct_set_impl env conv (TSeq Std_vector t) (VList vs) (''-2'' # rest) = Inl Resize_failed"
  "hana_struct_set_impl env conv (TSeq Std_vector t) (VList vs) (''2147483647'' # rest) = Inl Int_overflow"
proof -
  have "stoi ''-2'' = Some (- 2)" "stoi ''2147483647'' = Some 2147483647" by code_simp+
  then show
    "hana_struct_set_impl env conv (TSeq Std_vector t) (VList vs) (''-2'' # rest) = Inl Resize_failed"
    "hana_struct_set_impl env conv (TSeq Std_vector t) (VList vs) (''2147483647'' # rest) = Inl Int_overflow"
    by (simp_all add: hana_struct_set_impl_def)
qed

section \<open>Properties\<close>



text \<open>
  C25. A call that returns has changed nothing but what its path leads to: what another path reads,
  which parts from it at some name or index, it reads afterwards as well, also when a vector has grown.
\<close>

theorem struct_set_frame:
  assumes "env_ok env" "wf_cty t" "has_type env t v"
    and "hana_struct_set_impl env conv t v keys = Inr v'" "diverge t keys path" "get_in t path v = Some y"
  shows "get_in t path v' = Some y"
  using keeps_othersD [OF set_in_frame _ assms(5,1-3,6)] assms(4) by (simp add: hana_struct_set_impl_def)

theorem struct_set_frame_witness:
  "get_in car_t [''model''] (VStruct [Some (VString ''Das.Auto''), Some (VString ''Camry''), Some (VNum 2018), Some (VList [])] :: nat cval)
     = Some (VString ''Camry'')"
  by (rule struct_set_frame [OF sample_env_ok wf_person(2), where conv = "literal_conv ''Das.Auto''" and keys = "[''make'']"
        and v = "VStruct [Some (VString ''Toyota''), Some (VString ''Camry''), Some (VNum 2018), Some (VList [])]"])
    (simp_all add: car_t_def hana_struct_set_impl_def literal_conv_def assign_member_def assign_def int_range_def)

end
