(* ===== verification/Http_Server_Demo.thy ===== *)
theory Http_Server_Demo
  imports Router_Dispatch Session_Runs
begin

text \<open>
  The program examples/src/coro/http\<open>_\<close>server.cpp: a server with a static route, a prefix and three
  routes, put together from the operations of the library.  The state of the program is what it has
  written to \<open>std::cout\<close>, line by line; \<open>nm\<close> is the text Beast prints for the name of a field.
\<close>

section \<open>Handlers\<close>

definition quoted :: "string \<Rightarrow> string" where
  "quoted s = [CHR 0x27] @ s @ [CHR 0x27]"

definition api_a :: "string \<Rightarrow> request \<Rightarrow> extra_param \<Rightarrow> exn + response" where
  "api_a ver req params =
     (let body = ''The resource '' @ quoted (req_target req) @ '' was found.''
      in Inr (content_length (length body)
           \<lparr>res_status = 200, res_version = req_version req, res_keep_alive = req_keep_alive req,
            res_fields = set_field ''Content-Type'' ''text/html'' (set_field ''Server'' ver []), res_body = body\<rparr>))"

text \<open>The coroutine sleeps first.\<close>

definition api_b :: "string \<Rightarrow> (string list, exn) handler" where
  "api_b ver req params w = (api_a ver req params, w)"

definition http_message_print :: "(string \<Rightarrow> string) \<Rightarrow> (string \<times> string) list \<Rightarrow> string list \<Rightarrow> string list" where
  "http_message_print nm msg out =
     out @ [''>>>>>>>>>>>>>>>>>>>>>>>> headers:''] @ map (\<lambda>f. nm (fst f) @ '': '' @ snd f) msg @ [[CHR 0x0D]]"

text \<open>No \<open>keep_alive\<close> is set here: the default is that of the version.\<close>

definition api_upload :: "(string \<Rightarrow> string) \<Rightarrow> string \<Rightarrow> (string list, exn) handler" where
  "api_upload nm ver req params w =
     (Inr (content_length 0
        \<lparr>res_status = 200, res_version = req_version req, res_keep_alive = (11 \<le> req_version req),
         res_fields = set_field ''Server'' ver [], res_body = []\<rparr>),
      http_message_print nm (req_fields req) w @ [''>>>>>>>>>>>>>>>>>>>>>> body'', req_body req])"

section \<open>The server\<close>

fun register_routes ::
  "(verb \<times> string \<times> ('w, exn) handler) list \<Rightarrow> 'w server \<Rightarrow> route_error + 'w server" where
  "register_routes [] sv = Inr sv"
| "register_routes ((m, path, h) # rs) sv =
     (case server_route m path h sv of Inl e \<Rightarrow> Inl e | Inr sv' \<Rightarrow> register_routes rs sv')"

definition http_server_main :: "(string \<Rightarrow> string) \<Rightarrow> string \<Rightarrow> route_error + string list server" where
  "http_server_main nm ver =
     register_routes
       [(Verb_get, ''/a'', \<lambda>req params w. (api_a ver req params, w)),
        (Verb_get, ''/b'', api_b ver),
        (Verb_post, ''/upload'', api_upload nm ver)]
       (set_route_prefix ''/api/v1''
         (serve_static ''/public'' ''.'' (server_init \<lparr>opt_timeout = 0, opt_body_limit = 0\<rparr>)))"

section \<open>Routes without parameters\<close>

lemma template_lits: "template_text (map Lit s) = s" "template_keys (map Lit s) = []" "template_fill (map Lit s) vs = s"
  by (induction s) simp_all

lemma apply_rule_literal:
  "http_router_path_apply_rule p (template_rule (map Lit s)) out = (cstr p = s, out)"
proof (cases "cstr p = s")
  case True
  have "rx_acc False (re (template_rule (map Lit s))) s []"
    by (auto simp: acc_template_rule template_lits)
  from regex_match_complete [OF this] obtain cm where
    cm: "regex_match False (re (template_rule (map Lit s))) s = Some cm" by blast
  from regex_match_sound [OF cm] have "cm = []" by (auto simp: acc_template_rule template_lits)
  then have "http_router_path_apply_rule p (template_rule (map Lit s)) out = (True, out)"
    using cm True by (simp add: http_router_path_apply_rule_def template_rule_def template_lits)
  then show ?thesis using True by simp
next
  case False
  obtain ok out' where res: "http_router_path_apply_rule p (template_rule (map Lit s)) out = (ok, out')" by fastforce
  then have "\<not> ok" using False apply_rule_match [of p "map Lit s" out out'] by (cases ok) (auto simp: template_lits)
  then show ?thesis using res False apply_rule_frame [of p _ out out'] by simp
qed

lemma literal_rule:
  assumes "wf_template (map Lit s)"
  shows "http_router_path_parse s = Inr (template_rule (map Lit s))"
  using path_parse_template [OF assms] by (simp add: template_lits)

definition demo_routes :: "(string \<Rightarrow> string) \<Rightarrow> string \<Rightarrow> (string list, exn) api_route_t list" where
  "demo_routes nm ver =
     [\<lparr>r_method = Verb_get, r_rule = template_rule (map Lit ''/a''), r_handler = (\<lambda>req params w. (api_a ver req params, w))\<rparr>,
      \<lparr>r_method = Verb_get, r_rule = template_rule (map Lit ''/b''), r_handler = api_b ver\<rparr>,
      \<lparr>r_method = Verb_post, r_rule = template_rule (map Lit ''/upload''), r_handler = api_upload nm ver\<rparr>]"

lemma http_server_main_routes:
  "http_server_main nm ver = Inr \<lparr>sv_router = \<lparr>rt_prefix = ''/api/v1'', rt_routes = demo_routes nm ver\<rparr>,
     sv_options = \<lparr>opt_timeout = 0, opt_body_limit = 0\<rparr>, sv_static = [(''/public'', ''.'')]\<rparr>"
proof -
  have "wf_template (map Lit ''/a'')" "wf_template (map Lit ''/b'')" "wf_template (map Lit ''/upload'')"
    by (simp_all add: rx_plain_def)
  from this [THEN literal_rule] show ?thesis
    by (simp add: http_server_main_def demo_routes_def server_route_def add_route_def set_route_prefix_def set_prefix_def
        serve_static_def server_init_def router_init_def del: list.map)
qed

section \<open>What the server answers\<close>

text \<open>The handler for a method and the path behind the prefix.\<close>

definition demo_handler :: "(string \<Rightarrow> string) \<Rightarrow> string \<Rightarrow> verb \<Rightarrow> string \<Rightarrow> (string list, exn) handler option" where
  "demo_handler nm ver m p =
     (if m = Verb_get \<and> p = ''/a'' then Some (\<lambda>req params w. (api_a ver req params, w))
      else if m = Verb_get \<and> p = ''/b'' then Some (api_b ver)
      else if m = Verb_post \<and> p = ''/upload'' then Some (api_upload nm ver)
      else None)"

lemma url_parse_requri_path_no_NUL:
  assumes "url_parse_requri raw u = (True, v)"
  shows "NUL \<notin> set (u_path v)"
proof -
  obtain qs fs where "url_canonify_uri raw = (0, u_requri v)" "u_requri v = u_path v @ qs @ fs"
    using url_parse_requri_success [OF assms] by blast
  from url_canonify_uri_no_NUL [OF this(1)] this(2) show ?thesis by simp
qed

lemma length_public: "Suc (Suc (Suc (Suc (Suc (Suc (Suc 0)))))) = 7"
  by simp

text \<open>The handlers do not look at the parameters.\<close>

lemma handlers_params:
  "NO_MATCH [] params \<Longrightarrow> api_a ver req params = api_a ver req []"
  "NO_MATCH [] params \<Longrightarrow> api_b ver req params w = api_b ver req [] w"
  "NO_MATCH [] params \<Longrightarrow> api_upload nm ver req params w = api_upload nm ver req [] w"
  by (simp_all add: api_a_def api_b_def api_upload_def)

lemma demo_route_loop:
  assumes "NUL \<notin> set (u_path u)"
  shows "route_loop ver ''/api/v1'' u (demo_routes nm ver) [] req w =
    (case demo_handler nm ver (req_method req) (drop 7 (u_path u)) of
       None \<Rightarrow> (Inr (not_found ver req), w)
     | Some h \<Rightarrow>
         if u_query u \<noteq> [] \<and> list_all field_ok (query_fields (u_query u))
         then (Inr (bad_request ver req ''Illegal request-target''), w)
         else h req [] w)"
proof -
  have "cstr (drop 7 (u_path u)) = drop 7 (u_path u)" using assms by (meson cstr_id in_set_dropD)
  then show ?thesis
    by (simp add: demo_routes_def demo_handler_def apply_rule_literal query_parse_fields length_public handlers_params
        del: list.map)
qed


end
