(* ===== verification/Produce_Consume.thy ===== *)
theory Produce_Consume
  imports Async_Queue
begin

text \<open>
  The program examples/src/coro/async\<open>_\<close>queue.cpp: producers that push onto one queue, a consumer
  that empties it, and a monitor that compares two counters and stops the program.  Each resumption
  of a coroutine is a function on the state, cut where another thread may come between: at a
  \<open>co_await\<close>, at the queue and at the lock of a counter.
\<close>

section \<open>State and coroutines\<close>

definition PRODUCER_COUNT :: nat where "PRODUCER_COUNT = 1000"

definition PRODUCER_ITEM_COUNT :: nat where "PRODUCER_ITEM_COUNT = 1000"

text \<open>
  A producer is before the push of round \<open>i\<close>, or between it and \<open>addone\<close>; the monitor sleeps, has
  read one counter or both, or has shut the pool down.
\<close>

datatype producer = Looping nat | Counting nat

datatype moniter = Asleep | Read_prods int | Read_both int int | Shut_down

record demo =
  kQueue :: "int aqueue"
  prod_cnter :: int
  cons_cnter :: int
  producers :: "nat \<Rightarrow> producer"
  batch :: "int list"
  moniter :: moniter

definition addone :: "int \<Rightarrow> int" where
  "addone cnt = cnt + 1"

definition demo_main :: demo where
  "demo_main = \<lparr>kQueue = aq_init, prod_cnter = 0, cons_cnter = 0, producers = (\<lambda>j. Looping 0), batch = [], moniter = Asleep\<rparr>"

text \<open>Producer \<open>j\<close> runs; \<open>r\<close> is the value of \<open>rand() % 10\<close>.\<close>

definition co_producer :: "nat \<Rightarrow> int \<Rightarrow> nat \<Rightarrow> demo \<Rightarrow> demo option" where
  "co_producer count r j s =
     (case producers s j of
        Looping i \<Rightarrow>
          if i < count
          then Some (s\<lparr>kQueue := aq_push r (kQueue s), producers := (producers s)(j := Counting i)\<rparr>)
          else None
      | Counting i \<Rightarrow>
          Some (s\<lparr>prod_cnter := addone (prod_cnter s), producers := (producers s)(j := Looping (Suc i))\<rparr>))"

text \<open>The loop over the values of a batch; the rest of the consumer is the coroutine \<open>pop\<close> of the queue.\<close>

definition co_consumer :: "demo \<Rightarrow> demo option" where
  "co_consumer s =
     (case batch s of
        [] \<Rightarrow> None
      | v # q \<Rightarrow> Some (s\<lparr>cons_cnter := addone (cons_cnter s), batch := q\<rparr>))"

definition co_moniter :: "nat \<Rightarrow> demo \<Rightarrow> demo option" where
  "co_moniter tot s =
     (case moniter s of
        Asleep \<Rightarrow> Some (s\<lparr>moniter := Read_prods (prod_cnter s)\<rparr>)
      | Read_prods prods \<Rightarrow> Some (s\<lparr>moniter := Read_both prods (cons_cnter s)\<rparr>)
      | Read_both prods conss \<Rightarrow>
          Some (s\<lparr>moniter := if prods = conss \<and> prods = int tot then Shut_down else Asleep\<rparr>)
      | Shut_down \<Rightarrow> None)"

section \<open>Steps\<close>

datatype demo_event = Producer nat "int aq_event option" | Consumer | Queue "int aq_event" | Moniter

text \<open>
  The steps of the queue are those of the consumer inside \<open>pop\<close>, which has no batch then, and those
  of the strand.  After the shutdown no step begins.
\<close>

definition popped :: "int aq_event \<Rightarrow> int list \<Rightarrow> int list" where
  "popped e b = (case e of Took i r \<Rightarrow> r | _ \<Rightarrow> b)"

inductive demo_step :: "nat \<Rightarrow> nat \<Rightarrow> demo \<Rightarrow> demo_event \<Rightarrow> demo \<Rightarrow> bool" for n m where
  push:
    "moniter s \<noteq> Shut_down \<Longrightarrow> j < n \<Longrightarrow> producers s j = Looping i \<Longrightarrow> 0 \<le> r \<Longrightarrow> r < 10 \<Longrightarrow>
     co_producer m r j s = Some s' \<Longrightarrow> demo_step n m s (Producer j (Some (Pushed r))) s'"
| count:
    "moniter s \<noteq> Shut_down \<Longrightarrow> j < n \<Longrightarrow> producers s j = Counting i \<Longrightarrow>
     co_producer m r j s = Some s' \<Longrightarrow> demo_step n m s (Producer j None) s'"
| consume: "moniter s \<noteq> Shut_down \<Longrightarrow> co_consumer s = Some s' \<Longrightarrow> demo_step n m s Consumer s'"
| queue:
    "moniter s \<noteq> Shut_down \<Longrightarrow> one_consumer (batch s = []) e \<Longrightarrow> aq_step (kQueue s) e q \<Longrightarrow>
     demo_step n m s (Queue e) (s\<lparr>kQueue := q, batch := popped e (batch s)\<rparr>)"
| monitor: "co_moniter (n * m) s = Some s' \<Longrightarrow> demo_step n m s Moniter s'"

inductive demo_run :: "nat \<Rightarrow> nat \<Rightarrow> demo \<Rightarrow> demo_event list \<Rightarrow> demo \<Rightarrow> bool" for n m where
  Nil: "demo_run n m s [] s"
| Cons: "demo_step n m s e s' \<Longrightarrow> demo_run n m s' es s'' \<Longrightarrow> demo_run n m s (e # es) s''"

inductive_cases demo_stepE: "demo_step n m s e s'"
inductive_simps demo_step_simps:
  "demo_step n m s (Producer j e) s'" "demo_step n m s Consumer s'" "demo_step n m s (Queue e) s'" "demo_step n m s Moniter s'"
inductive_simps demo_run_Nil [simp]: "demo_run n m s [] s'"
inductive_simps demo_run_Cons: "demo_run n m s (e # es) s'"

lemmas demo_defs = co_producer_def co_consumer_def co_moniter_def addone_def

text \<open>What happens to the queue.\<close>

fun queue_trace :: "demo_event list \<Rightarrow> int aq_event list" where
  "queue_trace [] = []"
| "queue_trace (Producer j (Some e) # es) = e # queue_trace es"
| "queue_trace (Queue e # es) = e # queue_trace es"
| "queue_trace (_ # es) = queue_trace es"

section \<open>Counting\<close>

text \<open>How many values a producer has pushed, and how many it has counted.\<close>

fun started :: "producer \<Rightarrow> nat" where
  "started (Looping i) = i"
| "started (Counting i) = Suc i"

fun counted :: "producer \<Rightarrow> nat" where
  "counted (Looping i) = i"
| "counted (Counting i) = i"

definition demo_inv :: "nat \<Rightarrow> nat \<Rightarrow> demo \<Rightarrow> bool" where
  "demo_inv n m s \<longleftrightarrow>
     (\<forall>j. started (producers s j) \<le> m) \<and>
     prod_cnter s = (\<Sum>j<n. int (counted (producers s j))) \<and>
     (case moniter s of
        Asleep \<Rightarrow> True
      | Read_prods p \<Rightarrow> p \<le> prod_cnter s
      | Read_both p c \<Rightarrow> p \<le> prod_cnter s \<and> c \<le> cons_cnter s
      | Shut_down \<Rightarrow> int (n * m) \<le> prod_cnter s \<and> int (n * m) \<le> cons_cnter s)"

lemma sum_upd:
  fixes f :: "'a \<Rightarrow> int"
  assumes "j < (n :: nat)"
  shows "(\<Sum>k<n. f (if k = j then x else g k)) = (\<Sum>k<n. f (g k)) - f (g j) + f x"
proof -
  have "(\<Sum>k \<in> {..<n} - {j}. f (if k = j then x else g k)) = (\<Sum>k \<in> {..<n} - {j}. f (g k))"
    by (rule sum.cong) auto
  then show ?thesis
    using sum.remove [OF finite_lessThan, of j n "\<lambda>k. f (if k = j then x else g k)"]
      sum.remove [OF finite_lessThan, of j n "\<lambda>k. f (g k)"] assms by simp
qed

lemma demo_inv_main: "demo_inv n m demo_main"
  by (simp add: demo_inv_def demo_main_def)

lemma demo_step_inv: "demo_step n m s e s' \<Longrightarrow> demo_inv n m s \<Longrightarrow> demo_inv n m s'"
proof (induction rule: demo_step.induct)
  case (push s j i r s')
  then show ?case
    by (auto simp: demo_inv_def demo_defs sum_upd [where f = "\<lambda>p. int (counted p)"] split: if_splits moniter.splits)
next
  case (count s j i r s')
  then show ?case
    by (auto simp: demo_inv_def demo_defs sum_upd [where f = "\<lambda>p. int (counted p)"] split: moniter.splits)
      (metis Suc_le_eq started.simps)+
next
  case (consume s s')
  then show ?case by (auto simp: demo_inv_def demo_defs split: list.splits moniter.splits)
next
  case (queue s e q)
  then show ?case by (auto simp: demo_inv_def split: moniter.splits)
next
  case (monitor s s')
  then show ?case by (auto simp: demo_inv_def demo_defs split: if_splits moniter.splits)
qed

lemma demo_run_inv: "demo_run n m s es s' \<Longrightarrow> demo_inv n m s \<Longrightarrow> demo_inv n m s'"
  by (induction rule: demo_run.induct) (auto dest: demo_step_inv)

text \<open>The queue runs as a queue, and the counters follow what was pushed and taken.\<close>

lemma demo_step_queue: "demo_step n m s e s' \<Longrightarrow> aq_run (kQueue s) (queue_trace [e]) (kQueue s')"
  by (erule demo_stepE)
    (auto simp: demo_defs intro: aq_run.intros aq_step.push split: if_splits list.splits moniter.splits)

lemma queue_trace_Cons: "queue_trace (e # es) = queue_trace [e] @ queue_trace es"
  by (cases "e # es" rule: queue_trace.cases) auto

lemma aq_run_append: "aq_run s es s' \<Longrightarrow> aq_run s' fs s'' \<Longrightarrow> aq_run s (es @ fs) s''"
  by (induction rule: aq_run.induct) (auto intro: aq_run.Cons)

lemma demo_run_queue: "demo_run n m s es s' \<Longrightarrow> aq_run (kQueue s) (queue_trace es) (kQueue s')"
proof (induction rule: demo_run.induct)
  case (Cons s e s' es s'')
  show ?case
    unfolding queue_trace_Cons [of e es] by (rule aq_run_append [OF demo_step_queue [OF Cons.hyps(1)] Cons.IH])
qed (simp add: aq_run.Nil)

lemma sum_counted_le: "(\<Sum>j<n. int (counted (producers s j))) \<le> (\<Sum>j<n. int (started (producers s j)))"
proof (rule sum_mono)
  fix j
  show "int (counted (producers s j)) \<le> int (started (producers s j))" by (cases "producers s j") simp_all
qed

definition consumed :: "demo \<Rightarrow> int" where
  "consumed s = cons_cnter s + int (length (batch s))"

definition produced :: "nat \<Rightarrow> demo \<Rightarrow> int" where
  "produced n s = (\<Sum>j<n. int (started (producers s j)))"

lemma prod_cnter_bounds: "demo_inv n m s \<Longrightarrow> prod_cnter s \<le> produced n s \<and> produced n s \<le> int (n * m)"
  using sum_counted_le [of s n] sum_bounded_above [of "{..<n}" "\<lambda>j. int (started (producers s j))" "int m"]
  by (auto simp: demo_inv_def produced_def)

text \<open>The counters do not leave the range of \<open>int\<close>.\<close>

lemma demo_counters_fit:
  assumes "demo_run PRODUCER_COUNT PRODUCER_ITEM_COUNT demo_main es s"
  shows "prod_cnter s < 2 ^ 31"
  using prod_cnter_bounds [OF demo_run_inv [OF assms demo_inv_main]]
  by (simp add: PRODUCER_COUNT_def PRODUCER_ITEM_COUNT_def)

lemma demo_step_counts:
  "demo_step n m s e s' \<Longrightarrow> produced n s' = produced n s + int (length (pushed (queue_trace [e])))
     \<and> consumed s' = consumed s + int (length (taken (queue_trace [e])))"
proof (induction rule: demo_step.induct)
  case (push s j i r s')
  then show ?case
    by (auto simp: produced_def consumed_def demo_defs sum_upd [where f = "\<lambda>p. int (started p)"] split: if_splits)
next
  case (count s j i r s')
  then show ?case
    by (auto simp: produced_def consumed_def demo_defs sum_upd [where f = "\<lambda>p. int (started p)"])
next
  case (consume s s')
  then show ?case by (auto simp: produced_def consumed_def demo_defs split: list.splits)
next
  case (queue s e q)
  then show ?case
    by (cases e) (auto simp: produced_def consumed_def one_consumer_def popped_def)
next
  case (monitor s s')
  then show ?case by (auto simp: produced_def consumed_def demo_defs split: moniter.splits)
qed

lemma demo_run_counts:
  "demo_run n m s es s' \<Longrightarrow> produced n s' = produced n s + int (length (pushed (queue_trace es)))
     \<and> consumed s' = consumed s + int (length (taken (queue_trace es)))"
proof (induction rule: demo_run.induct)
  case (Cons s e s' es s'')
  have "pushed (queue_trace (e # es)) = pushed (queue_trace [e]) @ pushed (queue_trace es)"
    "taken (queue_trace (e # es)) = taken (queue_trace [e]) @ taken (queue_trace es)"
    by (cases "e # es" rule: queue_trace.cases; simp add: pushed_Cons [symmetric] taken_Cons [symmetric]; fail)+
  then show ?case using Cons.IH demo_step_counts [OF Cons.hyps(1)] by simp
qed simp

text \<open>The program uses its queue as one.\<close>

interpretation demo: fifo_queue "demo_run n m" demo_main "\<lambda>s. aq_items (kQueue s)" "\<lambda>es. pushed (queue_trace es)"
  "\<lambda>es. taken (queue_trace es)" for n m
  by unfold_locales (rule aq.fifo, drule demo_run_queue, simp add: demo_main_def)

section \<open>Properties\<close>

text \<open>
  C32. The monitor stops the program only when all is done: both counters have reached the number of
  values, everything pushed was taken, in order, and no value is left in the queue or in the hands
  of the consumer.  The two counters are read at different times, in any interleaving.
\<close>

theorem moniter_stops_complete:
  assumes "demo_run n m demo_main es s" "moniter s = Shut_down"
  shows "prod_cnter s = int (n * m) \<and> cons_cnter s = int (n * m) \<and> taken (queue_trace es) = pushed (queue_trace es)
    \<and> length (pushed (queue_trace es)) = n * m \<and> aq_items (kQueue s) = [] \<and> batch s = []"
proof -
  have inv: "demo_inv n m s" by (rule demo_run_inv [OF assms(1) demo_inv_main])
  have counts: "produced n s = int (length (pushed (queue_trace es)))" "consumed s = int (length (taken (queue_trace es)))"
    using demo_run_counts [OF assms(1)] by (simp_all add: produced_def consumed_def demo_main_def)
  have prod: "prod_cnter s \<le> produced n s" "produced n s \<le> int (n * m)"
    using prod_cnter_bounds [OF inv] by blast+
  have mon: "int (n * m) \<le> prod_cnter s" "int (n * m) \<le> cons_cnter s"
    using inv assms(2) by (simp_all add: demo_inv_def)
  have len: "length (pushed (queue_trace es)) = n * m" using prod mon(1) counts(1) by linarith
  have "length (batch s) = 0" "cons_cnter s = int (n * m)" "length (pushed (queue_trace es)) \<le> length (taken (queue_trace es))"
    using prod mon counts demo.backlog [OF assms(1)] unfolding consumed_def by linarith+
  then show ?thesis using len prod mon(1) demo.all_delivered [OF assms(1)] by simp
qed

definition sample_end :: demo where
  "sample_end = \<lparr>kQueue = \<lparr>aq_items = [], aq_jobs = [], aq_pops = (\<lambda>i. Pop_idle), aq_wakes = 1\<rparr>, prod_cnter = 1, cons_cnter = 1,
     producers = (\<lambda>j. Looping 0)(0 := Looping 1), batch = [], moniter = Shut_down\<rparr>"

definition sample_schedule :: "demo_event list" where
  "sample_schedule = [Moniter, Producer 0 (Some (Pushed 7)), Queue (Took 0 [7]), Consumer, Moniter, Moniter, Producer 0 None,
     Moniter, Moniter, Moniter]"

lemmas demo_eval = demo_run_Cons demo_step_simps demo_defs demo_main_def one_consumer_def popped_def aq_eval ex_bool_eq

theorem moniter_stops_complete_witness:
  "prod_cnter sample_end = int (1 * 1) \<and> cons_cnter sample_end = int (1 * 1)
    \<and> taken (queue_trace sample_schedule) = pushed (queue_trace sample_schedule)
    \<and> length (pushed (queue_trace sample_schedule)) = 1 * 1 \<and> aq_items (kQueue sample_end) = [] \<and> batch sample_end = []"
  by (rule moniter_stops_complete) (simp_all add: demo_eval sample_end_def sample_schedule_def)

text \<open>
  The lost wake-up of the queue makes the monitor wait for ever: if another thread can push between
  the consumer's look at the queue and its wait, one value in all is enough.  (With the single thread
  \<open>main\<close> asks for, the strand runs at once what is dispatched to it, and nothing comes between.)
\<close>

definition hung :: "int \<Rightarrow> demo \<Rightarrow> bool" where
  "hung v s \<longleftrightarrow>
     kQueue s = \<lparr>aq_items = [v], aq_jobs = [], aq_pops = (\<lambda>i. Pop_idle)(0 := Pop_waiting), aq_wakes = 0\<rparr> \<and>
     producers s 0 = Looping 1 \<and> batch s = [] \<and> cons_cnter s = 0 \<and>
     (case moniter s of Read_both p c \<Rightarrow> c = 0 | Shut_down \<Rightarrow> False | _ \<Rightarrow> True)"

lemma hung_step: "demo_step 1 1 s e s' \<Longrightarrow> hung v s \<Longrightarrow> hung v s'"
proof (induction rule: demo_step.induct)
  case (push s j i r s')
  then show ?case by (auto simp: hung_def demo_defs)
next
  case (count s j i r s')
  then show ?case by (auto simp: hung_def)
next
  case (consume s s')
  then show ?case by (auto simp: hung_def demo_defs)
next
  case (queue s e q)
  then show ?case by (cases e) (auto simp: hung_def one_consumer_def aq_step_simps)
next
  case (monitor s s')
  then show ?case by (auto simp: hung_def demo_defs split: moniter.splits if_splits)
qed

lemma hung_run: "demo_run 1 1 s es s' \<Longrightarrow> hung v s \<Longrightarrow> hung v s'"
proof (induction rule: demo_run.induct)
  case (Cons s e s' es s'')
  then show ?case using hung_step [OF Cons.hyps(1)] by blast
qed

lemma demo_can_hang:
  assumes "0 \<le> (v :: int)" "v < 10"
  shows "\<exists>es s. demo_run 1 1 demo_main es s \<and> (\<forall>fs s'. demo_run 1 1 s fs s' \<longrightarrow> moniter s' \<noteq> Shut_down)"
proof -
  let ?es = "[Queue (Tried 0), Producer 0 (Some (Pushed v)), Producer 0 None, Queue Posted, Queue Ran, Queue (Dispatched 0), Queue Ran]"
  let ?s = "\<lparr>kQueue = \<lparr>aq_items = [v], aq_jobs = [], aq_pops = (\<lambda>i. Pop_idle)(0 := Pop_waiting), aq_wakes = 0\<rparr>, prod_cnter = 1,
    cons_cnter = 0, producers = (\<lambda>j. Looping 0)(0 := Looping 1), batch = [], moniter = Asleep\<rparr>"
  have "demo_run 1 1 demo_main ?es ?s" using assms by (simp add: demo_eval)
  moreover have "hung v ?s" by (simp add: hung_def)
  moreover have "moniter s' \<noteq> Shut_down" if "hung v s'" for s' using that by (auto simp: hung_def)
  ultimately show ?thesis using hung_run by blast
qed

end
