(* ===== verification/Repo_Tests.thy ===== *)
theory Repo_Tests
  imports Url Json_Roundtrip Service
begin

text \<open>
  The cases of test/test_url.cpp, test/test_json.cpp and test/test_function.cpp, evaluated on the
  model: what the repository's own tests expect of the code holds of the definitions.
\<close>

section \<open>test/url.cpp\<close>

lemma test_unix_domain_socket:
  "case url_parse ''unix:///tmp/test.sock'' url_init of
     Inr (ok, u) \<Rightarrow>
       ok \<and> u_scheme u = ''unix'' \<and> u_path u = ''/tmp/test.sock''
   | Inl e \<Rightarrow> False"
  by code_simp

lemma test_host:
  "case url_parse ''http://www.google.com'' url_init of
     Inr (ok, u) \<Rightarrow>
       ok \<and> u_scheme u = ''http'' \<and> u_host u = ''www.google.com''
         \<and> u_hostname u = ''www.google.com'' \<and> u_port u = Some 80 \<and> u_path u = []
         \<and> u_requri u = [] \<and> u_userinfo u = [] \<and> u_fragment u = [] \<and> u_query u = []
   | Inl e \<Rightarrow> False"
  by code_simp

lemma test_host_port_path:
  "case url_parse ''http://www.google.com:1234/somewhere'' url_init of
     Inr (ok, u) \<Rightarrow>
       ok \<and> u_scheme u = ''http'' \<and> u_host u = ''www.google.com:1234''
         \<and> u_hostname u = ''www.google.com'' \<and> u_port u = Some 1234
         \<and> u_requri u = ''/somewhere'' \<and> u_path u = ''/somewhere'' \<and> u_userinfo u = []
         \<and> u_fragment u = [] \<and> u_query u = []
   | Inl e \<Rightarrow> False"
  by code_simp

lemma test_user_info:
  "case url_parse ''http://garrett@www.google.com:1234/somewhere'' url_init of
     Inr (ok, u) \<Rightarrow>
       ok \<and> u_scheme u = ''http'' \<and> u_host u = ''www.google.com:1234''
         \<and> u_hostname u = ''www.google.com'' \<and> u_port u = Some 1234
         \<and> u_requri u = ''/somewhere'' \<and> u_path u = ''/somewhere''
         \<and> u_userinfo u = ''garrett'' \<and> u_fragment u = [] \<and> u_query u = []
   | Inl e \<Rightarrow> False"
  by code_simp

lemma test_path_query_param:
  "case url_parse ''http://www.google.com/somewhere?result=yes'' url_init of
     Inr (ok, u) \<Rightarrow>
       ok \<and> u_scheme u = ''http'' \<and> u_host u = ''www.google.com''
         \<and> u_hostname u = ''www.google.com'' \<and> u_port u = Some 80
         \<and> u_requri u = ''/somewhere?result=yes'' \<and> u_path u = ''/somewhere''
         \<and> u_userinfo u = [] \<and> u_fragment u = [] \<and> u_query u = ''result=yes''
   | Inl e \<Rightarrow> False"
  by code_simp

lemma test_path_query_param_anchor:
  "case url_parse ''http://www.google.com/somewhere?result=yes#chapter1'' url_init of
     Inr (ok, u) \<Rightarrow>
       ok \<and> u_scheme u = ''http'' \<and> u_host u = ''www.google.com''
         \<and> u_hostname u = ''www.google.com'' \<and> u_port u = Some 80
         \<and> u_requri u = ''/somewhere?result=yes#chapter1'' \<and> u_path u = ''/somewhere''
         \<and> u_userinfo u = [] \<and> u_fragment u = ''chapter1'' \<and> u_query u = ''result=yes''
   | Inl e \<Rightarrow> False"
  by code_simp

lemma test_path_anchor:
  "case url_parse ''http://www.google.com/somewhere#chapter1'' url_init of
     Inr (ok, u) \<Rightarrow>
       ok \<and> u_scheme u = ''http'' \<and> u_host u = ''www.google.com''
         \<and> u_hostname u = ''www.google.com'' \<and> u_port u = Some 80
         \<and> u_requri u = ''/somewhere#chapter1'' \<and> u_path u = ''/somewhere''
         \<and> u_userinfo u = [] \<and> u_fragment u = ''chapter1'' \<and> u_query u = []
   | Inl e \<Rightarrow> False"
  by code_simp

lemma test_anchor:
  "case url_parse ''http://www.google.com#chapter1'' url_init of
     Inr (ok, u) \<Rightarrow>
       ok \<and> u_scheme u = ''http'' \<and> u_host u = ''www.google.com''
         \<and> u_hostname u = ''www.google.com'' \<and> u_port u = Some 80
         \<and> u_requri u = ''#chapter1'' \<and> u_path u = [] \<and> u_userinfo u = []
         \<and> u_fragment u = ''chapter1'' \<and> u_query u = []
   | Inl e \<Rightarrow> False"
  by code_simp

lemma test_query_param:
  "case url_parse ''http://www.google.com?color=red'' url_init of
     Inr (ok, u) \<Rightarrow>
       ok \<and> u_scheme u = ''http'' \<and> u_host u = ''www.google.com''
         \<and> u_hostname u = ''www.google.com'' \<and> u_port u = Some 80
         \<and> u_requri u = ''?color=red'' \<and> u_path u = [] \<and> u_userinfo u = []
         \<and> u_fragment u = [] \<and> u_query u = ''color=red''
   | Inl e \<Rightarrow> False"
  by code_simp

lemma test_tcp_port:
  "case url_parse ''tcp://:9876/'' url_init of
     Inr (ok, u) \<Rightarrow>
       ok \<and> u_scheme u = ''tcp'' \<and> u_host u = '':9876'' \<and> u_hostname u = []
         \<and> u_port u = Some 9876 \<and> u_requri u = ''/'' \<and> u_path u = ''/''
         \<and> u_userinfo u = [] \<and> u_fragment u = [] \<and> u_query u = []
   | Inl e \<Rightarrow> False"
  by code_simp

lemma test_ssh:
  "case url_parse ''ssh://user@127.0.0.1:9876'' url_init of
     Inr (ok, u) \<Rightarrow>
       ok \<and> u_scheme u = ''ssh'' \<and> u_host u = ''127.0.0.1:9876''
         \<and> u_hostname u = ''127.0.0.1'' \<and> u_port u = Some 9876 \<and> u_requri u = []
         \<and> u_path u = [] \<and> u_userinfo u = ''user'' \<and> u_fragment u = []
         \<and> u_query u = []
   | Inl e \<Rightarrow> False"
  by code_simp

lemma test_path_resolve:
  "case url_parse ''http://www.x.com//abc/def/./x/..///./../y'' url_init of
     Inr (ok, u) \<Rightarrow>
       ok \<and> u_scheme u = ''http'' \<and> u_host u = ''www.x.com''
         \<and> u_hostname u = ''www.x.com'' \<and> u_port u = Some 80 \<and> u_path u = ''/abc/y''
         \<and> u_userinfo u = [] \<and> u_fragment u = [] \<and> u_query u = []
   | Inl e \<Rightarrow> False"
  by code_simp

lemma test_requri_only:
  "case url_parse_requri ''/somewhere?a=b&c=d#e'' url_init of
     (ok, u) \<Rightarrow>
       ok \<and> u_requri u = ''/somewhere?a=b&c=d#e'' \<and> u_path u = ''/somewhere''
         \<and> u_fragment u = ''e'' \<and> u_query u = ''a=b&c=d''"
  by code_simp

text \<open>The view of the test is its first two bytes.\<close>

lemma test_requri_only2:
  "case url_parse_requri (take 2 ''/abc'') url_init of
     (ok, u) \<Rightarrow> ok \<and> u_requri u = ''/a'' \<and> u_path u = ''/a'' \<and> u_fragment u = [] \<and> u_query u = []"
  by code_simp

definition rejected :: "ub + bool \<times> url_t \<Rightarrow> bool" where
  "rejected r = (case r of Inr (ok, u) \<Rightarrow> \<not> ok | Inl e \<Rightarrow> False)"

lemma test_bad_scheme:
  "rejected (url_parse ''www.google.com'' url_init)" "rejected (url_parse ''http:www.google.com'' url_init)"
  by code_simp+

lemma test_bad_port: "rejected (url_parse ''http://www.google.com:axda'' url_init)"
  by code_simp

section \<open>test/json.cpp\<close>

text \<open>Reals are kept as their text.\<close>

definition car_cty :: cty where
  "car_cty = TStruct [(''make'', False, TString), (''model'', False, TString), (''year'', False, TInt True 32),
     (''tire_pressure'', False, TSeq Std_vector TReal), (''owner'', True, TString)]"

definition car_json :: "string yyjson_val" where
  "car_json = JObj [(''make'', JString ''Toyota''), (''model'', JString ''Camry''), (''year'', JUint 2018),
     (''tire_pressure'', JArr [JReal ''40.1'', JReal ''39.9'', JReal ''37.7'', JReal ''40.4''])]"

definition text_env :: "string json_env" where
  "text_env = \<lparr>je_zero = [], je_float = (\<lambda>r. r), je_order = (\<lambda>kvs. kvs)\<rparr>"

lemma test_json_encode:
  "parse (\<lambda>s. Some car_json) text_env car_cty s =
     Inr (VStruct [Some (VString ''Toyota''), Some (VString ''Camry''), Some (VNum 2018),
       Some (VList [VReal ''40.1'', VReal ''39.9'', VReal ''37.7'', VReal ''40.4'']), None])"
  by (simp add: parse_def car_cty_def car_json_def yyjson_obj_get_def narrow_def signed_take_bit_int_eq_self)

lemma test_json_decode:
  "to_json text_env car_cty (VStruct [Some (VString ''Toyota''), Some (VString ''Camry''), Some (VNum 2019),
     Some (VList [VReal ''1.0'', VReal ''2.1'']), Some (VString ''cc'')]) =
   JObj [(''make'', JString ''Toyota''), (''model'', JString ''Camry''), (''year'', JSint 2019),
     (''tire_pressure'', JArr [JReal ''1.0'', JReal ''2.1'']), (''owner'', JString ''cc'')]"
  by (simp add: car_cty_def)

lemma test_json_yyjson_val:
  "parse_with (\<lambda>s. Some car_json) text_env TVal s (\<lambda>root. Inr root) = Inr (VVal car_json)"
  by (simp add: parse_with_def)

lemma test_json_map_of_vals:
  "parse_with (\<lambda>s. Some car_json) text_env (TMap Std_map TVal) s
     (\<lambda>m. case m of VMap kvs \<Rightarrow> Inr (map fst kvs) | _ \<Rightarrow> Inr []) =
   Inr [''make'', ''model'', ''tire_pressure'', ''year'']"
  by (simp add: parse_with_def car_json_def)

section \<open>test/function.cpp\<close>

lemma test_function_invoke:
  "invoke 0 (bind [int_type, int_type] (Some int_type) add_ints) [(int_type, 4), (int_type, 3)] () = Returned (Some 7) ()"
  by code_simp

end
