(* ===== verification/Examples.thy ===== *)
theory Examples
  imports Repo_Tests "HOL-Library.Signed_Division"
begin

text \<open>
  The programs examples/src/json.cpp, function.cpp and service.cpp on the model: what they dump, read
  and compute.  Real numbers are their texts; of the printing only what services print is kept.
\<close>

section \<open>examples/src/json.cpp\<close>

definition test_obj_deserialize :: "(string \<Rightarrow> string yyjson_val option) \<Rightarrow> string \<Rightarrow> json_fail + string cval" where
  "test_obj_deserialize yread s = parse yread text_env car_cty s"

definition test_obj_serialize :: "(string yyjson_val \<Rightarrow> string + string) \<Rightarrow> json_fail + string" where
  "test_obj_serialize ywrite =
     dump text_env ywrite car_cty
       (VStruct [Some (VString ''Toyota''), Some (VString ''Carmy''), Some (VNum 2016),
         Some (VList [VReal ''40.1'', VReal ''39.9'', VReal ''37.7'', VReal ''40.4'']), Some (VString ''Jack'')])"

definition common_msg_t :: "cty \<Rightarrow> cty" where
  "common_msg_t T = TStruct [(''code'', False, TInt True 32), (''msg'', False, TString), (''data'', False, T)]"

definition ns_person_t :: cty where
  "ns_person_t = TStruct [(''age'', False, TInt True 32), (''name'', False, TString)]"

definition person_cc :: "string cval" where
  "person_cc = VStruct [Some (VNum 23), Some (VString ''cc'')]"

text \<open>
  The three texts of \<open>main\<close>: a person, a message with it, and a message around the tree that the
  text of the person is read as, dumped while that tree is alive.
\<close>

definition json_main ::
  "(string \<Rightarrow> string yyjson_val option) \<Rightarrow> (string yyjson_val \<Rightarrow> string + string) \<Rightarrow> (json_fail + string) list" where
  "json_main yread ywrite =
     (let person_str = dump text_env ywrite ns_person_t person_cc
      in [person_str,
          dump text_env ywrite (common_msg_t ns_person_t) (VStruct [Some (VNum 200), Some (VString ''success''), Some person_cc]),
          (case person_str of
             Inl e \<Rightarrow> Inl e
           | Inr s \<Rightarrow>
               parse_with yread text_env TVal s
                 (\<lambda>root. dump text_env ywrite (common_msg_t TVal)
                    (VStruct [Some (VNum 400), Some (VString ''failed''), Some root])))])"

lemma test_obj_deserialize_car:
  "yread s = Some car_json \<Longrightarrow>
   test_obj_deserialize yread s =
     Inr (VStruct [Some (VString ''Toyota''), Some (VString ''Camry''), Some (VNum 2018),
       Some (VList [VReal ''40.1'', VReal ''39.9'', VReal ''37.7'', VReal ''40.4'']), None])"
  using test_json_encode by (simp add: test_obj_deserialize_def parse_def)

lemma test_obj_serialize_car:
  "test_obj_serialize (\<lambda>js. if js = JObj [(''make'', JString ''Toyota''), (''model'', JString ''Carmy''), (''year'', JSint 2016),
     (''tire_pressure'', JArr [JReal ''40.1'', JReal ''39.9'', JReal ''37.7'', JReal ''40.4'']), (''owner'', JString ''Jack'')]
     then Inr ''car'' else Inl ''other'') = Inr ''car''"
  by (simp add: test_obj_serialize_def dump_def car_cty_def cstr_Cons)

text \<open>
  With a reader that reads back what the writer wrote, without a zero byte in it, the third message
  carries the person the first text is of.
\<close>

lemma json_main_embeds:
  assumes "\<And>js. ywrite js = Inr (txt js)" "\<And>js. NUL \<notin> set (txt js)" "\<And>js. yread (txt js) = Some (yy_norm js)"
  shows "json_main yread ywrite =
    [Inr (txt (JObj [(''age'', JSint 23), (''name'', JString ''cc'')])),
     Inr (txt (JObj [(''code'', JSint 200), (''msg'', JString ''success''),
       (''data'', JObj [(''age'', JSint 23), (''name'', JString ''cc'')])])),
     Inr (txt (JObj [(''code'', JSint 400), (''msg'', JString ''failed''),
       (''data'', JObj [(''age'', JUint 23), (''name'', JString ''cc'')])]))]"
  using assms by (simp add: json_main_def dump_def parse_with_def ns_person_t_def common_msg_t_def person_cc_def)

section \<open>examples/src/function.cpp\<close>

text \<open>The four ways to add, for sums in the range of \<open>int\<close>; the member takes its object first.\<close>

definition add :: "(int, unit) callable" where
  "add vs w = (Inr (Some (vs ! 0 + vs ! 1)), w)"

definition Algorithm_add :: "unit \<Rightarrow> (int, unit) callable" where
  "Algorithm_add self = add"

definition int_ref_wrapper :: cxx_type where
  "int_ref_wrapper = Named ''std::reference_wrapper<int>''"

definition function_main :: "(int, unit) outcome list" where
  "function_main =
     (let f = bind [int_type, int_type] (Some int_type) add;
          f2 = bind [Ref int_type, Ref int_type] (Some int_type) add;
          call = (\<lambda>f. invoke 0 f [(int_type, 1), (int_type, 2)] ());
          member = (\<lambda>self. case bind_member [int_type, int_type] (Some int_type) Algorithm_add self of
                       Inl e \<Rightarrow> Threw e ()
                     | Inr f \<Rightarrow> call f)
      in [call f, invoke 0 f2 [(int_ref_wrapper, 3), (int_ref_wrapper, 5)] (), call f, call f, member (Some ()), member (Some ())])"

text \<open>
  All calls but the second give 3; the second reads two \<open>reference_wrapper\<close>s through a tuple of
  references, which the language does not define.
\<close>

lemma function_main_results:
  "function_main = [Returned (Some 3) (), Undefined, Returned (Some 3) (), Returned (Some 3) (), Returned (Some 3) (), Returned (Some 3) ()]"
  by code_simp

section \<open>examples/src/service.cpp\<close>

text \<open>The values that pass through the services, \<open>SPtr\<close> the array a pointer points to; printed values are the state.\<close>

datatype service_value = SInt int | SStr string | SPtr "int list"

type_synonym service_fn = "(service_value, service_value list) callable"

fun get_name :: service_fn where
  "get_name vs w = (Inr (Some (SStr ''hello'')), w)"

fun print :: service_fn where
  "print [v] w = (Inr None, w @ [v])"
| "print vs w = (Inr None, w)"

text \<open>Arithmetic in the range of \<open>int\<close>, by a divisor that is not 0.\<close>

fun arith :: "(int \<Rightarrow> int \<Rightarrow> int) \<Rightarrow> service_fn" where
  "arith f [SInt a, SInt b] w = (Inr (Some (SInt (f a b))), w)"
| "arith f vs w = (Inr None, w)"

fun print_buf :: service_fn where
  "print_buf [SPtr buf, SInt len] w = (Inr None, w @ map SInt (take (nat len) buf))"
| "print_buf vs w = (Inr None, w)"

definition algorithm_mul :: "unit \<Rightarrow> service_fn" where
  "algorithm_mul self = arith (*)"

definition algorithm_div :: "unit \<Rightarrow> service_fn" where
  "algorithm_div self = arith (sdiv)"

abbreviation string_type :: cxx_type where "string_type \<equiv> Named ''std::string''"
abbreviation int_ptr :: cxx_type where "int_ptr \<equiv> Named ''int *''"

text \<open>Registrations in sequence, up to the first exception.\<close>

fun register_all ::
  "((service_value, service_value list) service \<Rightarrow> string + (service_value, service_value list) service) list
     \<Rightarrow> (service_value, service_value list) service \<Rightarrow> string + (service_value, service_value list) service" where
  "register_all [] s = Inr s"
| "register_all (f # fs) s = (case f s of Inl e \<Rightarrow> Inl e | Inr s' \<Rightarrow> register_all fs s')"

definition service_registry :: "string + (service_value, service_value list) service" where
  "service_registry =
     register_all
       [service_register (sv_of ''/algorithm/add'') [int_type, int_type] (Some int_type) (arith (+)),
        service_register (sv_of ''/algorithm/sub'') [int_type, int_type] (Some int_type) (arith (-)),
        service_register_member (sv_of ''/algorithm/mul'') [int_type, int_type] (Some int_type) algorithm_mul (Some ()),
        service_register_member (sv_of ''/algorithm/div'') [int_type, int_type] (Some int_type) algorithm_div (Some ()),
        service_register (sv_of ''/log'') [string_type] None print,
        service_register (sv_of ''/print_buf'') [int_ptr, int_type] None print_buf]
       service_init"

text \<open>The calls of \<open>main\<close> on the registry; an array decays to a pointer.\<close>

fun service_calls ::
  "(service_value, service_value list) service \<Rightarrow> (string \<times> cxx_type option \<times> (cxx_type \<times> service_value) list) list
     \<Rightarrow> service_value list \<Rightarrow> service_value option list \<Rightarrow> (service_value option list \<times> service_value list) option" where
  "service_calls s [] w rs = Some (rs, w)"
| "service_calls s ((name, R, args) # cs) w rs =
     (case service_call R (SInt 0) (sv_of name) args s w of
        Returned v w' \<Rightarrow> service_calls s cs w' (rs @ [v])
      | _ \<Rightarrow> None)"

definition service_main :: "(service_value option list \<times> service_value list) option" where
  "service_main =
     (case service_registry of
        Inl e \<Rightarrow> None
      | Inr s \<Rightarrow>
          (case service_calls s
            [(''/print_buf'', None, [(int_ptr, SPtr [1, 0, 0, 0, 0, 0, 0, 0]), (int_type, SInt 8)]),
             (''/algorithm/add'', Some int_type, [(int_type, SInt 3), (int_type, SInt 4)]),
             (''/algorithm/add'', Some int_type, [(int_type, SInt 3), (int_type, SInt 4)]),
             (''/algorithm/sub'', Some int_type, [(int_type, SInt 4), (int_type, SInt 3)]),
             (''/algorithm/sub'', Some int_type, [(int_type, SInt 4), (int_type, SInt 3)]),
             (''/algorithm/mul'', Some int_type, [(int_type, SInt 4), (int_type, SInt 3)]),
             (''/algorithm/mul'', Some int_type, [(int_type, SInt 4), (int_type, SInt 3)]),
             (''/algorithm/div'', Some int_type, [(int_type, SInt 12), (int_type, SInt 3)]),
             (''/algorithm/div'', Some int_type, [(int_type, SInt 12), (int_type, SInt 3)]),
             (''/log'', None, [(Ref string_type, SStr ''hello,world'')]),
             (''/log'', None, [(string_type, SStr ''hello,world'')])]
            [] [] of
             None \<Rightarrow> None
           | Some (rs, w) \<Rightarrow>
               (case service_register (sv_of ''/get_name'') [] (Some string_type) get_name s of
                  Inl e \<Rightarrow> None
                | Inr s' \<Rightarrow> service_calls s' [(''/get_name'', Some string_type, [])] w rs)))"

text \<open>No registration is refused, every call is defined, and the results are those the program expects.\<close>

lemma service_main_results:
  "service_main =
     Some ([None, Some (SInt 7), Some (SInt 7), Some (SInt 1), Some (SInt 1), Some (SInt 12), Some (SInt 12), Some (SInt 4),
         Some (SInt 4), None, None, Some (SStr ''hello'')],
       map SInt [1, 0, 0, 0, 0, 0, 0, 0] @ [SStr ''hello,world'', SStr ''hello,world''])"
  by code_simp

end
