(* ===== verification/Spec2Isabelle.thy ===== *)
theory Spec2Isabelle
  imports Url_Segments Url_Decode Url Mime Router_Dispatch Listener Client Multipart_Message Asio_Pool
    Signal_Modules Struct_Path Http_Server_Demo Produce_Consume Examples
begin

text \<open>
  A verification of ccl2, a C++ library with an HTTP server and client, URL handling, JSON
  conversions, and building blocks for asynchronous programs.

  \<^bold>\<open>The program and its parts.\<close>  A server (src/http/session.cpp) listens, and runs one session per
  connection.  A session reads requests and answers each from a static route, whose file it
  types by the table of include/ccl2/http/mime_types.h, or by the router
  (src/http/router.cpp), which matches the path against route templates compiled to regular
  expressions.  The client (src/http/client.cpp) takes a URL apart (src/url.cpp) and fetches it.
  Uploads are parsed by include/ccl2/http/multipart_parser.h.  Beside HTTP there are the JSON
  conversions (json.h), the thread pool (asio_pool.h), the queue of the coroutines
  (async_queue.h), and signals and services (signal.h, service.h) over type-erased functions
  (function.h), all under include/ccl2.

  \<^bold>\<open>Theories.\<close>
  \<^item> Prelude: bytes, strings as C and C++ see them (\<open>rd\<close> reads \<open>s[i]\<close> with the terminator, \<open>cstr\<close> the
    string up to its first zero), undefined behaviour as the values of \<open>ub\<close>, shared lemmas.
  \<^item> Utf8, Url_Canon, Url_Segments, Url_Decode, Url: src/url.cpp from top to bottom.  The three
    passes of \<open>url_canonify_uri\<close> over one buffer with two indices are \<open>canon_decode\<close>, \<open>canon_squash\<close> and
    \<open>canon_reduce\<close>; Url_Canon shows that they compute functions on lists, Url_Segments that these
    resolve the path segment by segment and that no dot segment survives.  Utf8 says exactly
    which byte strings the validator accepts.  Url has \<open>url_parse\<close> with every early return, its
    round trip, and the bounds of its scan.
  \<^item> Std_Map: \<open>std::map\<close> with a comparison, whose laws are the locale \<open>strict_weak_order\<close>; its extension
    \<open>strict_total_order\<close> is interpreted on \<open>std::less\<close> there, the weak order itself on \<open>ci_less\<close> (include/ccl2/utils.h) in Mime, which holds the
    table of MIME types row by row.
  \<^item> Std_Regex: the part of \<open>std::regex\<close> the router uses, as a compiler to an abstract syntax and a
    backtracking matcher, shown to be sound for a declarative matching relation.
  \<^item> Http, Router, Router_Templates, Router_Dispatch: messages as the values their accessors return,
    the router with its table of routes, the correctness of templates and of queries, and dispatch
    to the first route that matches.
  \<^item> Session, Session_Runs, Listener: static files, one session as a state machine over the
    outcomes of its operations (\<open>session_step\<close>), its runs, and the server in which sessions
    interleave over shared state (\<open>hs_step\<close>).
  \<^item> Client: \<open>http_client_fetch\<close> over the outcomes of the network operations.
  \<^item> Multipart, Multipart_Buffer, Multipart_Parse, Multipart_Message: the incremental parser with its
    buffer \<open>mbuf\<close>.  What the parser relies on of the buffer is the locale \<open>window_buffer\<close>, interpreted
    on the operations of the code; Multipart_Message composes everything into the round trip of
    whole messages, also when they arrive cut into chunks.
  \<^item> Json, Json_Roundtrip: \<open>yyjson_convert\<close> as a recursion on the C++ type, the typing of values, the
    round trip and the type soundness of reading.
  \<^item> Struct_Path: the setting of a member by a path of examples/src/json2.cpp, by what reading
    through paths shows of it.
  \<^item> Erased_Function, Signal, Service, Signal_Stream, Signal_Modules: \<open>bind\<close> and \<open>invoke\<close> with the casts made visible,
    the registries of signals and services against the history of their operations, and the stream
    that joins a signal with a queue, with the modules of async\<open>_\<close>signal2.cpp around it.
  \<^item> The interface of a queue is the locale \<open>fifo_queue\<close>, interpreted on \<open>AsyncQueue\<close>, on the stream and on
    the producers and the consumer.
  \<^item> Async_Queue, Asio_Pool: inductive step relations for every interleaving of producers, consumers
    and the strand, and of the threads of the pool; invariants, wake-ups, quiescence.
  \<^item> Http_Server_Demo, Produce_Consume, Examples: programs of examples/src put together from the models
    above: what the server of http\<open>_\<close>server.cpp answers to every request, when the producers and the
    consumer of async\<open>_\<close>queue.cpp are done, and what json.cpp, function.cpp and service.cpp compute.
  \<^item> Repo_Tests: the cases of the repository's tests, evaluated on the definitions.

  \<^bold>\<open>How the model corresponds to the code.\<close>  Definitions carry the names of the source, with a suffix
  or prefix where HOL or another component has the name.  A class or struct is a record, an
  enumeration a datatype.  Exceptions and early returns are values of sum types, and code that would
  read outside a buffer, dereference a null pointer or use an unset variable yields a value of \<open>ub\<close>
  (or \<open>Undefined\<close>), so that a theorem about a result also says that the behaviour is defined.
  Callbacks and handlers are functions on a state of any type, passed through.  A \<open>std::string\<close> is a
  list of bytes; bytes the code computes with are words.  A \<open>size_t\<close> position is a natural number;
  where the code subtracts two positions the invariant \<open>wf_buf\<close> orders them.  An \<open>int\<close> index into a
  string is a natural number as well, which is faithful for strings shorter than \<open>2 ^ 31\<close> bytes.
  Ports, JSON integers and \<open>AsyncQueue::size\<close> have the width of the code.  All functions are total: every
  loop is a recursion with a measure, and no fuel is used anywhere.

  \<^bold>\<open>Parameters.\<close>  What is not part of the repository is an argument of the definitions: the file system
  (\<open>fs\<close>), the network and the resolver (outcomes of operations), the version string of Beast, the
  iteration order of an \<open>unordered_multimap\<close> (\<open>order\<close>), the reading and writing of JSON texts by yyjson,
  the rounding to \<open>float\<close> and the iteration order of an \<open>unordered_map\<close> (\<open>json_env\<close>; the order is any
  permutation that is a function of the entries).

  \<^bold>\<open>Not modelled.\<close>  Parts of \<open>std::regex\<close> that no template can reach.  Locks of signals and services, which
  change nothing for one thread.  The data race on the timer of \<open>AsyncQueue\<close> that a coroutine outside the
  context of the strand could cause; its operations are atomic here.  The lifetimes of objects
  captured by handlers.  include/ccl2/asio_helper.h, stopwatch.h, singleton_provider.h and
  type_traits.h contain only calls of Asio and of the clock, or types.  The other examples (signal.cpp,
  async\<open>_\<close>signal.cpp, callback\<open>_\<close>wrapper.cpp, asio\<open>_\<close>pool\<open>_\<close>with\<open>_\<close>coroutine.cpp, the UDP programs) print, sleep
  or exchange datagrams.  The tests appear as evaluated cases, the benchmarks not at all.
\<close>

end
